(* ===== verification/Prelude.thy ===== *)
theory Prelude
  imports Main "HOL-Library.Word"
begin

text \<open>
  Shared vocabulary of the development: the C integer types of
  \<^verbatim>\<open>src/kernel/types.h\<close> as words, byte arrays with sub-array reads and writes, the
  little-endian layout the RISC-V kernel uses for every on-disk structure, and the few
  generic facts on lists and searches that the component theories share.
\<close>

unbundle bit_operations_syntax

section \<open>C integer types\<close>

type_synonym uchar = "8 word"
type_synonym ushort = "16 word"
type_synonym uint32 = "32 word"
type_synonym uint64 = "64 word"

type_synonym bytes = "uchar list"

section \<open>Simplification collections\<close>

named_theorems byte_simps \<open>reads of byte arrays after writes\<close>
named_theorems kmon_simps \<open>unfolding of the kernel monad\<close>

section \<open>Byte arrays\<close>

text \<open>\<open>get_bytes off n blk\<close> is the sub-array of \<open>n\<close> bytes at \<open>off\<close>; \<open>put_bytes off bs blk\<close>
  is what \<^verbatim>\<open>memmove(blk + off, bs, length)\<close> leaves in \<open>blk\<close>.\<close>

definition get_bytes :: "nat \<Rightarrow> nat \<Rightarrow> 'a list \<Rightarrow> 'a list" where
  "get_bytes off n blk = take n (drop off blk)"

definition put_bytes :: "nat \<Rightarrow> 'a list \<Rightarrow> 'a list \<Rightarrow> 'a list" where
  "put_bytes off bs blk = take off blk @ bs @ drop (off + length bs) blk"

lemma length_get_bytes [simp]: "off + n \<le> length blk \<Longrightarrow> length (get_bytes off n blk) = n"
  by (simp add: get_bytes_def)

lemma length_put_bytes [simp]:
  "off + length bs \<le> length blk \<Longrightarrow> length (put_bytes off bs blk) = length blk"
  by (simp add: put_bytes_def)

lemma nth_get_bytes: "i < n \<Longrightarrow> off + n \<le> length blk \<Longrightarrow> get_bytes off n blk ! i = blk ! (off + i)"
  by (simp add: get_bytes_def)

lemma nth_put_bytes:
  assumes "off + length bs \<le> length blk" and "i < length blk"
  shows "put_bytes off bs blk ! i =
    (if off \<le> i \<and> i < off + length bs then bs ! (i - off) else blk ! i)"
  using assms by (auto simp: put_bytes_def nth_append min_def)

lemma get_put_same [byte_simps]:
  "off + length bs \<le> length blk \<Longrightarrow> n = length bs \<Longrightarrow> get_bytes off n (put_bytes off bs blk) = bs"
  by (simp add: get_bytes_def put_bytes_def)

lemma get_put_disjoint [byte_simps]:
  assumes "off + length bs \<le> length blk" and "o2 + n \<le> off \<or> off + length bs \<le> o2"
  shows "get_bytes o2 n (put_bytes off bs blk) = get_bytes o2 n blk"
proof (rule nth_equalityI)
  show "length (get_bytes o2 n (put_bytes off bs blk)) = length (get_bytes o2 n blk)"
    using assms by (simp add: get_bytes_def)
  fix i assume "i < length (get_bytes o2 n (put_bytes off bs blk))"
  then have "i < n" and "o2 + i < length blk"
    using assms by (auto simp: get_bytes_def)
  then show "get_bytes o2 n (put_bytes off bs blk) ! i = get_bytes o2 n blk ! i"
    using assms by (auto simp: get_bytes_def nth_put_bytes)
qed

text \<open>The same for a \<open>put_bytes\<close> that may extend the array.\<close>

lemma get_put_at: "off \<le> length blk \<Longrightarrow> n = length bs \<Longrightarrow> get_bytes off n (put_bytes off bs blk) = bs"
  by (simp add: get_bytes_def put_bytes_def)

lemma get_put_before: "a + n \<le> off \<Longrightarrow> off \<le> length blk \<Longrightarrow> get_bytes a n (put_bytes off bs blk) = get_bytes a n blk"
  by (auto simp: get_bytes_def put_bytes_def drop_take min_def)

lemma get_put_after: "off + length bs \<le> a \<Longrightarrow> off \<le> length blk \<Longrightarrow> get_bytes a n (put_bytes off bs blk) = get_bytes a n blk"
  by (simp add: get_bytes_def put_bytes_def)

lemma get_bytes_all [simp]: "n = length blk \<Longrightarrow> get_bytes 0 n blk = blk"
  by (simp add: get_bytes_def)

lemma put_bytes_Nil [simp]: "put_bytes off [] blk = blk"
  by (simp add: put_bytes_def)

lemma put_bytes_all [simp]: "length bs = length blk \<Longrightarrow> put_bytes 0 bs blk = bs"
  by (simp add: put_bytes_def)

lemma put_bytes_put_bytes:
  "off + length bs \<le> length blk \<Longrightarrow> length cs = length bs \<Longrightarrow>
    put_bytes off cs (put_bytes off bs blk) = put_bytes off cs blk"
  by (simp add: put_bytes_def)

lemma put_get_bytes [simp]:
  "off + n \<le> length blk \<Longrightarrow> put_bytes off (get_bytes off n blk) blk = blk"
  by (simp add: put_bytes_def get_bytes_def add.commute [of off] flip: drop_drop)

lemma get_bytes_append_adj:
  "get_bytes a m xs @ get_bytes (a + m) n xs = get_bytes a (m + n) xs"
  by (simp add: get_bytes_def take_add add.commute [of a])

lemma get_get_bytes [byte_simps]:
  "a + n \<le> m \<Longrightarrow> get_bytes a n (get_bytes b m xs) = get_bytes (b + a) n xs"
  by (simp add: get_bytes_def drop_take add.commute [of b])

section \<open>Little-endian integers\<close>

text \<open>\<open>le_bytes n w\<close> are the low \<open>n\<close> bytes of \<open>w\<close>, least significant first;
  \<open>le_word\<close> reads them back.\<close>

primrec le_bytes :: "nat \<Rightarrow> 'a::len word \<Rightarrow> bytes" where
  "le_bytes 0 w = []"
| "le_bytes (Suc n) w = ucast w # le_bytes n (drop_bit 8 w)"

primrec le_word :: "bytes \<Rightarrow> 'a::len word" where
  "le_word [] = 0"
| "le_word (b # bs) = ucast b OR push_bit 8 (le_word bs)"

lemma length_le_bytes [simp]: "length (le_bytes n w) = n"
  by (induction n arbitrary: w) auto

lemma le_word_le_bytes_take: "le_word (le_bytes n w) = take_bit (8 * n) (w :: 'a::len word)"
proof (induction n arbitrary: w)
  case 0
  then show ?case by simp
next
  case (Suc n)
  show ?case
  proof (rule bit_word_eqI)
    fix k assume "k < LENGTH('a)"
    then show "bit (le_word (le_bytes (Suc n) w) :: 'a word) k = bit (take_bit (8 * Suc n) w) k"
      by (auto simp: Suc bit_simps not_less)
  qed
qed

lemma le_word_le_bytes:
  "LENGTH('a) \<le> 8 * n \<Longrightarrow> le_word (le_bytes n w) = (w :: 'a::len word)"
  by (simp add: le_word_le_bytes_take take_bit_word_eq_self)

lemma le_bytes_le_word:
  "8 * length bs \<le> LENGTH('a) \<Longrightarrow> le_bytes (length bs) (le_word bs :: 'a::len word) = bs"
proof (induction bs)
  case Nil
  then show ?case by simp
next
  case (Cons b bs)
  have nb: "\<not> bit b (8 + k)" for k
    by (auto dest: bit_imp_le_length)
  have hd: "(ucast (ucast b OR push_bit 8 (le_word bs :: 'a word)) :: uchar) = b"
    using Cons.prems by (auto intro!: bit_word_eqI simp: bit_simps)
  have tl: "drop_bit 8 (ucast b OR push_bit 8 (le_word bs :: 'a word)) =
      take_bit (LENGTH('a) - 8) (le_word bs)"
    using Cons.prems by (auto intro!: bit_word_eqI simp: bit_simps nb)
  have small: "take_bit m (le_word cs :: 'a word) = le_word cs"
    if "8 * length cs \<le> m" for cs m
    using that
  proof (induction cs arbitrary: m)
    case Nil
    then show ?case by simp
  next
    case (Cons c cs)
    have "take_bit m (push_bit 8 (le_word cs :: 'a word)) = push_bit 8 (le_word cs)"
      using Cons.prems Cons.IH [of "m - 8"]
      by (simp add: take_bit_push_bit)
    moreover have "n < m" if "bit c n" for n
      using bit_imp_le_length [OF that] Cons.prems by simp
    then have "take_bit m (ucast c :: 'a word) = ucast c"
      by (auto intro!: bit_word_eqI simp: bit_simps)
    ultimately show ?case by simp
  qed
  from Cons tl small [of bs "LENGTH('a) - 8"] hd show ?case by simp
qed

definition get16 :: "nat \<Rightarrow> bytes \<Rightarrow> ushort" where
  "get16 off blk = le_word (get_bytes off 2 blk)"

definition put16 :: "nat \<Rightarrow> ushort \<Rightarrow> bytes \<Rightarrow> bytes" where
  "put16 off w blk = put_bytes off (le_bytes 2 w) blk"

definition get32 :: "nat \<Rightarrow> bytes \<Rightarrow> uint32" where
  "get32 off blk = le_word (get_bytes off 4 blk)"

definition put32 :: "nat \<Rightarrow> uint32 \<Rightarrow> bytes \<Rightarrow> bytes" where
  "put32 off w blk = put_bytes off (le_bytes 4 w) blk"

lemma get32_zero [simp]: "get32 off (replicate m 0) = 0"
proof -
  have "le_word (replicate n 0) = (0 :: uint32)" for n
    by (induction n) simp_all
  then show ?thesis by (simp add: get32_def get_bytes_def)
qed

lemma length_put16 [simp]: "off + 2 \<le> length blk \<Longrightarrow> length (put16 off w blk) = length blk"
  by (simp add: put16_def)

lemma length_put32 [simp]: "off + 4 \<le> length blk \<Longrightarrow> length (put32 off w blk) = length blk"
  by (simp add: put32_def)

lemma get16_put16 [byte_simps]: "off + 2 \<le> length blk \<Longrightarrow> get16 off (put16 off w blk) = w"
  by (simp add: get16_def put16_def byte_simps le_word_le_bytes)

lemma get32_put32 [byte_simps]: "off + 4 \<le> length blk \<Longrightarrow> get32 off (put32 off w blk) = w"
  by (simp add: get32_def put32_def byte_simps le_word_le_bytes)

lemma get16_put16_disjoint [byte_simps]:
  "off + 2 \<le> length blk \<Longrightarrow> o2 + 2 \<le> off \<or> off + 2 \<le> o2 \<Longrightarrow> get16 o2 (put16 off w blk) = get16 o2 blk"
  by (simp add: get16_def put16_def byte_simps)

lemma get16_put32_disjoint [byte_simps]:
  "off + 4 \<le> length blk \<Longrightarrow> o2 + 2 \<le> off \<or> off + 4 \<le> o2 \<Longrightarrow> get16 o2 (put32 off w blk) = get16 o2 blk"
  by (simp add: get16_def put32_def byte_simps)

lemma get32_put16_disjoint [byte_simps]:
  "off + 2 \<le> length blk \<Longrightarrow> o2 + 4 \<le> off \<or> off + 2 \<le> o2 \<Longrightarrow> get32 o2 (put16 off w blk) = get32 o2 blk"
  by (simp add: get32_def put16_def byte_simps)

lemma get32_put32_disjoint [byte_simps]:
  "off + 4 \<le> length blk \<Longrightarrow> o2 + 4 \<le> off \<or> off + 4 \<le> o2 \<Longrightarrow> get32 o2 (put32 off w blk) = get32 o2 blk"
  by (simp add: get32_def put32_def byte_simps)

section \<open>Words and numbers\<close>

lemma unat_of_nat_small:
  "i < 2 ^ LENGTH('a) \<Longrightarrow> unat (of_nat i :: 'a::len word) = i"
  by (simp add: unsigned_of_nat take_bit_nat_eq_self)

section \<open>Linear searches\<close>

text \<open>A C loop \<^verbatim>\<open>for (i = 0; i < n; i++) if (P(i)) return i;\<close> is \<^const>\<open>List.find\<close> on
  \<open>[0..<n]\<close>.\<close>

lemma find_upt_Some:
  "find P [0..<n] = Some i \<longleftrightarrow> i < n \<and> P i \<and> (\<forall>j<i. \<not> P j)"
  by (auto simp: find_Some_iff)

lemma find_upt_None: "find P [0..<n] = None \<longleftrightarrow> (\<forall>i<n. \<not> P i)"
  by (auto simp: find_None_iff)

lemma find_SomeD: "find P xs = Some x \<Longrightarrow> x \<in> set xs \<and> P x"
  by (auto simp: find_Some_iff)

lemma map_upt_split: "k \<le> n \<Longrightarrow> map f [0..<n] = map f [0..<k] @ map (\<lambda>i. f (k + i)) [0..<n - k]"
  by (rule nth_equalityI) (auto simp: nth_append)

section \<open>Counters that wrap around\<close>

lemma unat_eqI: "unat a = unat (b :: 'a :: len word) \<Longrightarrow> a = b"
  by (metis of_nat_unat ucast_id)

lemma unat_add_mod:
  assumes "n dvd 2 ^ LENGTH('a :: len)"
  shows "unat (r + of_nat i :: 'a word) mod n = (unat r + i) mod n"
  using assms by (simp add: unat_word_ariths unsigned_of_nat take_bit_eq_mod mod_mod_cancel mod_add_right_eq)

lemma unat_Suc_diff:
  fixes w r :: "'a :: len word"
  assumes "unat (w - r) < 2 ^ LENGTH('a) - 1"
  shows "unat (w + 1 - r) = Suc (unat (w - r))"
proof -
  have e: "w + 1 - r = (w - r) + 1" by simp
  have "unat (w - r) + unat (1 :: 'a word) < 2 ^ LENGTH('a)" using assms by simp
  then show ?thesis unfolding e unat_add_lem by simp
qed

lemma unat_pred_diff:
  fixes w r :: "'a :: len word"
  assumes "w \<noteq> r"
  shows "unat (w - r) = Suc (unat (w - (r + 1)))"
proof -
  have "w - r \<noteq> 0" using assms by simp
  then have "unat (w - r) = Suc (unat (w - r - 1))" by (metis Suc_pred' unat_gt_0 unat_minus_one)
  then show ?thesis by (simp add: algebra_simps)
qed

lemma eq_of_nat_iff: "k < 2 ^ LENGTH('a :: len) \<Longrightarrow> (x :: 'a word) = of_nat k \<longleftrightarrow> unat x = k"
  by (metis of_nat_unat ucast_id unat_of_nat_small)

end
