(* ===== verification/Kmonad.thy ===== *)
theory Kmonad
  imports Prelude
begin

text \<open>
  The shape of kernel code: a function from the kernel state to an outcome. Kernel C
  code has three ways to end: it returns (\<open>Ok\<close>), it calls \<^verbatim>\<open>panic()\<close>, which prints its
  message and never returns (\<open>Panic\<close>), or it reaches a \<^verbatim>\<open>sleep(chan, lk)\<close> that only
  another process or an interrupt can end (\<open>Sleep\<close>). Each outcome carries the state the
  kernel was left in. The state type is a parameter: every component extends the record of
  the one below it, so a function of a lower component applies to the larger states as it
  is.

  Spin locks (\<^verbatim>\<open>acquire\<close>/\<^verbatim>\<open>release\<close> pairs) delimit atomic sections and have no other effect
  on the state of a component; the component theories keep the sections and leave out the
  pairs. The lock itself is the subject of its own theory.
\<close>

section \<open>Sleep channels\<close>

text \<open>A sleep channel is the address of a kernel object; the constructors name the objects
  the sources pass to \<^verbatim>\<open>sleep\<close> and \<^verbatim>\<open>wakeup\<close>.\<close>

datatype chan =
    ChanBuf nat          \<comment> \<open>\<open>b\<close>: a buffer the disk owns\<close>
  | ChanBufLock nat      \<comment> \<open>\<open>&b->lock\<close>\<close>
  | ChanInodeLock nat    \<comment> \<open>\<open>&ip->lock\<close>\<close>
  | ChanDiskFree         \<comment> \<open>\<open>&disk.free[0]\<close>\<close>
  | ChanLog              \<comment> \<open>\<open>&log\<close>\<close>
  | ChanPipeRead nat     \<comment> \<open>\<open>&pi->nread\<close>\<close>
  | ChanPipeWrite nat    \<comment> \<open>\<open>&pi->nwrite\<close>\<close>
  | ChanProc nat         \<comment> \<open>\<open>p\<close>: a parent in \<open>wait\<close>\<close>
  | ChanTicks            \<comment> \<open>\<open>&ticks\<close>\<close>
  | ChanCons             \<comment> \<open>\<open>&cons.r\<close>\<close>
  | ChanUart             \<comment> \<open>\<open>&uart_tx_r\<close>\<close>
  | ChanSched            \<comment> \<open>no object: the process gives up the CPU in \<open>exit\<close> or \<open>yield\<close>\<close>

section \<open>Outcomes and sequencing\<close>

datatype ('a, 's) outcome =
    Ok 'a 's
  | Panic string 's
  | Sleep chan 's

type_synonym ('s, 'a) kmon = "'s \<Rightarrow> ('a, 's) outcome"

definition kret :: "'a \<Rightarrow> ('s, 'a) kmon" where
  "kret x = (\<lambda>s. Ok x s)"

definition kbind :: "('s, 'a) kmon \<Rightarrow> ('a \<Rightarrow> ('s, 'b) kmon) \<Rightarrow> ('s, 'b) kmon" where
  "kbind m f = (\<lambda>s. case m s of
      Ok a s' \<Rightarrow> f a s'
    | Panic e s' \<Rightarrow> Panic e s'
    | Sleep c s' \<Rightarrow> Sleep c s')"

definition kseq :: "('s, 'a) kmon \<Rightarrow> ('s, 'b) kmon \<Rightarrow> ('s, 'b) kmon" where
  "kseq m m' = kbind m (\<lambda>_. m')"

definition kget :: "('s \<Rightarrow> 'a) \<Rightarrow> ('s, 'a) kmon" where
  "kget f = (\<lambda>s. Ok (f s) s)"

definition kmod :: "('s \<Rightarrow> 's) \<Rightarrow> ('s, unit) kmon" where
  "kmod f = (\<lambda>s. Ok () (f s))"

definition kpanic :: "string \<Rightarrow> ('s, 'a) kmon" where
  "kpanic msg = (\<lambda>s. Panic msg s)"

definition ksleep :: "chan \<Rightarrow> ('s, 'a) kmon" where
  "ksleep c = (\<lambda>s. Sleep c s)"

definition kwhen :: "bool \<Rightarrow> ('s, unit) kmon \<Rightarrow> ('s, unit) kmon" where
  "kwhen b m = (if b then m else kret ())"

text \<open>\<^verbatim>\<open>for (x in xs) body(x);\<close>\<close>

primrec kfor :: "'x list \<Rightarrow> ('x \<Rightarrow> ('s, unit) kmon) \<Rightarrow> ('s, unit) kmon" where
  "kfor [] f = kret ()"
| "kfor (x # xs) f = kseq (f x) (kfor xs f)"

lemma kret_apply [simp, kmon_simps]: "kret x s = Ok x s"
  by (simp add: kret_def)

lemma kget_apply [simp, kmon_simps]: "kget f s = Ok (f s) s"
  by (simp add: kget_def)

lemma kmod_apply [simp, kmon_simps]: "kmod f s = Ok () (f s)"
  by (simp add: kmod_def)

lemma kpanic_apply [simp, kmon_simps]: "kpanic msg s = Panic msg s"
  by (simp add: kpanic_def)

lemma ksleep_apply [simp, kmon_simps]: "ksleep c s = Sleep c s"
  by (simp add: ksleep_def)

lemma kwhen_apply [kmon_simps]: "kwhen b m s = (if b then m s else Ok () s)"
  by (simp add: kwhen_def)

lemma kbind_Ok [simp, kmon_simps]: "m s = Ok a s' \<Longrightarrow> kbind m f s = f a s'"
  by (simp add: kbind_def)

lemma kbind_Panic [simp, kmon_simps]: "m s = Panic e s' \<Longrightarrow> kbind m f s = Panic e s'"
  by (simp add: kbind_def)

lemma kbind_Sleep [simp, kmon_simps]: "m s = Sleep c s' \<Longrightarrow> kbind m f s = Sleep c s'"
  by (simp add: kbind_def)

lemma kseq_Ok [simp, kmon_simps]: "m s = Ok a s' \<Longrightarrow> kseq m m' s = m' s'"
  by (simp add: kseq_def)

lemma kseq_Panic [simp, kmon_simps]: "m s = Panic e s' \<Longrightarrow> kseq m m' s = Panic e s'"
  by (simp add: kseq_def)

lemma kseq_Sleep [simp, kmon_simps]: "m s = Sleep c s' \<Longrightarrow> kseq m m' s = Sleep c s'"
  by (simp add: kseq_def)

lemma kbind_primitives [simp, kmon_simps]:
  "kbind (kget g) f s = f (g s) s"
  "kbind (kret x) f s = f x s"
  "kbind (kpanic msg) f s = Panic msg s"
  "kseq (kmod h) m s = m (h s)"
  by (simp_all add: kbind_def kseq_def)

lemma kbind_eq_Ok:
  "kbind m f s = Ok b s'' \<longleftrightarrow> (\<exists>a s'. m s = Ok a s' \<and> f a s' = Ok b s'')"
  by (auto simp: kbind_def split: outcome.splits)

lemma kseq_eq_Ok:
  "kseq m m' s = Ok b s'' \<longleftrightarrow> (\<exists>a s'. m s = Ok a s' \<and> m' s' = Ok b s'')"
  by (simp add: kseq_def kbind_eq_Ok)

lemma kbind_assoc: "kbind (kbind m f) g = kbind m (\<lambda>x. kbind (f x) g)"
  by (rule ext) (simp add: kbind_def split: outcome.splits)

lemma kmon_assoc:
  "kbind (kbind m f) g = kbind m (\<lambda>x. kbind (f x) g)"
  "kbind (kseq m m') g = kseq m (kbind m' g)"
  "kseq (kbind m f) m'' = kbind m (\<lambda>x. kseq (f x) m'')"
  "kseq (kseq m m') m'' = kseq m (kseq m' m'')"
  by (rule ext, simp add: kseq_def kbind_def split: outcome.splits)+

lemma kbind_ret: "kbind (kret x) f = f x"
  by (rule ext) simp

lemma kseq_unit: "kseq m (kret ()) = m"
  by (rule ext) (simp add: kseq_def kbind_def split: outcome.splits)

section \<open>Total-correctness triples\<close>

text \<open>\<open>runs P m Q\<close>: started in a state with \<open>P\<close>, \<open>m\<close> returns (no panic, no sleep) with
  a result and state in \<open>Q\<close>.\<close>

definition runs :: "('s \<Rightarrow> bool) \<Rightarrow> ('s, 'a) kmon \<Rightarrow> ('a \<Rightarrow> 's \<Rightarrow> bool) \<Rightarrow> bool" where
  "runs P m Q \<longleftrightarrow> (\<forall>s. P s \<longrightarrow> (\<exists>a s'. m s = Ok a s' \<and> Q a s'))"

lemma runsI: "(\<And>s. P s \<Longrightarrow> \<exists>a s'. m s = Ok a s' \<and> Q a s') \<Longrightarrow> runs P m Q"
  by (simp add: runs_def)

lemma runsE:
  assumes "runs P m Q" and "P s"
  obtains a s' where "m s = Ok a s'" and "Q a s'"
  using assms by (auto simp: runs_def)

lemma runs_ret: "(\<And>s. P s \<Longrightarrow> Q x s) \<Longrightarrow> runs P (kret x) Q"
  by (simp add: runs_def)

lemma runs_bind:
  assumes "runs P m R" and "\<And>a. runs (R a) (f a) Q"
  shows "runs P (kbind m f) Q"
  using assms by (fastforce simp: runs_def)

lemma runs_seq: "runs P m (\<lambda>_. R) \<Longrightarrow> runs R m' Q \<Longrightarrow> runs P (kseq m m') Q"
  by (auto simp: kseq_def intro: runs_bind)

lemma runs_weaken: "runs P m Q \<Longrightarrow> (\<And>s. P' s \<Longrightarrow> P s) \<Longrightarrow> (\<And>a s. Q a s \<Longrightarrow> Q' a s) \<Longrightarrow> runs P' m Q'"
  by (fastforce simp: runs_def)

text \<open>The loop rule: \<open>I k\<close> holds before the \<open>k\<close>-th iteration.\<close>

lemma runs_for:
  assumes "\<And>k. k < length xs \<Longrightarrow> runs (I k) (f (xs ! k)) (\<lambda>_. I (Suc k))"
  shows "runs (I 0) (kfor xs f) (\<lambda>_. I (length xs))"
  using assms
proof (induction xs arbitrary: I)
  case Nil
  then show ?case by (simp add: runs_def)
next
  case (Cons x xs)
  have "runs (I 0) (f x) (\<lambda>_. I (Suc 0))"
    using Cons.prems [of 0] by simp
  moreover have "runs (I (Suc 0)) (kfor xs f) (\<lambda>_. I (Suc (length xs)))"
    using Cons.prems [of "Suc k" for k] by (intro Cons.IH [where I = "\<lambda>k. I (Suc k)"]) simp
  ultimately show ?case by (auto intro: runs_seq)
qed

lemma kfor_upt:
  assumes step: "\<And>k t. k < n \<Longrightarrow> I k t \<Longrightarrow> \<exists>t'. f k t = Ok () t' \<and> I (Suc k) t'" and "I 0 s"
  shows "\<exists>s'. kfor [0..<n] f s = Ok () s' \<and> I n s'"
proof -
  have "runs (I 0) (kfor [0..<n] f) (\<lambda>_. I (length [0..<n]))"
    by (rule runs_for) (simp add: runs_def step)
  then show ?thesis using assms(2) by (auto simp: runs_def)
qed

lemma kfor_append: "kfor (xs @ ys) f s = kseq (kfor xs f) (kfor ys f) s"
  by (induction xs arbitrary: s) (simp_all add: kseq_def kbind_def kret_def split: outcome.splits)

end
