(* ===== verification/Params.thy ===== *)
theory Params
  imports Kmonad
begin

text \<open>
  The compile-time constants of \<^verbatim>\<open>src/kernel/param.h\<close>, \<^verbatim>\<open>src/kernel/fs.h\<close>,
  \<^verbatim>\<open>src/kernel/stat.h\<close>, \<^verbatim>\<open>src/kernel/fcntl.h\<close>, \<^verbatim>\<open>src/kernel/file.h\<close> and
  \<^verbatim>\<open>src/kernel/riscv.h\<close>. They are definitions, not abbreviations, so that ranges such as
  \<open>[0..<NBUF]\<close> stay symbolic in proofs; the collection \<open>params\<close> unfolds them.
\<close>

named_theorems params \<open>values of the compile-time constants\<close>

section \<open>param.h\<close>

definition NPROC :: nat where [params]: "NPROC = 64"
definition NOFILE :: nat where [params]: "NOFILE = 16"
definition NFILE :: nat where [params]: "NFILE = 100"
definition NINODE :: nat where [params]: "NINODE = 50"
definition NDEV :: int where [params]: "NDEV = 10"
definition ROOTDEV :: nat where [params]: "ROOTDEV = 1"
definition MAXARG :: nat where [params]: "MAXARG = 32"
definition MAXOPBLOCKS :: nat where [params]: "MAXOPBLOCKS = 10"
definition LOGSIZE :: nat where [params]: "LOGSIZE = MAXOPBLOCKS * 3"
definition NBUF :: nat where [params]: "NBUF = MAXOPBLOCKS * 3"
definition FSSIZE :: nat where [params]: "FSSIZE = 4096"
definition MAXPATH :: nat where [params]: "MAXPATH = 128"
definition LOGICAL_DISK_SIZE :: nat where [params]: "LOGICAL_DISK_SIZE = FSSIZE div 2"
definition DISK1_START_BLOCK :: nat where [params]: "DISK1_START_BLOCK = FSSIZE div 2"

section \<open>fs.h\<close>

definition ROOTINO :: nat where [params]: "ROOTINO = 1"
definition BSIZE :: nat where [params]: "BSIZE = 1024"
definition FSMAGIC :: uint32 where [params]: "FSMAGIC = 0x10203040"
definition NDIRECT :: nat where [params]: "NDIRECT = 12"
definition NINDIRECT :: nat where [params]: "NINDIRECT = BSIZE div 4"
definition MAXFILE :: nat where [params]: "MAXFILE = NDIRECT + NINDIRECT"
definition DINODE_SIZE :: nat where [params]: "DINODE_SIZE = 64"
definition IPB :: nat where [params]: "IPB = BSIZE div DINODE_SIZE"
definition BPB :: nat where [params]: "BPB = BSIZE * 8"
definition DIRSIZ :: nat where [params]: "DIRSIZ = 14"
definition DIRENT_SIZE :: nat where [params]: "DIRENT_SIZE = 16"

section \<open>stat.h, fcntl.h, file.h\<close>

definition T_DIR :: ushort where [params]: "T_DIR = 1"
definition T_FILE :: ushort where [params]: "T_FILE = 2"
definition T_DEVICE :: ushort where [params]: "T_DEVICE = 3"
definition T_SYMLINK :: ushort where [params]: "T_SYMLINK = 4"
definition M_READ :: ushort where [params]: "M_READ = 1"
definition M_WRITE :: ushort where [params]: "M_WRITE = 2"
definition M_ALL :: ushort where [params]: "M_ALL = 3"
definition O_RDONLY :: uint32 where [params]: "O_RDONLY = 0x000"
definition O_WRONLY :: uint32 where [params]: "O_WRONLY = 0x001"
definition O_RDWR :: uint32 where [params]: "O_RDWR = 0x002"
definition O_CREATE :: uint32 where [params]: "O_CREATE = 0x200"
definition O_TRUNC :: uint32 where [params]: "O_TRUNC = 0x400"
definition CONSOLE :: nat where [params]: "CONSOLE = 1"

lemma BSIZE_pos [simp]: "0 < BSIZE"
  by (simp add: params)

lemma LOGSIZE_pos [simp]: "0 < LOGSIZE"
  by (simp add: params)

lemma NBUF_pos [simp]: "0 < NBUF"
  by (simp add: params)

end
