(* ===== verification/Cstring.thy ===== *)
theory Cstring
  imports Params
begin

text \<open>
  \<^verbatim>\<open>src/kernel/string.c\<close>. Memory is a map from 64-bit addresses to bytes. The functions
  that move raw memory (\<^verbatim>\<open>memset\<close>, \<^verbatim>\<open>memmove\<close>, \<^verbatim>\<open>memcmp\<close>) act on it, one byte per loop
  iteration as the C loops do; the \<^verbatim>\<open>str*\<close> functions, whose callers pass kernel character
  arrays, act on byte lists, where reading at the end of the list reads the terminating NUL.
  The lemmas show that each loop computes the closed form the other theories use.
\<close>

section \<open>Memory\<close>

record mstate =
  mem :: "uint64 \<Rightarrow> uchar"

definition load_bytes :: "uint64 \<Rightarrow> nat \<Rightarrow> (uint64 \<Rightarrow> uchar) \<Rightarrow> bytes" where
  "load_bytes a n m = map (\<lambda>i. m (a + of_nat i)) [0..<n]"

definition store_bytes :: "uint64 \<Rightarrow> bytes \<Rightarrow> (uint64 \<Rightarrow> uchar) \<Rightarrow> (uint64 \<Rightarrow> uchar)" where
  "store_bytes a bs m = (\<lambda>x. if unat (x - a) < length bs then bs ! unat (x - a) else m x)"

definition ld64 :: "uint64 \<Rightarrow> (uint64 \<Rightarrow> uchar) \<Rightarrow> uint64" where
  "ld64 a m = le_word (load_bytes a 8 m)"

definition st64 :: "uint64 \<Rightarrow> uint64 \<Rightarrow> (uint64 \<Rightarrow> uchar) \<Rightarrow> (uint64 \<Rightarrow> uchar)" where
  "st64 a w m = store_bytes a (le_bytes 8 w) m"

lemma length_load_bytes [simp]: "length (load_bytes a n m) = n"
  by (simp add: load_bytes_def)

lemma load_store_same:
  assumes "length bs < 2 ^ 64" and "n = length bs"
  shows "load_bytes a n (store_bytes a bs m) = bs"
proof (rule nth_equalityI)
  show "length (load_bytes a n (store_bytes a bs m)) = length bs"
    using assms by simp
  fix i assume "i < length (load_bytes a n (store_bytes a bs m))"
  then have "i < length bs" using assms by simp
  then have "unat (of_nat i :: uint64) = i"
    using assms(1) by (intro unat_of_nat_small) simp
  with \<open>i < length bs\<close> assms show "load_bytes a n (store_bytes a bs m) ! i = bs ! i"
    by (simp add: load_bytes_def store_bytes_def)
qed

lemma load_store_disjoint:
  assumes "\<And>i. i < n \<Longrightarrow> length bs \<le> unat (b + of_nat i - a)"
  shows "load_bytes b n (store_bytes a bs m) = load_bytes b n m"
  using assms by (auto simp: load_bytes_def store_bytes_def not_less [symmetric])

lemma ld64_st64 [simp]: "ld64 a (st64 a w m) = w"
  by (simp add: ld64_def st64_def load_store_same le_word_le_bytes)

section \<open>memset, memmove, memcmp\<close>

primrec memset_loop :: "nat \<Rightarrow> uint64 \<Rightarrow> uchar \<Rightarrow> nat \<Rightarrow> (uint64 \<Rightarrow> uchar) \<Rightarrow> (uint64 \<Rightarrow> uchar)" where
  "memset_loop 0 dst c i m = m"
| "memset_loop (Suc k) dst c i m = memset_loop k dst c (Suc i) (m(dst + of_nat i := c))"

text \<open>\<^verbatim>\<open>for (i = 0; i < n; i++) cdst[i] = c;\<close>\<close>

definition memset :: "uint64 \<Rightarrow> uchar \<Rightarrow> nat \<Rightarrow> (uint64 \<Rightarrow> uchar) \<Rightarrow> (uint64 \<Rightarrow> uchar)" where
  "memset dst c n m = memset_loop n dst c 0 m"

primrec memmove_forward :: "nat \<Rightarrow> uint64 \<Rightarrow> uint64 \<Rightarrow> (uint64 \<Rightarrow> uchar) \<Rightarrow> (uint64 \<Rightarrow> uchar)" where
  "memmove_forward 0 d s m = m"
| "memmove_forward (Suc n) d s m = memmove_forward n (d + 1) (s + 1) (m(d := m s))"

primrec memmove_backward :: "nat \<Rightarrow> uint64 \<Rightarrow> uint64 \<Rightarrow> (uint64 \<Rightarrow> uchar) \<Rightarrow> (uint64 \<Rightarrow> uchar)" where
  "memmove_backward 0 d s m = m"
| "memmove_backward (Suc n) d s m =
     (let d' = d - 1; s' = s - 1 in memmove_backward n d' s' (m(d' := m s')))"

definition memmove :: "uint64 \<Rightarrow> uint64 \<Rightarrow> uint32 \<Rightarrow> (uint64 \<Rightarrow> uchar) \<Rightarrow> (uint64 \<Rightarrow> uchar)" where
  "memmove dst src n m =
     (if src < dst \<and> src + ucast n > dst
      then memmove_backward (unat n) (dst + ucast n) (src + ucast n) m
      else memmove_forward (unat n) dst src m)"

fun memcmp :: "nat \<Rightarrow> uint64 \<Rightarrow> uint64 \<Rightarrow> (uint64 \<Rightarrow> uchar) \<Rightarrow> int" where
  "memcmp 0 s1 s2 m = 0"
| "memcmp (Suc n) s1 s2 m =
     (if m s1 \<noteq> m s2 then uint (m s1) - uint (m s2) else memcmp n (s1 + 1) (s2 + 1) m)"

subsection \<open>The loops in closed form\<close>

lemma memset_loop_eq:
  "i + k \<le> 2 ^ 64 \<Longrightarrow>
     memset_loop k dst c i m x = (if i \<le> unat (x - dst) \<and> unat (x - dst) < i + k then c else m x)"
proof (induction k arbitrary: i m)
  case (Suc k)
  have "unat (of_nat i :: uint64) = i" using Suc.prems by (intro unat_of_nat_small) simp
  then have e: "x = dst + of_nat i \<longleftrightarrow> unat (x - dst) = i"
    by (metis add.commute add_diff_cancel_left' diff_add_cancel of_nat_unat ucast_id)
  define m' where "m' = m(dst + of_nat i := c)"
  have "m' x = (if unat (x - dst) = i then c else m x)" using e by (simp add: m'_def)
  moreover have "memset_loop (Suc k) dst c i m = memset_loop k dst c (Suc i) m'" by (simp add: m'_def)
  ultimately show ?case using Suc.IH [of "Suc i" m'] Suc.prems by auto
qed auto

lemma memset_eq: "n \<le> 2 ^ 64 \<Longrightarrow> memset dst c n m = (\<lambda>x. if unat (x - dst) < n then c else m x)"
  by (simp add: memset_def memset_loop_eq fun_eq_iff)

lemma memset_store: "n \<le> 2 ^ 64 \<Longrightarrow> memset dst c n m = store_bytes dst (replicate n c) m"
  by (auto simp: memset_eq store_bytes_def fun_eq_iff)

text \<open>A forward copy is right unless the destination starts inside the source.\<close>

lemma memmove_forward_eq:
  "d = s \<or> n \<le> unat (d - s) \<Longrightarrow>
     memmove_forward n d s m x = (if unat (x - d) < n then m (s + (x - d)) else m x)"
proof (induction n arbitrary: d s m)
  case (Suc n)
  define m' where "m' = m(d := m s)"
  have "d + 1 = s + 1 \<or> n \<le> unat (d + 1 - (s + 1))" using Suc.prems by auto
  note IH = Suc.IH [OF this, of m']
  have "s + 1 + (x - (d + 1)) = s + (x - d)" by simp
  then have 1: "memmove_forward (Suc n) d s m x = (if unat (x - (d + 1)) < n then m' (s + (x - d)) else m' x)"
    using IH by (simp add: m'_def [symmetric])
  show ?case
  proof (cases "x = d")
    case True
    have "unat (x - (d + 1)) = 2 ^ 64 - 1" using True by (simp add: unsigned_minus_1_eq_mask mask_eq_exp_minus_1)
    then show ?thesis using 1 True by (simp add: m'_def)
  next
    case False
    have "s + (x - d) \<noteq> d" if "unat (x - d) < Suc n"
    proof
      assume "s + (x - d) = d"
      then have "x - d = d - s" by (metis add_diff_cancel_left')
      then show False using that Suc.prems False by auto
    qed
    then show ?thesis using 1 False unat_pred_diff [OF False] by (simp add: m'_def)
  qed
qed simp


text \<open>A backward copy, from the ends of the two regions, is right unless the source starts inside the destination.\<close>

lemma memmove_backward_eq:
  "d = s \<or> n \<le> unat (s - d) \<Longrightarrow> n < 2 ^ 64 \<Longrightarrow>
     memmove_backward n (d + of_nat n) (s + of_nat n) m x = (if unat (x - d) < n then m (s + (x - d)) else m x)"
proof (induction n arbitrary: m)
  case (Suc n)
  define m' where "m' = m(d + of_nat n := m (s + of_nat n))"
  have un: "unat (of_nat n :: uint64) = n" using Suc.prems(2) by (intro unat_of_nat_small) simp
  have "d = s \<or> n \<le> unat (s - d)" using Suc.prems by auto
  note IH = Suc.IH [OF this, of m']
  have "memmove_backward (Suc n) (d + of_nat (Suc n)) (s + of_nat (Suc n)) m x = memmove_backward n (d + of_nat n) (s + of_nat n) m' x"
    by (simp add: Let_def m'_def algebra_simps)
  then have 1: "memmove_backward (Suc n) (d + of_nat (Suc n)) (s + of_nat (Suc n)) m x = (if unat (x - d) < n then m' (s + (x - d)) else m' x)"
    using IH Suc.prems by simp
  have e: "x = d + of_nat n \<longleftrightarrow> unat (x - d) = n"
    using un by (metis add.commute add_diff_cancel_left' diff_add_cancel of_nat_unat ucast_id)
  show ?case
  proof (cases "unat (x - d) < n")
    case True
    have "s + (x - d) \<noteq> d + of_nat n"
    proof
      assume "s + (x - d) = d + of_nat n"
      then have a: "s - d = of_nat n - (x - d)" by (simp add: algebra_simps)
      have "x - d \<le> of_nat n" using True un by (simp add: word_le_nat_alt)
      then have "unat (s - d) = n - unat (x - d)" unfolding a using un by (simp add: unat_sub)
      then show False using Suc.prems True by auto
    qed
    then show ?thesis using 1 True by (simp add: m'_def)
  next
    case False
    then show ?thesis using 1 e by (auto simp: m'_def)
  qed
qed simp

lemma memmove_store:
  assumes "unat src + unat n < 2 ^ 64"
  shows "memmove dst src n m = store_bytes dst (load_bytes src (unat n) m) m"
proof
  fix x
  have un: "ucast n = (of_nat (unat n) :: uint64)" by simp
  have n: "unat n < 2 ^ 32" using unsigned_less [of n, where ?'a = nat] by simp
  then have "unat (ucast n :: uint64) = unat n" unfolding un by (intro unat_of_nat_small) simp
  then have "unat (src + ucast n) = unat src + unat n"
    using assms unat_add_lem [of src "ucast n"] by simp
  then have lt: "src + ucast n > dst \<longleftrightarrow> unat dst < unat src + unat n" by (simp add: word_less_nat_alt)
  have "memmove dst src n m x = (if unat (x - dst) < unat n then m (src + (x - dst)) else m x)"
  proof (cases "src < dst \<and> src + ucast n > dst")
    case True
    then have "unat n \<le> unat (src - dst)"
      using n unsigned_less [of dst, where ?'a = nat] lt by (simp add: unat_sub_if' word_less_nat_alt)
    then show ?thesis using True memmove_backward_eq [of dst src "unat n" m x] assms by (simp add: memmove_def)
  next
    case False
    have "dst = src \<or> unat n \<le> unat (dst - src)"
    proof (cases src dst rule: linorder_cases)
      case less
      then show ?thesis using False lt by (auto simp: unat_sub_if' word_less_nat_alt)
    next
      case greater
      then show ?thesis using assms by (auto simp: unat_sub_if' word_less_nat_alt)
    qed simp
    then show ?thesis using False memmove_forward_eq [of dst src "unat n" m x] unfolding memmove_def by auto
  qed
  then show "memmove dst src n m x = store_bytes dst (load_bytes src (unat n) m) m x"
    by (simp add: store_bytes_def load_bytes_def)
qed

section \<open>Strings\<close>

text \<open>\<open>at0 p\<close> is \<^verbatim>\<open>*p\<close> for a pointer into a character array.\<close>

definition at0 :: "bytes \<Rightarrow> uchar" where
  "at0 p = (case p of [] \<Rightarrow> 0 | c # _ \<Rightarrow> c)"

fun strncmp :: "bytes \<Rightarrow> bytes \<Rightarrow> nat \<Rightarrow> int" where
  "strncmp p q 0 = 0"
| "strncmp p q (Suc n) =
     (if at0 p \<noteq> 0 \<and> at0 p = at0 q then strncmp (tl p) (tl q) n
      else uint (at0 p) - uint (at0 q))"

text \<open>\<^verbatim>\<open>while (n-- > 0 && (*s++ = *t++) != 0); while (n-- > 0) *s++ = 0;\<close> The result is what
  the \<open>n\<close> bytes at \<^verbatim>\<open>s\<close> hold.\<close>

fun strncpy :: "bytes \<Rightarrow> nat \<Rightarrow> bytes" where
  "strncpy t 0 = []"
| "strncpy t (Suc n) = (if at0 t = 0 then 0 # replicate n 0 else at0 t # strncpy (tl t) n)"

text \<open>The bytes \<^verbatim>\<open>safestrcpy\<close> writes, its terminating NUL included.\<close>

fun safestrcpy_loop :: "bytes \<Rightarrow> nat \<Rightarrow> bytes" where
  "safestrcpy_loop t 0 = []"
| "safestrcpy_loop t (Suc 0) = [0]"
| "safestrcpy_loop t (Suc (Suc n)) =
     (if at0 t = 0 then [0, 0] else at0 t # safestrcpy_loop (tl t) (Suc n))"

definition safestrcpy :: "bytes \<Rightarrow> bytes \<Rightarrow> int \<Rightarrow> bytes" where
  "safestrcpy s t n = (if n \<le> 0 then s else put_bytes 0 (safestrcpy_loop t (nat n)) s)"

fun strlen :: "bytes \<Rightarrow> nat" where
  "strlen [] = 0"
| "strlen (c # s) = (if c = 0 then 0 else Suc (strlen s))"

end
