(* ===== verification/Ulib.thy ===== *)
theory Ulib
  imports Cstring
begin

text \<open>
  The user library: \<^verbatim>\<open>src/user/ulib.c\<close>. Strings are byte lists as in \<^verbatim>\<open>Cstring\<close>: a pointer into a string is
  the list of the characters from there on, and reading at its end reads the terminating NUL. The functions that move
  raw memory act on a memory. System calls are parameters of the functions that use them: \<open>rd i n\<close> is what a \<^verbatim>\<open>read\<close>
  of at most \<open>n\<close> bytes returns when the file is in state \<open>i\<close>, with the state after it.
\<close>

section \<open>Strings\<close>

text \<open>\<^verbatim>\<open>while ((*s++ = *t++) != 0);\<close> The characters stored at \<^verbatim>\<open>s\<close>, the NUL included.\<close>

fun strcpy :: "bytes \<Rightarrow> bytes" where
  "strcpy [] = [0]"
| "strcpy (c # t) = (if c = 0 then [0] else c # strcpy t)"

function strcmp :: "bytes \<Rightarrow> bytes \<Rightarrow> int" where
  "strcmp p q = (if at0 p \<noteq> 0 \<and> at0 p = at0 q then strcmp (tl p) (tl q) else uint (at0 p) - uint (at0 q))"
  by pat_completeness auto
termination
  by (relation "measure (\<lambda>(p, q). length p)") (auto simp: at0_def split: list.splits)

declare strcmp.simps [simp del]

text \<open>\<^verbatim>\<open>strchr\<close> returns the rest of the string from the character on, or a null pointer.\<close>

fun strchr :: "bytes \<Rightarrow> uchar \<Rightarrow> bytes option" where
  "strchr [] c = None"
| "strchr (x # s) c = (if x = 0 then None else if x = c then Some (x # s) else strchr s c)"

definition is_digit :: "uchar \<Rightarrow> bool" where
  "is_digit c \<longleftrightarrow> 48 \<le> c \<and> c \<le> 57"

text \<open>\<^verbatim>\<open>n\<close> is an \<^verbatim>\<open>int\<close>: the arithmetic is that of 32-bit words.\<close>

fun atoi_loop :: "uint32 \<Rightarrow> bytes \<Rightarrow> uint32" where
  "atoi_loop n [] = n"
| "atoi_loop n (c # s) = (if is_digit c then atoi_loop (n * 10 + ucast c - 48) s else n)"

definition atoi :: "bytes \<Rightarrow> int" where
  "atoi s = sint (atoi_loop 0 s)"

text \<open>\<^verbatim>\<open>gets\<close> with room for \<open>k\<close> more characters: the characters stored before the final NUL.\<close>

primrec gets_loop :: "('i \<Rightarrow> nat \<Rightarrow> bytes \<times> 'i) \<Rightarrow> nat \<Rightarrow> 'i \<Rightarrow> bytes \<times> 'i" where
  "gets_loop rd 0 i = ([], i)"
| "gets_loop rd (Suc k) i =
     (let (bs, i') = rd i 1 in
      case bs of
        [] \<Rightarrow> ([], i')
      | c # _ \<Rightarrow>
          if c = 10 \<or> c = 13 then ([c], i')
          else let (cs, i'') = gets_loop rd k i' in (c # cs, i''))"

definition gets :: "('i \<Rightarrow> nat \<Rightarrow> bytes \<times> 'i) \<Rightarrow> nat \<Rightarrow> 'i \<Rightarrow> bytes \<times> 'i" where
  "gets rd mx i = gets_loop rd (mx - 1) i"

section \<open>Memory\<close>

definition umemset :: "uint64 \<Rightarrow> uchar \<Rightarrow> uint32 \<Rightarrow> (uint64 \<Rightarrow> uchar) \<Rightarrow> (uint64 \<Rightarrow> uchar)" where
  "umemset dst c n m = memset_loop (unat n) dst c 0 m"

text \<open>The user library copies forward when the source is above the destination and backward otherwise.\<close>

definition umemmove :: "uint64 \<Rightarrow> uint64 \<Rightarrow> int \<Rightarrow> (uint64 \<Rightarrow> uchar) \<Rightarrow> (uint64 \<Rightarrow> uchar)" where
  "umemmove vdst vsrc n m =
     (if vsrc > vdst then memmove_forward (nat n) vdst vsrc m
      else memmove_backward (nat n) (vdst + of_int n) (vsrc + of_int n) m)"

fun umemcmp :: "nat \<Rightarrow> uint64 \<Rightarrow> uint64 \<Rightarrow> (uint64 \<Rightarrow> uchar) \<Rightarrow> int" where
  "umemcmp 0 p1 p2 m = 0"
| "umemcmp (Suc n) p1 p2 m =
     (if m p1 \<noteq> m p2 then uint (m p1) - uint (m p2) else umemcmp n (p1 + 1) (p2 + 1) m)"

definition umemcpy :: "uint64 \<Rightarrow> uint64 \<Rightarrow> uint32 \<Rightarrow> (uint64 \<Rightarrow> uchar) \<Rightarrow> (uint64 \<Rightarrow> uchar)" where
  "umemcpy dst src n m = umemmove dst src (sint n) m"

section \<open>Reading\<close>

text \<open>What \<^verbatim>\<open>read\<close> promises: the bytes it returns are the next ones of the file, at most as many as asked for, and none
  only at the end of the file or when none were asked for. \<open>left i\<close> is the rest of the file.\<close>

definition reads :: "('i \<Rightarrow> nat \<Rightarrow> bytes \<times> 'i) \<Rightarrow> ('i \<Rightarrow> bytes) \<Rightarrow> bool" where
  "reads rd left \<longleftrightarrow>
     (\<forall>i n. left i = fst (rd i n) @ left (snd (rd i n)) \<and> length (fst (rd i n)) \<le> n \<and>
        (fst (rd i n) = [] \<longrightarrow> n = 0 \<or> left i = []))"

lemma readsD:
  assumes "reads rd left" and "rd i n = (bs, i')"
  shows "left i = bs @ left i'" and "length bs \<le> n" and "bs = [] \<Longrightarrow> n = 0 \<or> left i = []"
  using assms unfolding reads_def by (metis fst_conv snd_conv)+

text \<open>A file that is read in pieces: the list gives the sizes after which reads fall short.\<close>

definition piecewise :: "bytes \<times> nat list \<Rightarrow> nat \<Rightarrow> bytes \<times> (bytes \<times> nat list)" where
  "piecewise i n =
     (let (d, ks) = i; k = (case ks of [] \<Rightarrow> n | x # _ \<Rightarrow> min n (Suc x)) in (take k d, (drop k d, tl ks)))"

lemma piecewise_reads: "reads piecewise fst"
  by (auto simp: reads_def piecewise_def Let_def split: prod.splits list.splits)

section \<open>Lemmas\<close>

lemma strchr_Some:
  assumes "0 \<notin> set s" and "c \<noteq> 0"
  shows "strchr s c = (if c \<in> set s then Some (dropWhile (\<lambda>x. x \<noteq> c) s) else None)"
  using assms by (induction s) auto

lemma umemmove_store:
  assumes "unat src + nat n < 2 ^ 64" and "unat dst + nat n < 2 ^ 64" and "0 \<le> n"
  shows "umemmove dst src n m = store_bytes dst (load_bytes src (nat n) m) m"
proof
  fix x
  have n: "of_int n = (of_nat (nat n) :: uint64)" using assms(3) by simp
  have "umemmove dst src n m x = (if unat (x - dst) < nat n then m (src + (x - dst)) else m x)"
  proof (cases "src > dst")
    case True
    then have "nat n \<le> unat (dst - src)" using assms by (simp add: unat_sub_if' word_less_nat_alt)
    then show ?thesis using True memmove_forward_eq [of dst src "nat n" m x] by (simp add: umemmove_def)
  next
    case False
    have "dst = src \<or> nat n \<le> unat (src - dst)"
    proof (cases "src = dst")
      case n: False
      then have "src < dst" using False by simp
      then show ?thesis using assms by (auto simp: unat_sub_if' word_less_nat_alt)
    qed simp
    then show ?thesis
      using False memmove_backward_eq [of dst src "nat n" m x] assms unfolding umemmove_def n by simp
  qed
  then show "umemmove dst src n m x = store_bytes dst (load_bytes src (nat n) m) m x"
    by (simp add: store_bytes_def load_bytes_def)
qed

end
