(* ===== verification/Sh.thy ===== *)
theory Sh
  imports Ulib
begin

text \<open>
  The parser of the shell, \<^verbatim>\<open>src/user/sh.c\<close>. A pointer into the command line is an index into the buffer \<open>b\<close>; reading at
  its end reads the terminating NUL, and \<^verbatim>\<open>es\<close> is its length. A panic is an outcome. Nodes come from \<^verbatim>\<open>malloc\<close> and are never shared, so a command is
  a tree; the strings in it are pairs of indices until \<open>nulterminate\<close> has put NULs at their ends.
\<close>

section \<open>Commands\<close>

definition MAXARGS :: nat where [params]: "MAXARGS = 10"

text \<open>The strings of a command are of type \<open>'w\<close>: where a word begins and ends in the line, or its characters.\<close>

datatype (cmd_words: 'w) cmd =
    ExecCmd "'w list"
  | RedirCmd "'w cmd" 'w uint32 int
  | PipeCmd "'w cmd" "'w cmd"
  | ListCmd "'w cmd" "'w cmd"
  | BackCmd "'w cmd"

type_synonym span = "nat \<times> nat"

datatype 'a parse = Parsed 'a nat | Parse_panic string | Out_of_fuel

primrec pbind :: "'a parse \<Rightarrow> ('a \<Rightarrow> nat \<Rightarrow> 'b parse) \<Rightarrow> 'b parse" where
  "pbind (Parsed x s) f = f x s"
| "pbind (Parse_panic e) f = Parse_panic e"
| "pbind Out_of_fuel f = Out_of_fuel"

section \<open>Tokens\<close>

definition whitespace :: bytes where
  "whitespace = [32, 9, 13, 10, 11]"

definition symbols :: bytes where
  "symbols = [60, 124, 62, 38, 59, 40, 41]"

definition ch :: "bytes \<Rightarrow> nat \<Rightarrow> uchar" where
  "ch b i = (if i < length b then b ! i else 0)"

definition in_str :: "bytes \<Rightarrow> uchar \<Rightarrow> bool" where
  "in_str cs c \<longleftrightarrow> strchr cs c \<noteq> None"

function skipws :: "bytes \<Rightarrow> nat \<Rightarrow> nat" where
  "skipws b s = (if s < length b \<and> in_str whitespace (ch b s) then skipws b (Suc s) else s)"
  by pat_completeness auto
termination
  by (relation "measure (\<lambda>(b, s). length b - s)") auto

declare skipws.simps [simp del]

function skipword :: "bytes \<Rightarrow> nat \<Rightarrow> nat" where
  "skipword b s =
     (if s < length b \<and> \<not> in_str whitespace (ch b s) \<and> \<not> in_str symbols (ch b s) then skipword b (Suc s) else s)"
  by pat_completeness auto
termination
  by (relation "measure (\<lambda>(b, s). length b - s)") auto

declare skipword.simps [simp del]

text \<open>\<^verbatim>\<open>gettoken\<close> returns the token, where its text begins and ends, and where it leaves \<^verbatim>\<open>*ps\<close>. \<^verbatim>\<open>'a'\<close> is 97 and \<^verbatim>\<open>'+'\<close> 43.\<close>

definition gettoken :: "bytes \<Rightarrow> nat \<Rightarrow> uchar \<times> nat \<times> nat \<times> nat" where
  "gettoken b ps =
     (let s = skipws b ps; c = ch b s;
          (ret, eq) =
            (if c = 0 then (c, s)
             else if c \<in> {124, 40, 41, 59, 38, 60} then (c, s + 1)
             else if c = 62 then (if ch b (s + 1) = 62 then (43, s + 2) else (c, s + 1))
             else (97, skipword b s)) in
      (ret, s, eq, skipws b eq))"

definition peek :: "bytes \<Rightarrow> nat \<Rightarrow> bytes \<Rightarrow> nat \<times> bool" where
  "peek b ps toks = (let s = skipws b ps in (s, ch b s \<noteq> 0 \<and> in_str toks (ch b s)))"

text \<open>The abbreviated calls with null pointers for the text of the token.\<close>

definition skiptoken :: "bytes \<Rightarrow> nat \<Rightarrow> nat" where
  "skiptoken b s = (case gettoken b s of (_, _, _, s') \<Rightarrow> s')"

subsection \<open>Progress\<close>

lemma skipws_le: "s \<le> skipws b s"
  by (induction b s rule: skipws.induct) (metis Suc_leD eq_refl skipws.simps)

lemma skipword_le: "s \<le> skipword b s"
  by (induction b s rule: skipword.induct) (metis Suc_leD eq_refl skipword.simps)

lemma ch_end: "ch b s \<noteq> 0 \<Longrightarrow> s < length b"
  by (simp add: ch_def split: if_splits)

lemma in_str_set: "in_str cs c \<Longrightarrow> c \<in> set cs"
  unfolding in_str_def by (induction cs c rule: strchr.induct) (auto split: if_splits)

lemma skipws_again: "skipws b (skipws b s) = skipws b s"
  by (induction b s rule: skipws.induct) (metis skipws.simps)

lemma skipws_stop: "s = skipws b r \<Longrightarrow> s < length b \<Longrightarrow> \<not> in_str whitespace (ch b s)"
proof (induction b r rule: skipws.induct)
  case (1 b r)
  then show ?case using skipws.simps [of b r] by (cases "r < length b \<and> in_str whitespace (ch b r)") auto
qed

lemma gettoken_le:
  assumes "gettoken b s = (t, q, eq, s')"
  shows "s \<le> q" and "q \<le> eq" and "eq \<le> s'"
  using assms skipws_le [of s b] skipws_le [of eq b] skipword_le [of q b]
  by (auto simp: gettoken_def Let_def split: if_splits)

lemma peek_le: "peek b s toks = (s', p) \<Longrightarrow> s \<le> s'"
  using skipws_le [of s b] by (auto simp: peek_def Let_def)

text \<open>A symbol that \<^verbatim>\<open>peek\<close> has seen is consumed, and so is a word.\<close>

lemma peek_gettoken:
  assumes "peek b s toks = (s', True)" and "set toks \<subseteq> set symbols" and "gettoken b s' = (t, q, eq, s'')"
  shows "s < s''" and "s < length b"
proof -
  have c: "s' = skipws b s" "ch b s' \<noteq> 0" "in_str toks (ch b s')" using assms(1) by (auto simp: peek_def Let_def)
  then have "skipws b s' = s'" by (simp add: skipws_again)
  moreover have "ch b s' \<in> set symbols" using c(3) assms(2) in_str_set by blast
  ultimately have "s' < eq" using assms(3) c(2) by (auto simp: gettoken_def Let_def symbols_def split: if_splits)
  then show "s < s''" using gettoken_le [OF assms(3)] peek_le [OF assms(1)] by linarith
  show "s < length b" using ch_end [OF c(2)] peek_le [OF assms(1)] by linarith
qed

lemma peek_skiptoken:
  assumes "peek b s toks = (s', True)" and "set toks \<subseteq> set symbols"
  shows "s < skiptoken b s'" and "s < length b"
  using peek_gettoken [OF assms] by (cases "gettoken b s'"; auto simp: skiptoken_def)+

lemma symbols_iff: "in_str symbols c \<longleftrightarrow> c \<in> {60, 124, 62, 38, 59, 40, 41}"
  by (auto simp: in_str_def symbols_def)

lemma whitespace_iff: "in_str whitespace c \<longleftrightarrow> c \<in> {32, 9, 13, 10, 11}"
  by (auto simp: in_str_def whitespace_def)

lemma word_gettoken:
  assumes "gettoken b s = (97, q, eq, s')"
  shows "q = skipws b s" and "eq = skipword b q" and "s' = skipws b eq" and "q < eq" and "q < length b"
proof -
  have c: "q = skipws b s" "ch b q \<noteq> 0" "ch b q \<notin> {124, 40, 41, 59, 38, 60, 62}" "eq = skipword b q" "s' = skipws b eq"
    using assms by (auto simp: gettoken_def Let_def split: if_splits)
  show "q = skipws b s" "eq = skipword b q" "s' = skipws b eq" by (rule c)+
  show q: "q < length b" by (rule ch_end [OF c(2)])
  have "\<not> in_str whitespace (ch b q)" "\<not> in_str symbols (ch b q)" using skipws_stop [OF c(1) q] c(3) by (auto simp: symbols_iff)
  then have "eq = skipword b (Suc q)" using c(4) skipword.simps [of b q] q by simp
  then show "q < eq" using skipword_le [of "Suc q" b] by linarith
qed

section \<open>Parsing\<close>

definition redir_of :: "uchar \<times> 'w \<Rightarrow> 'w cmd \<Rightarrow> 'w cmd" where
  "redir_of r cmd =
     (case r of (tok, w) \<Rightarrow>
        if tok = 60 then RedirCmd cmd w O_RDONLY 0
        else if tok = 62 then RedirCmd cmd w (O_WRONLY OR O_CREATE OR O_TRUNC) 1
        else if tok = 43 then RedirCmd cmd w (O_WRONLY OR O_CREATE) 1
        else cmd)"

text \<open>\<^verbatim>\<open>parseredirs\<close> wraps its command; the redirections are returned in the order in which they wrap it, because the node
  of a simple command gets its arguments while it is wrapped.\<close>

function parseredirs :: "bytes \<Rightarrow> nat \<Rightarrow> (uchar \<times> span) list parse" where
  "parseredirs b s =
     (let (s1, p) = peek b s [60, 62] in
      if \<not> p then Parsed [] s1
      else
        let (tok, _, _, s2) = gettoken b s1; (tok2, q, eq, s3) = gettoken b s2 in
        if tok2 \<noteq> 97 then Parse_panic ''missing file for redirection''
        else pbind (parseredirs b s3) (\<lambda>rs s4. Parsed ((tok, q, eq) # rs) s4))"
  by pat_completeness auto
termination
proof (relation "measure (\<lambda>(b, s). length b - s)"; clarsimp)
  fix b s s1 tok q1 e1 s2 q eq s3
  assume "(s1, True) = peek b s [60, 62]" "(tok, q1, e1, s2) = gettoken b s1" "(97, q, eq, s3) = gettoken b s2"
  then show "length b - s3 < length b - s"
    using peek_gettoken [of b s "[60, 62]" s1 tok q1 e1 s2] gettoken_le [of b s2 97 q eq s3] by (auto simp: symbols_def)
qed

declare parseredirs.simps [simp del]

lemma parseredirs_le: "parseredirs b s = Parsed rs s' \<Longrightarrow> s \<le> s'"
proof (induction b s arbitrary: rs s' rule: parseredirs.induct)
  case (1 b s)
  obtain s1 p where p: "peek b s [60, 62] = (s1, p)" by fastforce
  obtain tok q1 e1 s2 where g1: "gettoken b s1 = (tok, q1, e1, s2)" by (cases "gettoken b s1") auto
  obtain tok2 q eq s3 where g2: "gettoken b s2 = (tok2, q, eq, s3)" by (cases "gettoken b s2") auto
  show ?case
  proof (cases p)
    case True
    then have t: "tok2 = 97" and "\<exists>rs0. parseredirs b s3 = Parsed rs0 s'"
      using "1.prems" p g1 g2 by (cases "parseredirs b s3"; auto simp: parseredirs.simps [of b s] split: if_splits)+
    then obtain rs0 where "parseredirs b s3 = Parsed rs0 s'" by blast
    then have "s3 \<le> s'" using "1.IH" p g1 g2 t True by auto
    then show ?thesis using peek_le [OF p] gettoken_le [OF g1] gettoken_le [OF g2] by linarith
  next
    case False
    then show ?thesis using "1.prems" p peek_le [OF p] by (simp add: parseredirs.simps [of b s])
  qed
qed

lemma parseredirs_fuel: "parseredirs b s \<noteq> Out_of_fuel"
proof (induction b s rule: parseredirs.induct)
  case (1 b s)
  obtain s1 p where p: "peek b s [60, 62] = (s1, p)" by fastforce
  obtain tok q1 e1 s2 where g1: "gettoken b s1 = (tok, q1, e1, s2)" by (cases "gettoken b s1") auto
  obtain tok2 q eq s3 where g2: "gettoken b s2 = (tok2, q, eq, s3)" by (cases "gettoken b s2") auto
  show ?case
  proof (cases "p \<and> tok2 = 97")
    case True
    then have "parseredirs b s3 \<noteq> Out_of_fuel" using "1.IH" p g1 g2 by auto
    then show ?thesis using True p g1 g2 by (cases "parseredirs b s3") (simp_all add: parseredirs.simps [of b s])
  next
    case False
    then show ?thesis using p g1 g2 by (auto simp: parseredirs.simps [of b s])
  qed
qed

text \<open>The loop of \<^verbatim>\<open>parseexec\<close> with \<open>argc\<close> arguments so far: the arguments and redirections that follow.\<close>

function parse_args :: "bytes \<Rightarrow> nat \<Rightarrow> nat \<Rightarrow> (span list \<times> (uchar \<times> span) list) parse" where
  "parse_args b argc s =
     (let (s1, p) = peek b s [124, 41, 38, 59] in
      if p then Parsed ([], []) s1
      else
        let (tok, q, eq, s2) = gettoken b s1 in
        if tok = 0 then Parsed ([], []) s2
        else if tok \<noteq> 97 then Parse_panic ''syntax''
        else if argc + 1 \<ge> MAXARGS then Parse_panic ''too many args''
        else
          (case parseredirs b s2 of
             Parsed rs s3 \<Rightarrow> pbind (parse_args b (argc + 1) s3) (\<lambda>(as, rs') s4. Parsed ((q, eq) # as, rs @ rs') s4)
           | Parse_panic e \<Rightarrow> Parse_panic e
           | Out_of_fuel \<Rightarrow> Out_of_fuel))"
  by pat_completeness auto
termination
  by (relation "measure (\<lambda>(b, argc, s). MAXARGS - argc)") auto

declare parse_args.simps [simp del]

lemma parse_args_step:
  assumes "peek b s [124, 41, 38, 59] = (s1, p)" and "gettoken b s1 = (tok, q, eq, s2)"
  shows "parse_args b argc s =
     (if p then Parsed ([], []) s1
      else if tok = 0 then Parsed ([], []) s2
      else if tok \<noteq> 97 then Parse_panic ''syntax''
      else if argc + 1 \<ge> MAXARGS then Parse_panic ''too many args''
      else pbind (parseredirs b s2) (\<lambda>rs s3. pbind (parse_args b (argc + 1) s3) (\<lambda>(as, rs') s4. Parsed ((q, eq) # as, rs @ rs') s4)))"
  using assms by (cases "parseredirs b s2") (simp_all add: parse_args.simps [of b argc s])

text \<open>\<^verbatim>\<open>while (peek(ps, es, "&"))\<close>: how many background marks follow.\<close>

function parse_backs :: "bytes \<Rightarrow> nat \<Rightarrow> nat \<times> nat" where
  "parse_backs b s =
     (let (s1, p) = peek b s [38] in
      if p then (let (k, s2) = parse_backs b (skiptoken b s1) in (Suc k, s2)) else (0, s1))"
  by pat_completeness auto
termination
proof (relation "measure (\<lambda>(b, s). length b - s)"; clarsimp)
  fix b s s1
  assume "(s1, True) = peek b s [38]"
  then show "length b - skiptoken b s1 < length b - s"
    using peek_skiptoken [of b s "[38]" s1] by (auto simp: symbols_def)
qed

declare parse_backs.simps [simp del]

fun parseline :: "nat \<Rightarrow> bytes \<Rightarrow> nat \<Rightarrow> span cmd parse"
  and parsepipe :: "nat \<Rightarrow> bytes \<Rightarrow> nat \<Rightarrow> span cmd parse"
  and parseexec :: "nat \<Rightarrow> bytes \<Rightarrow> nat \<Rightarrow> span cmd parse"
  and parseblock :: "nat \<Rightarrow> bytes \<Rightarrow> nat \<Rightarrow> span cmd parse" where
  "parseline 0 b s = Out_of_fuel"
| "parseline (Suc n) b s =
     pbind (parsepipe n b s) (\<lambda>cmd s1.
     let (k, s2) = parse_backs b s1; cmd = (BackCmd ^^ k) cmd; (s3, p) = peek b s2 [59] in
     if p then pbind (parseline n b (skiptoken b s3)) (\<lambda>r s4. Parsed (ListCmd cmd r) s4)
     else Parsed cmd s3)"
| "parsepipe 0 b s = Out_of_fuel"
| "parsepipe (Suc n) b s =
     pbind (parseexec n b s) (\<lambda>cmd s1.
     let (s2, p) = peek b s1 [124] in
     if p then pbind (parsepipe n b (skiptoken b s2)) (\<lambda>r s3. Parsed (PipeCmd cmd r) s3)
     else Parsed cmd s2)"
| "parseexec 0 b s = Out_of_fuel"
| "parseexec (Suc n) b s =
     (let (s1, p) = peek b s [40] in
      if p then parseblock n b s1
      else
        pbind (parseredirs b s1) (\<lambda>rs s2.
        pbind (parse_args b 0 s2) (\<lambda>(as, rs') s3.
        Parsed (fold redir_of (rs @ rs') (ExecCmd as)) s3)))"
| "parseblock 0 b s = Out_of_fuel"
| "parseblock (Suc n) b s =
     (let (s1, p) = peek b s [40] in
      if \<not> p then Parse_panic ''parseblock''
      else
        pbind (parseline n b (skiptoken b s1)) (\<lambda>cmd s2.
        let (s3, p) = peek b s2 [41] in
        if \<not> p then Parse_panic ''syntax - missing )''
        else
          pbind (parseredirs b (skiptoken b s3)) (\<lambda>rs s4.
          Parsed (fold redir_of rs cmd) s4)))"

text \<open>\<^verbatim>\<open>*eq = 0\<close>; at the end of the string there is a NUL already.\<close>

definition zero_at :: "nat \<Rightarrow> bytes \<Rightarrow> bytes" where
  "zero_at i b = (if i < length b then b[i := 0] else b)"

primrec nulterminate :: "span cmd \<Rightarrow> bytes \<Rightarrow> bytes" where
  "nulterminate (ExecCmd as) b = fold (\<lambda>(q, eq) b. zero_at eq b) as b"
| "nulterminate (RedirCmd c w mode fd) b = zero_at (snd w) (nulterminate c b)"
| "nulterminate (PipeCmd l r) b = nulterminate r (nulterminate l b)"
| "nulterminate (ListCmd l r) b = nulterminate r (nulterminate l b)"
| "nulterminate (BackCmd c) b = nulterminate c b"

text \<open>The depth of the recursion is at most four calls for each character.\<close>

definition parsecmd :: "bytes \<Rightarrow> (span cmd \<times> bytes) parse" where
  "parsecmd buf =
     (let b = take (strlen buf) buf in
      pbind (parseline (4 * length b + 4) b 0) (\<lambda>cmd s.
      let (s1, _) = peek b s [] in
      if s1 \<noteq> length b then Parse_panic ''syntax'' else Parsed (cmd, nulterminate cmd b) s1))"

section \<open>The parser returns\<close>

lemma pbind_Parsed: "pbind m f = Parsed y s' \<longleftrightarrow> (\<exists>x s. m = Parsed x s \<and> f x s = Parsed y s')"
  by (cases m) auto

lemma pbind_fuel: "pbind m f = Out_of_fuel \<longleftrightarrow> m = Out_of_fuel \<or> (\<exists>x s. m = Parsed x s \<and> f x s = Out_of_fuel)"
  by (cases m) auto

lemma parse_args_le: "parse_args b argc s = Parsed r s' \<Longrightarrow> s \<le> s'"
proof (induction b argc s arbitrary: r s' rule: parse_args.induct)
  case (1 b argc s)
  obtain s1 p where p: "peek b s [124, 41, 38, 59] = (s1, p)" by fastforce
  obtain tok q eq s2 where g: "gettoken b s1 = (tok, q, eq, s2)" by (cases "gettoken b s1") auto
  note le = peek_le [OF p] gettoken_le [OF g]
  show ?case
  proof (cases "p \<or> tok = 0")
    case True
    then show ?thesis using "1.prems" le by (auto simp: parse_args_step [OF p g] split: if_splits)
  next
    case False
    then obtain rs s3 x where r: "parseredirs b s2 = Parsed rs s3" "parse_args b (argc + 1) s3 = Parsed x s'"
      and t: "tok = 97" "\<not> argc + 1 \<ge> MAXARGS"
      using "1.prems" by (auto simp: parse_args_step [OF p g] pbind_Parsed split: if_splits)
    have "s3 \<le> s'" using "1.IH" p g r t False by auto
    then show ?thesis using le parseredirs_le [OF r(1)] by linarith
  qed
qed

lemma parse_args_fuel: "parse_args b argc s \<noteq> Out_of_fuel"
proof (induction b argc s rule: parse_args.induct)
  case (1 b argc s)
  obtain s1 p where p: "peek b s [124, 41, 38, 59] = (s1, p)" by fastforce
  obtain tok q eq s2 where g: "gettoken b s1 = (tok, q, eq, s2)" by (cases "gettoken b s1") auto
  show ?case
  proof
    assume "parse_args b argc s = Out_of_fuel"
    then obtain rs s3 where r: "parseredirs b s2 = Parsed rs s3" "parse_args b (argc + 1) s3 = Out_of_fuel"
      and t: "\<not> p" "tok = 97" "\<not> argc + 1 \<ge> MAXARGS"
      by (auto simp: parse_args_step [OF p g] pbind_fuel parseredirs_fuel split: if_splits)
    have "parse_args b (argc + 1) s3 \<noteq> Out_of_fuel" using "1.IH" p g r(1) t by auto
    then show False using r(2) by simp
  qed
qed

lemma parse_backs_le: "parse_backs b s = (k, s') \<Longrightarrow> s \<le> s'"
proof (induction b s arbitrary: k s' rule: parse_backs.induct)
  case (1 b s)
  obtain s1 p where p: "peek b s [38] = (s1, p)" by fastforce
  show ?case
  proof (cases p)
    case True
    obtain k0 s2 where r: "parse_backs b (skiptoken b s1) = (k0, s2)" by fastforce
    then have "skiptoken b s1 \<le> s2" using "1.IH" p True by auto
    moreover have "s < skiptoken b s1" using peek_skiptoken [of b s "[38]" s1] p True by (auto simp: symbols_def)
    ultimately show ?thesis using "1.prems" p r True by (auto simp: parse_backs.simps [of b s])
  next
    case False
    then show ?thesis using "1.prems" p peek_le [OF p] by (auto simp: parse_backs.simps [of b s])
  qed
qed

lemma skiptoken_le: "s \<le> skiptoken b s"
  using gettoken_le [of b s] by (cases "gettoken b s") (fastforce simp: skiptoken_def)

text \<open>What a successful call has done.\<close>

lemma parseline_Parsed:
  assumes "parseline (Suc n) b s = Parsed c s'"
  obtains c1 s1 k s2 s3 p where "parsepipe n b s = Parsed c1 s1" and "parse_backs b s1 = (k, s2)" and "peek b s2 [59] = (s3, p)"
    and "if p then \<exists>c2. parseline n b (skiptoken b s3) = Parsed c2 s' \<and> c = ListCmd ((BackCmd ^^ k) c1) c2
         else c = (BackCmd ^^ k) c1 \<and> s' = s3"
proof -
  obtain c1 s1 where r: "parsepipe n b s = Parsed c1 s1" using assms by (auto simp: pbind_Parsed)
  obtain k s2 where k: "parse_backs b s1 = (k, s2)" by fastforce
  obtain s3 p where p: "peek b s2 [59] = (s3, p)" by fastforce
  show thesis using that [OF r k p] assms r k p by (auto simp: Let_def pbind_Parsed split: if_splits)
qed

lemma parsepipe_Parsed:
  assumes "parsepipe (Suc n) b s = Parsed c s'"
  obtains c1 s1 s2 p where "parseexec n b s = Parsed c1 s1" and "peek b s1 [124] = (s2, p)"
    and "if p then \<exists>c2. parsepipe n b (skiptoken b s2) = Parsed c2 s' \<and> c = PipeCmd c1 c2 else c = c1 \<and> s' = s2"
proof -
  obtain c1 s1 where r: "parseexec n b s = Parsed c1 s1" using assms by (auto simp: pbind_Parsed)
  obtain s2 p where p: "peek b s1 [124] = (s2, p)" by fastforce
  show thesis using that [OF r p] assms r p by (auto simp: pbind_Parsed split: if_splits)
qed

lemma parseexec_Parsed:
  assumes "parseexec (Suc n) b s = Parsed c s'"
  obtains s1 p where "peek b s [40] = (s1, p)"
    and "if p then parseblock n b s1 = Parsed c s'
         else \<exists>rs s2 as rs'. parseredirs b s1 = Parsed rs s2 \<and> parse_args b 0 s2 = Parsed (as, rs') s' \<and>
                c = fold redir_of (rs @ rs') (ExecCmd as)"
proof -
  obtain s1 p where p: "peek b s [40] = (s1, p)" by fastforce
  show thesis using that [OF p] assms p by (auto simp: pbind_Parsed split: if_splits)
qed

lemma parseblock_Parsed:
  assumes "parseblock (Suc n) b s = Parsed c s'"
  obtains s1 c1 s2 s3 rs where "peek b s [40] = (s1, True)" and "parseline n b (skiptoken b s1) = Parsed c1 s2"
    and "peek b s2 [41] = (s3, True)" and "parseredirs b (skiptoken b s3) = Parsed rs s'" and "c = fold redir_of rs c1"
proof -
  obtain s1 p where p: "peek b s [40] = (s1, p)" by fastforce
  then have "p" using assms by (auto split: if_splits)
  moreover obtain c1 s2 where l: "parseline n b (skiptoken b s1) = Parsed c1 s2"
    using assms p \<open>p\<close> by (auto simp: pbind_Parsed)
  moreover obtain s3 p' where p': "peek b s2 [41] = (s3, p')" by fastforce
  moreover have "p'" using assms p \<open>p\<close> l p' by (auto split: if_splits)
  ultimately show thesis using that assms p by (auto simp: pbind_Parsed)
qed

text \<open>Every parsing function moves forward, whatever its fuel.\<close>

lemma parse_le:
  "(\<forall>c s'. parseline n b s = Parsed c s' \<longrightarrow> s \<le> s') \<and>
   (\<forall>c s'. parsepipe n b s = Parsed c s' \<longrightarrow> s \<le> s') \<and>
   (\<forall>c s'. parseexec n b s = Parsed c s' \<longrightarrow> s \<le> s') \<and>
   (\<forall>c s'. parseblock n b s = Parsed c s' \<longrightarrow> s \<le> s')"
proof (induction n arbitrary: s)
  case 0
  then show ?case by simp
next
  case (Suc n)
  have "s \<le> s'" if "parseline (Suc n) b s = Parsed c s'" for c s'
    using that
  proof (cases rule: parseline_Parsed)
    case (1 c1 s1 k s2 s3 p)
    have "s \<le> s3" using Suc [of s] 1(1) parse_backs_le [OF 1(2)] peek_le [OF 1(3)] by force
    then show ?thesis using 1(4) skiptoken_le [of s3 b] Suc [of "skiptoken b s3"] by (fastforce split: if_splits)
  qed
  moreover have "s \<le> s'" if "parsepipe (Suc n) b s = Parsed c s'" for c s'
    using that
  proof (cases rule: parsepipe_Parsed)
    case (1 c1 s1 s2 p)
    have "s \<le> s2" using Suc [of s] 1(1) peek_le [OF 1(2)] by force
    then show ?thesis using 1(3) skiptoken_le [of s2 b] Suc [of "skiptoken b s2"] by (fastforce split: if_splits)
  qed
  moreover have "s \<le> s'" if "parseexec (Suc n) b s = Parsed c s'" for c s'
    using that
  proof (cases rule: parseexec_Parsed)
    case (1 s1 p)
    then show ?thesis using peek_le [OF 1(1)] Suc [of s1] parseredirs_le parse_args_le
      by (auto split: if_splits) (meson le_trans)+
  qed
  moreover have "s \<le> s'" if "parseblock (Suc n) b s = Parsed c s'" for c s'
    using that
  proof (cases rule: parseblock_Parsed)
    case (1 s1 c1 s2 s3 rs)
    have "skiptoken b s1 \<le> s2" using Suc [of "skiptoken b s1"] 1(2) by blast
    then show ?thesis
      using peek_le [OF 1(1)] peek_le [OF 1(3)] skiptoken_le [of s1 b] skiptoken_le [of s3 b] parseredirs_le [OF 1(4)] by linarith
  qed
  ultimately show ?case by blast
qed

text \<open>A call runs out of fuel only in a call at the same position or, past a symbol, at a later one.\<close>

lemma parseline_fuel:
  assumes "parsepipe n b s \<noteq> Out_of_fuel" and "\<And>t. s < length b \<Longrightarrow> s < t \<Longrightarrow> parseline n b t \<noteq> Out_of_fuel"
  shows "parseline (Suc n) b s \<noteq> Out_of_fuel"
proof
  assume o: "parseline (Suc n) b s = Out_of_fuel"
  then obtain c1 s1 where r: "parsepipe n b s = Parsed c1 s1" using assms(1) by (auto simp: pbind_fuel)
  obtain k s2 where k: "parse_backs b s1 = (k, s2)" by fastforce
  obtain s3 p where p: "peek b s2 [59] = (s3, p)" by fastforce
  have t: "p" "parseline n b (skiptoken b s3) = Out_of_fuel" using o r k p by (auto simp: Let_def pbind_fuel split: if_splits)
  have "s \<le> s2" using parse_le [of n b s] r parse_backs_le [OF k] by force
  moreover have "s2 < skiptoken b s3" "s2 < length b" using peek_skiptoken [of b s2 "[59]" s3] p t by (auto simp: symbols_def)
  ultimately show False using assms(2) [of "skiptoken b s3"] t by linarith
qed

lemma parsepipe_fuel:
  assumes "parseexec n b s \<noteq> Out_of_fuel" and "\<And>t. s < length b \<Longrightarrow> s < t \<Longrightarrow> parsepipe n b t \<noteq> Out_of_fuel"
  shows "parsepipe (Suc n) b s \<noteq> Out_of_fuel"
proof
  assume o: "parsepipe (Suc n) b s = Out_of_fuel"
  then obtain c1 s1 where r: "parseexec n b s = Parsed c1 s1" using assms(1) by (auto simp: pbind_fuel)
  obtain s2 p where p: "peek b s1 [124] = (s2, p)" by fastforce
  have t: "p" "parsepipe n b (skiptoken b s2) = Out_of_fuel" using o r p by (auto simp: pbind_fuel split: if_splits)
  have "s \<le> s1" using parse_le [of n b s] r by force
  moreover have "s1 < skiptoken b s2" "s1 < length b" using peek_skiptoken [of b s1 "[124]" s2] p t by (auto simp: symbols_def)
  ultimately show False using assms(2) [of "skiptoken b s2"] t by linarith
qed

lemma parseexec_fuel:
  assumes "\<And>t. s \<le> t \<Longrightarrow> t < length b \<Longrightarrow> parseblock n b t \<noteq> Out_of_fuel"
  shows "parseexec (Suc n) b s \<noteq> Out_of_fuel"
proof -
  obtain s1 p where p: "peek b s [40] = (s1, p)" by fastforce
  have "s1 < length b" if p using p that ch_end by (auto simp: peek_def Let_def)
  then show ?thesis using p assms [of s1] peek_le [OF p] by (auto simp: pbind_fuel parseredirs_fuel parse_args_fuel)
qed

lemma parseblock_fuel:
  assumes "\<And>t. s < t \<Longrightarrow> parseline n b t \<noteq> Out_of_fuel"
  shows "parseblock (Suc n) b s \<noteq> Out_of_fuel"
proof -
  obtain s1 p where p: "peek b s [40] = (s1, p)" by fastforce
  have "s < skiptoken b s1" if p using peek_skiptoken [of b s "[40]" s1] p that by (auto simp: symbols_def)
  then show ?thesis using p assms [of "skiptoken b s1"] by (auto simp: pbind_fuel parseredirs_fuel split: prod.splits if_splits)
qed

lemma parse_fuel:
  "(4 * (length b - s) + 3 \<le> n \<longrightarrow> parseline n b s \<noteq> Out_of_fuel) \<and>
   (4 * (length b - s) + 2 \<le> n \<longrightarrow> parsepipe n b s \<noteq> Out_of_fuel) \<and>
   (4 * (length b - s) + 1 \<le> n \<longrightarrow> parseexec n b s \<noteq> Out_of_fuel) \<and>
   (s < length b \<longrightarrow> 4 * (length b - s) \<le> n \<longrightarrow> parseblock n b s \<noteq> Out_of_fuel)"
proof (induction n arbitrary: s)
  case 0
  then show ?case by simp
next
  case (Suc n)
  have "parseline (Suc n) b s \<noteq> Out_of_fuel" if f: "4 * (length b - s) + 3 \<le> Suc n"
  proof (rule parseline_fuel)
    show "parsepipe n b s \<noteq> Out_of_fuel" using Suc [of s] f by linarith
    show "parseline n b t \<noteq> Out_of_fuel" if "s < length b" "s < t" for t using Suc [of t] f that by linarith
  qed
  moreover have "parsepipe (Suc n) b s \<noteq> Out_of_fuel" if f: "4 * (length b - s) + 2 \<le> Suc n"
  proof (rule parsepipe_fuel)
    show "parseexec n b s \<noteq> Out_of_fuel" using Suc [of s] f by linarith
    show "parsepipe n b t \<noteq> Out_of_fuel" if "s < length b" "s < t" for t using Suc [of t] f that by linarith
  qed
  moreover have "parseexec (Suc n) b s \<noteq> Out_of_fuel" if f: "4 * (length b - s) + 1 \<le> Suc n"
  proof (rule parseexec_fuel)
    show "parseblock n b t \<noteq> Out_of_fuel" if "s \<le> t" "t < length b" for t using Suc [of t] f that by linarith
  qed
  moreover have "parseblock (Suc n) b s \<noteq> Out_of_fuel" if f: "s < length b" "4 * (length b - s) \<le> Suc n"
  proof (rule parseblock_fuel)
    show "parseline n b t \<noteq> Out_of_fuel" if "s < t" for t using Suc [of t] f that by linarith
  qed
  ultimately show ?case by blast
qed

text \<open>C25. The shell parses every command line to an end: it builds a command or panics with a syntax error, whatever the
  bytes typed, and the calls nest at most \<open>4 n + 4\<close> deep on a line of \<open>n\<close> characters.\<close>

theorem parsecmd_returns: "parsecmd buf \<noteq> Out_of_fuel"
proof -
  let ?b = "take (strlen buf) buf"
  have "parseline (4 * length ?b + 4) ?b 0 \<noteq> Out_of_fuel" using parse_fuel [of ?b 0 "4 * length ?b + 4"] by simp
  then show ?thesis unfolding parsecmd_def by (auto simp: Let_def pbind_fuel split: prod.splits)
qed

section \<open>The strings of a command\<close>

text \<open>The C string that begins at an index of the buffer.\<close>

definition cstr :: "bytes \<Rightarrow> nat \<Rightarrow> bytes" where
  "cstr b q = takeWhile (\<lambda>c. c \<noteq> 0) (drop q b)"

primrec cmd_argvs :: "'w cmd \<Rightarrow> 'w list set" where
  "cmd_argvs (ExecCmd as) = {as}"
| "cmd_argvs (RedirCmd c w mode fd) = cmd_argvs c"
| "cmd_argvs (PipeCmd l r) = cmd_argvs l \<union> cmd_argvs r"
| "cmd_argvs (ListCmd l r) = cmd_argvs l \<union> cmd_argvs r"
| "cmd_argvs (BackCmd c) = cmd_argvs c"

definition word_char :: "uchar \<Rightarrow> bool" where
  "word_char c \<longleftrightarrow> \<not> in_str whitespace c \<and> \<not> in_str symbols c"

definition word_span :: "bytes \<Rightarrow> span \<Rightarrow> bool" where
  "word_span b = (\<lambda>(q, eq). q < eq \<and> eq \<le> length b \<and> (\<forall>i \<in> {q..<eq}. word_char (b ! i)) \<and>
     (eq < length b \<longrightarrow> \<not> word_char (b ! eq)))"

lemma skipword_span:
  "s \<le> length b \<Longrightarrow>
     skipword b s \<le> length b \<and> (\<forall>i \<in> {s..<skipword b s}. word_char (b ! i)) \<and>
     (skipword b s < length b \<longrightarrow> \<not> word_char (b ! skipword b s))"
proof (induction b s rule: skipword.induct)
  case (1 b s)
  show ?case
  proof (cases "s < length b \<and> word_char (b ! s)")
    case True
    then have eq: "skipword b s = skipword b (Suc s)" using skipword.simps [of b s] by (simp add: word_char_def ch_def)
    have g: "s < length b \<and> \<not> in_str whitespace (ch b s) \<and> \<not> in_str symbols (ch b s)"
      using True by (simp add: word_char_def ch_def)
    have IH: "skipword b (Suc s) \<le> length b" "\<forall>i \<in> {Suc s..<skipword b (Suc s)}. word_char (b ! i)"
        "skipword b (Suc s) < length b \<longrightarrow> \<not> word_char (b ! skipword b (Suc s))"
      using "1.IH" [OF g] True Suc_leI by blast+
    have "word_char (b ! i)" if "i \<in> {s..<skipword b (Suc s)}" for i using IH(2) True that by (cases "i = s") auto
    then show ?thesis unfolding eq using IH by blast
  next
    case False
    then have "skipword b s = s" using skipword.simps [of b s] by (auto simp: word_char_def ch_def)
    then show ?thesis using "1.prems" False by auto
  qed
qed

lemma gettoken_span: "gettoken b s = (97, q, eq, s') \<Longrightarrow> word_span b (q, eq)"
  using word_gettoken [of b s q eq s'] skipword_span [of q b] by (simp add: word_span_def)

lemma parseredirs_spans: "parseredirs b s = Parsed rs s' \<Longrightarrow> \<forall>(t, q, eq) \<in> set rs. word_span b (q, eq)"
proof (induction b s arbitrary: rs s' rule: parseredirs.induct)
  case (1 b s)
  obtain s1 p where p: "peek b s [60, 62] = (s1, p)" by fastforce
  obtain tok q1 e1 s2 where g1: "gettoken b s1 = (tok, q1, e1, s2)" by (cases "gettoken b s1") auto
  obtain tok2 q eq s3 where g2: "gettoken b s2 = (tok2, q, eq, s3)" by (cases "gettoken b s2") auto
  show ?case
  proof (cases p)
    case True
    then obtain rs0 where r: "tok2 = 97" "parseredirs b s3 = Parsed rs0 s'" "rs = (tok, q, eq) # rs0"
      using "1.prems" p g1 g2 by (auto simp: parseredirs.simps [of b s] pbind_Parsed split: if_splits)
    then have "\<forall>(t, q, eq) \<in> set rs0. word_span b (q, eq)" using "1.IH" p g1 g2 True by auto
    then show ?thesis using r gettoken_span g2 by auto
  next
    case False
    then show ?thesis using "1.prems" p by (simp add: parseredirs.simps [of b s])
  qed
qed

lemma parse_args_spans:
  "parse_args b argc s = Parsed (as, rs) s' \<Longrightarrow>
     (\<forall>a \<in> set as. word_span b a) \<and> (\<forall>(t, q, eq) \<in> set rs. word_span b (q, eq)) \<and> argc + length as < max MAXARGS (Suc argc)"
proof (induction b argc s arbitrary: as rs s' rule: parse_args.induct)
  case (1 b argc s)
  obtain s1 p where p: "peek b s [124, 41, 38, 59] = (s1, p)" by fastforce
  obtain tok q eq s2 where g: "gettoken b s1 = (tok, q, eq, s2)" by (cases "gettoken b s1") auto
  show ?case
  proof (cases "p \<or> tok = 0")
    case True
    then show ?thesis using "1.prems" by (auto simp: parse_args_step [OF p g] split: if_splits)
  next
    case False
    then obtain rs1 s3 as0 rs0 where r: "parseredirs b s2 = Parsed rs1 s3" "parse_args b (argc + 1) s3 = Parsed (as0, rs0) s'"
      and t: "tok = 97" "\<not> argc + 1 \<ge> MAXARGS" "as = (q, eq) # as0" "rs = rs1 @ rs0"
      using "1.prems" by (auto simp: parse_args_step [OF p g] pbind_Parsed split: if_splits)
    have "(\<forall>a \<in> set as0. word_span b a) \<and> (\<forall>(t, q, eq) \<in> set rs0. word_span b (q, eq)) \<and>
        argc + 1 + length as0 < max MAXARGS (Suc (argc + 1))"
      using "1.IH" p g r t False by auto
    then show ?thesis using r t parseredirs_spans [OF r(1)] gettoken_span g by auto
  qed
qed

lemma cmd_words_redirs: "cmd_words (fold redir_of rs c) \<subseteq> cmd_words c \<union> snd ` set rs"
proof (induction rs arbitrary: c)
  case (Cons r rs)
  have "cmd_words (redir_of r c) \<subseteq> insert (snd r) (cmd_words c)" by (cases r) (auto simp: redir_of_def)
  then show ?case using Cons [of "redir_of r c"] by auto
qed simp

lemma cmd_words_backs: "cmd_words ((BackCmd ^^ k) c) = cmd_words c"
  by (induction k) simp_all

lemma cmd_argvs_redirs: "cmd_argvs (fold redir_of rs c) = cmd_argvs c"
  by (induction rs arbitrary: c) (auto simp: redir_of_def split: prod.splits)

lemma cmd_argvs_backs: "cmd_argvs ((BackCmd ^^ k) c) = cmd_argvs c"
  by (induction k) simp_all

definition cmd_ok :: "bytes \<Rightarrow> span cmd \<Rightarrow> bool" where
  "cmd_ok b c \<longleftrightarrow> (\<forall>w \<in> cmd_words c. word_span b w) \<and> (\<forall>as \<in> cmd_argvs c. length as < MAXARGS)"

lemma cmd_ok_simps:
  "cmd_ok b (PipeCmd l r) \<longleftrightarrow> cmd_ok b l \<and> cmd_ok b r"
  "cmd_ok b (ListCmd l r) \<longleftrightarrow> cmd_ok b l \<and> cmd_ok b r"
  "cmd_ok b ((BackCmd ^^ k) c) \<longleftrightarrow> cmd_ok b c"
  by (auto simp: cmd_ok_def cmd_words_backs cmd_argvs_backs)

lemma cmd_ok_redirs:
  "cmd_ok b c \<Longrightarrow> \<forall>(t, q, eq) \<in> set rs. word_span b (q, eq) \<Longrightarrow> cmd_ok b (fold redir_of rs c)"
  unfolding cmd_ok_def cmd_argvs_redirs using cmd_words_redirs [of rs c] by fastforce

lemma cmd_ok_exec: "parse_args b 0 s = Parsed (as, rs) s' \<Longrightarrow> cmd_ok b (ExecCmd as)"
  using parse_args_spans [of b 0 s as rs s'] by (simp add: cmd_ok_def MAXARGS_def)

lemma parse_ok:
  "(\<forall>c s'. parseline n b s = Parsed c s' \<longrightarrow> cmd_ok b c) \<and>
   (\<forall>c s'. parsepipe n b s = Parsed c s' \<longrightarrow> cmd_ok b c) \<and>
   (\<forall>c s'. parseexec n b s = Parsed c s' \<longrightarrow> cmd_ok b c) \<and>
   (\<forall>c s'. parseblock n b s = Parsed c s' \<longrightarrow> cmd_ok b c)"
proof (induction n arbitrary: s)
  case 0
  then show ?case by simp
next
  case (Suc n)
  have "cmd_ok b c" if "parseline (Suc n) b s = Parsed c s'" for c s'
    using that
  proof (cases rule: parseline_Parsed)
    case (1 c1 s1 k s2 s3 p)
    then show ?thesis using Suc [of s] Suc [of "skiptoken b s3"] by (auto simp: cmd_ok_simps split: if_splits)
  qed
  moreover have "cmd_ok b c" if "parsepipe (Suc n) b s = Parsed c s'" for c s'
    using that
  proof (cases rule: parsepipe_Parsed)
    case (1 c1 s1 s2 p)
    then show ?thesis using Suc [of s] Suc [of "skiptoken b s2"] by (auto simp: cmd_ok_simps split: if_splits)
  qed
  moreover have "cmd_ok b c" if "parseexec (Suc n) b s = Parsed c s'" for c s'
    using that
  proof (cases rule: parseexec_Parsed)
    case (1 s1 p)
    show ?thesis
    proof (cases p)
      case True
      then show ?thesis using 1 Suc [of s1] by auto
    next
      case False
      then obtain rs s2 as rs' where r: "parseredirs b s1 = Parsed rs s2" "parse_args b 0 s2 = Parsed (as, rs') s'"
        "c = fold redir_of (rs @ rs') (ExecCmd as)" using 1 by auto
      have "\<forall>(t, q, eq) \<in> set (rs @ rs'). word_span b (q, eq)"
        using parseredirs_spans [OF r(1)] parse_args_spans [OF r(2)] by auto
      then show ?thesis unfolding r(3) by (rule cmd_ok_redirs [OF cmd_ok_exec [OF r(2)]])
    qed
  qed
  moreover have "cmd_ok b c" if "parseblock (Suc n) b s = Parsed c s'" for c s'
    using that
  proof (cases rule: parseblock_Parsed)
    case (1 s1 c1 s2 s3 rs)
    have "cmd_ok b c1" using Suc [of "skiptoken b s1"] 1(2) by blast
    then show ?thesis unfolding 1(5) by (rule cmd_ok_redirs) (rule parseredirs_spans [OF 1(4)])
  qed
  ultimately show ?case by blast
qed

lemma zero_at_nth: "zero_at e b ! i = (if i = e \<and> i < length b then 0 else b ! i)"
  by (simp add: zero_at_def)

lemma zero_at_length [simp]: "length (zero_at e b) = length b"
  by (simp add: zero_at_def)

lemma fold_zero_at:
  "length (fold (\<lambda>(q, eq) b. zero_at eq b) as b) = length b \<and>
   (i < length b \<longrightarrow> fold (\<lambda>(q, eq) b. zero_at eq b) as b ! i = (if i \<in> snd ` set as then 0 else b ! i))"
  by (induction as arbitrary: b) (simp_all add: zero_at_nth case_prod_beta)

lemma nulterminate_length [simp]: "length (nulterminate c b) = length b"
  by (induction c arbitrary: b) (simp_all add: fold_zero_at)

lemma nulterminate_nth: "i < length b \<Longrightarrow> nulterminate c b ! i = (if i \<in> snd ` cmd_words c then 0 else b ! i)"
  by (induction c arbitrary: b) (auto simp: fold_zero_at zero_at_nth)

lemma nulterminate_cstr:
  assumes ok: "\<forall>w \<in> cmd_words c. word_span b w" and z: "0 \<notin> set b" and w: "(q, eq) \<in> cmd_words c"
  shows "cstr (nulterminate c b) q = take (eq - q) (drop q b)"
proof -
  have s: "q < eq" "eq \<le> length b" "\<forall>i \<in> {q..<eq}. word_char (b ! i)" using ok w by (auto simp: word_span_def)
  have nth: "nulterminate c b ! i = b ! i" "b ! i \<noteq> 0" if "i \<in> {q..<eq}" for i
  proof -
    have "i \<notin> snd ` cmd_words c" using ok s that by (fastforce simp: word_span_def)
    then show "nulterminate c b ! i = b ! i" using that s by (simp add: nulterminate_nth)
    show "b ! i \<noteq> 0" using z that s by (metis atLeastLessThan_iff less_le_trans nth_mem)
  qed
  have "cstr (nulterminate c b) q = take (eq - q) (drop q (nulterminate c b))"
    unfolding cstr_def
  proof (rule takeWhile_eq_take_P_nth)
    show "drop q (nulterminate c b) ! i \<noteq> 0" if "i < eq - q" "i < length (drop q (nulterminate c b))" for i
      using that nth [of "q + i"] by simp
    show "\<not> drop q (nulterminate c b) ! (eq - q) \<noteq> 0" if "eq - q < length (drop q (nulterminate c b))"
    proof -
      have "eq \<in> snd ` cmd_words c" using w by force
      then show ?thesis using that s nulterminate_nth [of eq b c] by simp
    qed
  qed
  also have "\<dots> = take (eq - q) (drop q b)" using s nth by (intro nth_equalityI) auto
  finally show ?thesis .
qed

lemma strlen_le: "strlen buf \<le> length buf"
  by (induction buf rule: strlen.induct) auto

lemma strlen_nonzero: "0 \<notin> set (take (strlen buf) buf)"
  by (induction buf rule: strlen.induct) auto

text \<open>C26. When \<^verbatim>\<open>parsecmd\<close> returns a command, every argument and file name of it is a C string in the buffer, and it is exactly the
  maximal run of word characters that the parser scanned: the NULs written for one word never cut into another, however
  closely words and symbols follow each other. No simple command has more than nine arguments, so that the null pointer after
  the last one stays inside \<^verbatim>\<open>argv[MAXARGS]\<close>.\<close>

theorem parsecmd_strings:
  assumes "parsecmd buf = Parsed (c, b') s"
  shows "(\<forall>(q, eq) \<in> cmd_words c. q < eq \<and> eq \<le> strlen buf \<and> cstr b' q = take (eq - q) (drop q buf) \<and>
            list_all word_char (cstr b' q) \<and> (eq < strlen buf \<longrightarrow> \<not> word_char (buf ! eq))) \<and>
         (\<forall>as \<in> cmd_argvs c. length as < MAXARGS)"
proof -
  let ?b = "take (strlen buf) buf"
  obtain s0 where p: "parseline (4 * length ?b + 4) ?b 0 = Parsed c s0" and b': "b' = nulterminate c ?b"
    using assms unfolding parsecmd_def by (auto simp: Let_def pbind_Parsed case_prod_beta split: if_splits)
  have ok: "cmd_ok ?b c" using parse_ok [of "4 * length ?b + 4" ?b 0] p by blast
  have "q < eq \<and> eq \<le> strlen buf \<and> cstr b' q = take (eq - q) (drop q buf) \<and>
            list_all word_char (cstr b' q) \<and> (eq < strlen buf \<longrightarrow> \<not> word_char (buf ! eq))" if w: "(q, eq) \<in> cmd_words c" for q eq
  proof -
    have s: "word_span ?b (q, eq)" using ok w by (auto simp: cmd_ok_def)
    have "cstr b' q = take (eq - q) (drop q ?b)"
      unfolding b' using ok strlen_nonzero w by (intro nulterminate_cstr) (auto simp: cmd_ok_def)
    then show ?thesis using s strlen_le [of buf] by (auto simp: word_span_def list_all_iff in_set_conv_nth drop_take)
  qed
  then show ?thesis using ok by (auto simp: cmd_ok_def)
qed

definition sample_line :: bytes where
  "sample_line = [101, 32, 97, 124, 119, 62, 102, 59, 40, 118, 41, 38, 10, 0, 7]"

lemma sample_parse:
  "parsecmd sample_line = Parsed
     (ListCmd (PipeCmd (ExecCmd [(0, 1), (2, 3)]) (RedirCmd (ExecCmd [(4, 5)]) (6, 7) (O_WRONLY OR O_CREATE OR O_TRUNC) 1))
        (BackCmd (ExecCmd [(9, 10)])),
      [101, 0, 97, 0, 119, 0, 102, 0, 40, 118, 0, 38, 10]) 13"
  by code_simp

theorem parsecmd_strings_witness:
  "parsecmd sample_line = Parsed
     (ListCmd (PipeCmd (ExecCmd [(0, 1), (2, 3)]) (RedirCmd (ExecCmd [(4, 5)]) (6, 7) (O_WRONLY OR O_CREATE OR O_TRUNC) 1))
        (BackCmd (ExecCmd [(9, 10)])),
      [101, 0, 97, 0, 119, 0, 102, 0, 40, 118, 0, 38, 10]) 13 \<and>
   cstr [101, 0, 97, 0, 119, 0, 102, 0, 40, 118, 0, 38, 10] 6 = take (7 - 6) (drop 6 sample_line)"
  using parsecmd_strings [OF sample_parse] sample_parse by simp

end
