(* ===== verification/Sh_Print.thy ===== *)
theory Sh_Print
  imports Sh
begin

text \<open>
  The language of the parser of \<^verbatim>\<open>src/user/sh.c\<close>: a printer of commands with the grammar's precedences, and that parsing a printed
  command gives the command back.
\<close>

section \<open>Printing\<close>

text \<open>Where the grammar has a command: 0 for \<^verbatim>\<open>parseexec\<close>, 1 for \<^verbatim>\<open>parsepipe\<close>, 2 before the \<^verbatim>\<open>;\<close> of \<^verbatim>\<open>parseline\<close> and 3 for \<^verbatim>\<open>parseline\<close>.\<close>

fun level :: "'w cmd \<Rightarrow> nat" where
  "level (PipeCmd l r) = 1"
| "level (BackCmd c) = 2"
| "level (ListCmd l r) = 3"
| "level c = 0"

definition print_word :: "bytes \<Rightarrow> bytes" where
  "print_word w = w @ [32]"

definition print_redir :: "uchar \<times> bytes \<Rightarrow> bytes" where
  "print_redir = (\<lambda>(tok, w). (if tok = 43 then [62, 62] else [tok]) @ 32 # print_word w)"

definition redir_tok :: "uint32 \<Rightarrow> int \<Rightarrow> uchar" where
  "redir_tok mode fd = (if fd = 0 then 60 else if mode = O_WRONLY OR O_CREATE then 43 else 62)"

definition paren :: "nat \<Rightarrow> nat \<Rightarrow> bytes \<Rightarrow> bytes" where
  "paren n m s = (if m \<le> n then s else 40 # s @ [41])"

primrec print_cmd :: "bytes cmd \<Rightarrow> nat \<Rightarrow> bytes" where
  "print_cmd (ExecCmd ws) n = concat (map print_word ws)"
| "print_cmd (RedirCmd c w mode fd) n = print_cmd c 0 @ print_redir (redir_tok mode fd, w)"
| "print_cmd (PipeCmd l r) n = paren n 1 (print_cmd l 0 @ 124 # print_cmd r 1)"
| "print_cmd (BackCmd c) n = paren n 2 (print_cmd c 2 @ [38])"
| "print_cmd (ListCmd l r) n = paren n 3 (print_cmd l 2 @ 59 # print_cmd r 3)"

definition is_word :: "bytes \<Rightarrow> bool" where
  "is_word w \<longleftrightarrow> w \<noteq> [] \<and> list_all (\<lambda>c. c \<noteq> 0 \<and> word_char c) w"

primrec redirs_ok :: "'w cmd \<Rightarrow> bool" where
  "redirs_ok (ExecCmd ws) \<longleftrightarrow> True"
| "redirs_ok (RedirCmd c w mode fd) \<longleftrightarrow> redirs_ok c \<and>
     (mode, fd) \<in> {(O_RDONLY, 0), (O_WRONLY OR O_CREATE OR O_TRUNC, 1), (O_WRONLY OR O_CREATE, 1)}"
| "redirs_ok (PipeCmd l r) \<longleftrightarrow> redirs_ok l \<and> redirs_ok r"
| "redirs_ok (ListCmd l r) \<longleftrightarrow> redirs_ok l \<and> redirs_ok r"
| "redirs_ok (BackCmd c) \<longleftrightarrow> redirs_ok c"

definition printable :: "bytes cmd \<Rightarrow> bool" where
  "printable c \<longleftrightarrow> (\<forall>w \<in> cmd_words c. is_word w) \<and> (\<forall>as \<in> cmd_argvs c. length as < MAXARGS) \<and> redirs_ok c"

lemma printable_simps [simp]:
  "printable (ExecCmd ws) \<longleftrightarrow> list_all is_word ws \<and> length ws < MAXARGS"
  "printable (PipeCmd l r) \<longleftrightarrow> printable l \<and> printable r"
  "printable (ListCmd l r) \<longleftrightarrow> printable l \<and> printable r"
  "printable (BackCmd c) \<longleftrightarrow> printable c"
  by (auto simp: printable_def list_all_iff)

section \<open>Scanning printed text\<close>

text \<open>The unread input.\<close>

definition at :: "bytes \<Rightarrow> nat \<Rightarrow> bytes \<Rightarrow> bool" where
  "at b s xs \<longleftrightarrow> s \<le> length b \<and> drop s b = xs"

definition tight :: "bytes \<Rightarrow> bool" where
  "tight xs \<longleftrightarrow> xs = [] \<or> \<not> in_str whitespace (hd xs)"

definition followed :: "uchar set \<Rightarrow> bytes \<Rightarrow> bool" where
  "followed cs xs \<longleftrightarrow> xs = [] \<or> hd xs \<in> cs"

lemma at_ch: "at b s xs \<Longrightarrow> ch b s = (if xs = [] then 0 else hd xs)"
  by (auto simp: at_def ch_def hd_drop_conv_nth)

lemma at_Cons: "at b s (x # xs) \<Longrightarrow> at b (Suc s) xs"
  by (simp add: at_def) (metis Suc_leI drop_Suc drop_eq_Nil le_eq_less_or_eq list.discI list.sel(3) tl_drop)

lemma at_append: "at b s (xs @ ys) \<Longrightarrow> at b (s + length xs) ys"
proof (induction xs arbitrary: s)
  case (Cons x xs)
  then show ?case using at_Cons [of b s x "xs @ ys"] Cons.IH [of "Suc s"] by simp
qed simp

lemma at_less: "at b s (x # xs) \<Longrightarrow> s < length b"
  by (auto simp: at_def le_less)

lemma skipws_tight: "at b s xs \<Longrightarrow> tight xs \<Longrightarrow> skipws b s = s"
  by (cases xs) (auto simp: skipws.simps [of b s] at_ch tight_def dest: at_ch, simp add: at_def)

lemma skipws_space: "at b s (32 # xs) \<Longrightarrow> tight xs \<Longrightarrow> skipws b s = Suc s"
  using skipws_tight [OF at_Cons, of b s 32 xs] at_less [of b s 32 xs] at_ch [of b s "32 # xs"]
  by (simp add: skipws.simps [of b s] whitespace_iff)

lemma peek_tight: "at b s xs \<Longrightarrow> tight xs \<Longrightarrow> peek b s toks = (s, xs \<noteq> [] \<and> hd xs \<noteq> 0 \<and> in_str toks (hd xs))"
  by (auto simp: peek_def skipws_tight at_ch)

lemma peek_symbol: "at b s (x # xs) \<Longrightarrow> x \<in> {124, 40, 41, 59, 38} \<Longrightarrow> peek b s toks = (s, in_str toks x)"
  using peek_tight [of b s "x # xs" toks] by (auto simp: tight_def whitespace_iff)

lemma skiptoken_symbol:
  assumes "at b s (x # xs)" and "x \<in> {124, 40, 41, 59, 38}" and "tight xs"
  shows "skiptoken b s = Suc s"
proof -
  have "skipws b s = s" by (rule skipws_tight [OF assms(1)]) (use assms(2) in \<open>auto simp: tight_def whitespace_iff\<close>)
  moreover have "skipws b (Suc s) = Suc s" using skipws_tight [OF at_Cons [OF assms(1)] assms(3)] .
  ultimately show ?thesis using assms at_ch [OF assms(1)] by (auto simp: skiptoken_def gettoken_def Let_def)
qed

lemma skipword_word:
  "at b s (w @ 32 # xs) \<Longrightarrow> list_all word_char w \<Longrightarrow> skipword b s = s + length w"
proof (induction w arbitrary: s)
  case Nil
  then show ?case using at_ch [of b s "32 # xs"] by (simp add: skipword.simps [of b s] whitespace_iff)
next
  case (Cons c w)
  then have "skipword b (Suc s) = Suc s + length w" using at_Cons by simp
  moreover have "ch b s = c" "s < length b" using Cons.prems at_ch at_less by fastforce+
  ultimately show ?case using Cons.prems by (simp add: skipword.simps [of b s] word_char_def)
qed

lemma word_tight: "is_word w \<Longrightarrow> tight (w @ xs)"
  by (cases w) (auto simp: is_word_def tight_def word_char_def)

lemma gettoken_word:
  assumes "at b s (print_word w @ xs)" and "is_word w" and "tight xs"
  shows "gettoken b s = (97, s, s + length w, s + length w + 1)" and "at b (s + length w + 1) xs"
    and "take (length w) (drop s b) = w"
proof -
  have a: "at b s (w @ 32 # xs)" using assms(1) by (simp add: print_word_def)
  have "skipws b s = s" using skipws_tight [OF a] word_tight assms(2) by simp
  moreover have "skipword b s = s + length w" using skipword_word [OF a] assms(2) by (simp add: is_word_def list_all_iff)
  moreover have "skipws b (s + length w) = s + length w + 1" using skipws_space [OF at_append [OF a] assms(3)] by simp
  moreover have "ch b s = hd w" using at_ch [OF a] assms(2) by (simp add: is_word_def)
  moreover have "hd w \<noteq> 0" "word_char (hd w)" using assms(2) by (cases w; simp add: is_word_def)+
  ultimately show "gettoken b s = (97, s, s + length w, s + length w + 1)"
    by (auto simp: gettoken_def Let_def word_char_def symbols_iff)
  show "at b (s + length w + 1) xs" using at_Cons [OF at_append [OF a]] by simp
  show "take (length w) (drop s b) = w" using a by (simp add: at_def)
qed

lemma gettoken_redir:
  assumes "at b s (print_redir (tok, w) @ xs)" and "tok \<in> {60, 62, 43}" and "is_word w"
  obtains s2 q eq where "gettoken b s = (tok, q, eq, s2)" and "at b s2 (print_word w @ xs)"
proof -
  have t: "tight (print_word w @ xs)" using word_tight [OF assms(3)] by (simp add: print_word_def)
  show thesis
  proof (cases "tok = 43")
    case True
    then have a: "at b s (62 # 62 # 32 # print_word w @ xs)" using assms(1) by (simp add: print_redir_def)
    then have s: "skipws b s = s" by (intro skipws_tight) (auto simp: tight_def whitespace_iff)
    note a1 = at_Cons [OF a] and a2 = at_Cons [OF at_Cons [OF a]]
    show thesis
    proof (rule that)
      show "gettoken b s = (tok, s, s + 2, Suc (Suc (Suc s)))"
        using s at_ch [OF a] at_ch [OF a1] skipws_space [OF a2 t] True by (simp add: gettoken_def Let_def)
      show "at b (Suc (Suc (Suc s))) (print_word w @ xs)" by (rule at_Cons [OF a2])
    qed
  next
    case False
    then have a: "at b s (tok # 32 # print_word w @ xs)" using assms(1) by (simp add: print_redir_def)
    then have s: "skipws b s = s" using assms(2) by (intro skipws_tight) (auto simp: tight_def whitespace_iff)
    note a1 = at_Cons [OF a]
    show thesis
    proof (rule that)
      show "gettoken b s = (tok, s, s + 1, Suc (Suc s))"
        using s at_ch [OF a] at_ch [OF a1] skipws_space [OF a1 t] assms(2) False by (auto simp: gettoken_def Let_def)
      show "at b (Suc (Suc s)) (print_word w @ xs)" by (rule at_Cons [OF a1])
    qed
  qed
qed

section \<open>Parsing printed text\<close>

definition word_at :: "bytes \<Rightarrow> span \<Rightarrow> bytes" where
  "word_at b = (\<lambda>(q, eq). take (eq - q) (drop q b))"

definition redir_at :: "bytes \<Rightarrow> uchar \<times> span \<Rightarrow> uchar \<times> bytes" where
  "redir_at b = (\<lambda>(t, w). (t, word_at b w))"

lemma tight_Cons [simp]: "tight (x # xs) \<longleftrightarrow> x \<notin> {32, 9, 13, 10, 11}"
  by (auto simp: tight_def whitespace_iff)

lemma followed_tight: "followed {41, 38, 59, 124} xs \<Longrightarrow> tight xs"
  by (auto simp: followed_def tight_def whitespace_iff)

lemma followed_mono: "followed cs xs \<Longrightarrow> cs \<subseteq> ds \<Longrightarrow> followed ds xs"
  by (auto simp: followed_def)

lemma redirs_tight: "list_all (\<lambda>(t, w). t \<in> {60, 62, 43}) rs \<Longrightarrow> tight xs \<Longrightarrow> tight (concat (map print_redir rs) @ xs)"
  by (cases rs) (auto simp: tight_def print_redir_def whitespace_iff)

lemma args_tight: "list_all is_word ws \<Longrightarrow> tight xs \<Longrightarrow> tight (concat (map print_word ws) @ xs)"
  by (cases ws) (auto simp: print_word_def intro: word_tight)

definition redir_list_ok :: "(uchar \<times> bytes) list \<Rightarrow> bool" where
  "redir_list_ok rs \<longleftrightarrow> list_all (\<lambda>(t, w). t \<in> {60, 62, 43} \<and> is_word w) rs"

lemma parseredirs_print:
  "at b s (concat (map print_redir rs) @ xs) \<Longrightarrow> redir_list_ok rs \<Longrightarrow> tight xs \<Longrightarrow>
   xs = [] \<or> hd xs \<notin> {60, 62} \<Longrightarrow>
     \<exists>rs' s'. parseredirs b s = Parsed rs' s' \<and> at b s' xs \<and> map (redir_at b) rs' = rs"
proof (induction rs arbitrary: s)
  case Nil
  then have "peek b s [60, 62] = (s, False)" by (auto simp: peek_tight in_str_def)
  then show ?case using Nil by (simp add: parseredirs.simps [of b s])
next
  case (Cons r rs)
  obtain tok w where r: "r = (tok, w)" "tok \<in> {60, 62, 43}" "is_word w" "redir_list_ok rs"
    using Cons.prems(2) by (cases r) (auto simp: redir_list_ok_def)
  let ?xs = "concat (map print_redir rs) @ xs"
  have t: "tight ?xs" using r(4) Cons.prems(3) by (intro redirs_tight) (auto simp: redir_list_ok_def list_all_iff)
  have a: "at b s (print_redir (tok, w) @ ?xs)" using Cons.prems(1) r(1) by simp
  obtain s2 q1 e1 where g: "gettoken b s = (tok, q1, e1, s2)" "at b s2 (print_word w @ ?xs)"
    using gettoken_redir [OF a r(2,3)] .
  note w = gettoken_word [OF g(2) r(3) t]
  obtain rs' s' where IH: "parseredirs b (s2 + length w + 1) = Parsed rs' s'" "at b s' xs" "map (redir_at b) rs' = rs"
    using Cons.IH [OF w(2) r(4) Cons.prems(3,4)] by blast
  have "tight (print_redir (tok, w) @ ?xs)" using r(2) by (auto simp: tight_def print_redir_def whitespace_iff)
  then have "peek b s [60, 62] = (s, True)"
    using peek_tight [OF a, of "[60, 62]"] r(2) by (auto simp: print_redir_def in_str_def)
  then have "parseredirs b s = Parsed ((tok, s2, s2 + length w) # rs') s'"
    using g(1) w(1) IH(1) by (simp add: parseredirs.simps [of b s])
  then show ?case using IH w(3) r(1) by (simp add: word_at_def redir_at_def)
qed

lemma word_start: "is_word w \<Longrightarrow> hd (w @ xs) \<notin> set symbols \<and> tight (w @ xs)"
proof -
  assume w: "is_word w"
  then have "word_char (hd w)" "w \<noteq> []" by (cases w; simp add: is_word_def)+
  moreover have "c \<notin> set symbols" if "word_char c" for c using that by (auto simp: word_char_def symbols_iff) (simp add: symbols_def)
  ultimately show ?thesis using word_tight [OF w] by simp
qed

lemma peek_word:
  assumes "at b s (print_word w @ xs)" and "is_word w" and "set toks \<subseteq> set symbols"
  shows "peek b s toks = (s, False)"
proof -
  have "hd (print_word w @ xs) \<notin> set toks" "tight (print_word w @ xs)"
    using word_start [OF assms(2), of "32 # xs"] assms(3) by (auto simp: print_word_def)
  then show ?thesis using peek_tight [OF assms(1), of toks] in_str_set by auto
qed

lemma args_start:
  "list_all is_word ws \<Longrightarrow> ws \<noteq> [] \<Longrightarrow> tight (concat (map print_word ws) @ xs) \<and> hd (concat (map print_word ws) @ xs) \<notin> set symbols"
  using word_start by (cases ws) (simp_all add: print_word_def)

lemma peek_redirs:
  assumes "at b s (concat (map print_redir rs) @ xs)" and "redir_list_ok rs" and "tight xs" and "xs = [] \<or> hd xs \<noteq> 40"
  shows "peek b s [40] = (s, False)"
proof -
  let ?ys = "concat (map print_redir rs) @ xs"
  have "?ys = [] \<or> hd ?ys \<noteq> 40" using assms(2,4) by (cases rs) (auto simp: redir_list_ok_def print_redir_def)
  moreover have "tight ?ys" using assms(2,3) by (intro redirs_tight) (auto simp: redir_list_ok_def list_all_iff)
  ultimately show ?thesis using peek_tight [OF assms(1), of "[40]"] by (auto simp: in_str_def)
qed

lemma parse_args_print:
  "at b s (concat (map print_word ws) @ concat (map print_redir rs) @ xs) \<Longrightarrow> list_all is_word ws \<Longrightarrow>
   redir_list_ok rs \<Longrightarrow> followed {41, 38, 59, 124} xs \<Longrightarrow> argc + length ws < MAXARGS \<Longrightarrow> ws = [] \<longrightarrow> rs = [] \<Longrightarrow>
     \<exists>as rs' s'. parse_args b argc s = Parsed (as, rs') s' \<and> at b s' xs \<and> map (word_at b) as = ws \<and>
       map (redir_at b) rs' = rs"
proof (induction ws arbitrary: s argc rs)
  case Nil
  then have a: "at b s xs" "rs = []" by simp_all
  have p: "peek b s [124, 41, 38, 59] = (s, xs \<noteq> [])"
    using peek_tight [OF a(1) followed_tight [OF Nil.prems(4)]] Nil.prems(4) by (auto simp: followed_def in_str_def)
  obtain tok q eq s2 where g: "gettoken b s = (tok, q, eq, s2)" by (cases "gettoken b s") auto
  have "tok = 0 \<and> s2 = s" if "xs = []"
    using that a(1) g skipws_tight [OF a(1)] at_ch [OF a(1)] by (auto simp: gettoken_def tight_def Let_def)
  then show ?case using a by (auto simp: parse_args_step [OF p g])
next
  case (Cons w ws)
  let ?xs = "concat (map print_word ws) @ concat (map print_redir rs) @ xs"
  have w: "is_word w" "list_all is_word ws" using Cons.prems(2) by simp_all
  have tr: "tight (concat (map print_redir rs) @ xs)"
    using Cons.prems(3) followed_tight [OF Cons.prems(4)] by (intro redirs_tight) (auto simp: redir_list_ok_def list_all_iff)
  have a: "at b s (print_word w @ ?xs)" using Cons.prems(1) by simp
  note g = gettoken_word [OF a w(1) args_tight [OF w(2) tr]]
  have p: "peek b s [124, 41, 38, 59] = (s, False)" using peek_word [OF a w(1)] by (simp add: symbols_def)
  define rs1 where "rs1 = (if ws = [] then rs else [])"
  define rs2 where "rs2 = (if ws = [] then [] else rs)"
  let ?ys = "concat (map print_word ws) @ concat (map print_redir rs2) @ xs"
  have y: "tight ?ys \<and> (?ys = [] \<or> hd ?ys \<notin> {60, 62})"
  proof (cases "ws = []")
    case True
    then show ?thesis using followed_tight [OF Cons.prems(4)] Cons.prems(4) by (auto simp: rs2_def followed_def)
  next
    case False
    then show ?thesis using args_start [OF w(2)] by (simp add: symbols_def)
  qed
  have r1: "redir_list_ok rs1" "redir_list_ok rs2" using Cons.prems(3) by (simp_all add: redir_list_ok_def rs1_def rs2_def)
  have "at b (s + length w + 1) (concat (map print_redir rs1) @ ?ys)" using g(2) by (cases "ws = []") (simp_all add: rs1_def rs2_def)
  then obtain rs1' s3 where r: "parseredirs b (s + length w + 1) = Parsed rs1' s3" "at b s3 ?ys" "map (redir_at b) rs1' = rs1"
    using parseredirs_print [of b "s + length w + 1" rs1 ?ys] y r1 by blast
  obtain as rs2' s' where IH: "parse_args b (argc + 1) s3 = Parsed (as, rs2') s'" "at b s' xs" "map (word_at b) as = ws"
       "map (redir_at b) rs2' = rs2"
    using Cons.IH [OF r(2) w(2) r1(2) Cons.prems(4), of "argc + 1"] Cons.prems(5) by (auto simp: rs2_def)
  then show ?case
    using r(1,3) Cons.prems(5) g(3) by (simp add: parse_args_step [OF p g(1)] word_at_def rs1_def rs2_def)
qed

lemma parse_backs_print:
  "at b s (replicate k 38 @ xs) \<Longrightarrow> followed {41, 59} xs \<Longrightarrow> \<exists>s'. parse_backs b s = (k, s') \<and> at b s' xs"
proof (induction k arbitrary: s)
  case 0
  have "tight xs" using 0 followed_tight [OF followed_mono] by blast
  then have "peek b s [38] = (s, False)" using 0 peek_tight [of b s xs "[38]"] by (auto simp: followed_def in_str_def)
  then show ?case using 0 by (simp add: parse_backs.simps [of b s])
next
  case (Suc k)
  let ?ys = "replicate k 38 @ xs"
  have t: "tight ?ys" using followed_tight [OF followed_mono [OF Suc.prems(2)]] by (cases k) (auto simp: tight_def whitespace_iff)
  have a: "at b s (38 # ?ys)" using Suc.prems(1) by simp
  have "peek b s [38] = (s, True)" using peek_symbol [OF a, of "[38]"] by (simp add: in_str_def)
  moreover have "skiptoken b s = Suc s" using skiptoken_symbol [OF a _ t] by simp
  moreover obtain s' where "parse_backs b (Suc s) = (k, s')" "at b s' xs" using Suc.IH [OF at_Cons [OF a] Suc.prems(2)] by blast
  ultimately show ?case by (simp add: parse_backs.simps [of b s])
qed

subsection \<open>The shapes of printed commands\<close>

lemma redir_shape:
  assumes "printable (RedirCmd c w mode fd)"
  shows "RedirCmd c w mode fd = redir_of (redir_tok mode fd, w) c" and "redir_tok mode fd \<in> {60, 62, 43}"
    and "is_word w" and "printable c"
  using assms by (auto simp: printable_def redir_of_def redir_tok_def params)

lemma print_exec:
  assumes "printable c"
  obtains ws rs where "c = fold redir_of rs (ExecCmd ws)" and "print_cmd c 0 = concat (map print_word ws) @ concat (map print_redir rs)"
      and "list_all is_word ws" and "length ws < MAXARGS" and "redir_list_ok rs"
  | c0 rs where "c = fold redir_of rs c0" and "print_cmd c 0 = 40 # print_cmd c0 3 @ 41 # concat (map print_redir rs)"
      and "printable c0" and "redir_list_ok rs"
  using assms
proof (induction c arbitrary: thesis)
  case (ExecCmd ws)
  show ?case by (rule ExecCmd.prems(1) [of "[]" ws]) (use ExecCmd.prems in \<open>simp_all add: redir_list_ok_def\<close>)
next
  case (RedirCmd c w mode fd)
  note sh = redir_shape [OF RedirCmd.prems(3)]
  show ?case
  proof (rule RedirCmd.IH [OF _ _ sh(4)])
    fix ws rs
    assume "c = fold redir_of rs (ExecCmd ws)" "print_cmd c 0 = concat (map print_word ws) @ concat (map print_redir rs)"
      "list_all is_word ws" "length ws < MAXARGS" "redir_list_ok rs"
    then show ?case by (intro RedirCmd.prems(1) [of "rs @ [(redir_tok mode fd, w)]" ws]) (use sh(1) [symmetric] sh(2,3) in \<open>simp_all add: redir_list_ok_def\<close>)
  next
    fix c0 rs
    assume "c = fold redir_of rs c0" "print_cmd c 0 = 40 # print_cmd c0 3 @ 41 # concat (map print_redir rs)" "printable c0" "redir_list_ok rs"
    then show ?case by (intro RedirCmd.prems(2) [of "rs @ [(redir_tok mode fd, w)]" c0]) (use sh(1) [symmetric] sh(2,3) in \<open>simp_all add: redir_list_ok_def\<close>)
  qed
next
  case (PipeCmd l r)
  show ?case by (rule PipeCmd.prems(2) [of "[]" "PipeCmd l r"]) (use PipeCmd.prems in \<open>simp_all add: paren_def redir_list_ok_def\<close>)
next
  case (ListCmd l r)
  show ?case by (rule ListCmd.prems(2) [of "[]" "ListCmd l r"]) (use ListCmd.prems in \<open>simp_all add: paren_def redir_list_ok_def\<close>)
next
  case (BackCmd c)
  show ?case by (rule BackCmd.prems(2) [of "[]" "BackCmd c"]) (use BackCmd.prems in \<open>simp_all add: paren_def redir_list_ok_def\<close>)
qed

lemma print_pipe:
  obtains l r where "c = PipeCmd l r" and "print_cmd c 1 = print_cmd l 0 @ 124 # print_cmd r 1"
  | "print_cmd c 1 = print_cmd c 0"
  by (cases c) (auto simp: paren_def)

lemma print_back: "printable c \<Longrightarrow> \<exists>k c0. c = (BackCmd ^^ k) c0 \<and> print_cmd c 2 = print_cmd c0 1 @ replicate k 38 \<and> printable c0"
proof (induction c)
  case (BackCmd c)
  then obtain k c0 where "c = (BackCmd ^^ k) c0" "print_cmd c 2 = print_cmd c0 1 @ replicate k 38" "printable c0" by auto
  then show ?case by (intro exI [of _ "Suc k"] exI [of _ c0]) (simp add: paren_def replicate_append_same)
next
  case (ExecCmd ws)
  then show ?case by (intro exI [of _ 0] exI [of _ "ExecCmd ws"]) simp
next
  case (RedirCmd c w mode fd)
  then show ?case by (intro exI [of _ 0] exI [of _ "RedirCmd c w mode fd"]) simp
next
  case (PipeCmd l r)
  then show ?case by (intro exI [of _ 0] exI [of _ "PipeCmd l r"]) (simp add: paren_def)
next
  case (ListCmd l r)
  then show ?case by (intro exI [of _ 0] exI [of _ "ListCmd l r"]) (simp add: paren_def)
qed

lemma print_line:
  obtains l r where "c = ListCmd l r" and "print_cmd c 3 = print_cmd l 2 @ 59 # print_cmd r 3"
  | "print_cmd c 3 = print_cmd c 2"
  by (cases c) (auto simp: paren_def)

lemma print_tight: "printable c \<Longrightarrow> tight xs \<Longrightarrow> tight (print_cmd c n @ xs)"
proof (induction c arbitrary: n xs)
  case (ExecCmd ws)
  then show ?case by (simp add: args_tight)
next
  case (RedirCmd c w mode fd)
  note sh = redir_shape [OF RedirCmd.prems(1)]
  have "tight (print_redir (redir_tok mode fd, w) @ xs)" using sh(2) by (auto simp: tight_def print_redir_def whitespace_iff)
  then show ?case using RedirCmd.IH [OF sh(4)] by simp
qed (simp_all add: paren_def)

subsection \<open>The parser on a printed command\<close>

definition parses :: "span cmd parse \<Rightarrow> bytes \<Rightarrow> bytes cmd \<Rightarrow> bytes \<Rightarrow> bool" where
  "parses p b c xs \<longleftrightarrow> p = Out_of_fuel \<or> (\<exists>c' s'. p = Parsed c' s' \<and> map_cmd (word_at b) c' = c \<and> at b s' xs)"

lemma map_redirs: "map_cmd (word_at b) (fold redir_of rs c) = fold redir_of (map (redir_at b) rs) (map_cmd (word_at b) c)"
  by (induction rs arbitrary: c) (auto simp: redir_of_def redir_at_def split: prod.splits)

lemma map_backs: "map_cmd f ((BackCmd ^^ k) c) = (BackCmd ^^ k) (map_cmd f c)"
  by (induction k) simp_all

lemma parses_bind:
  assumes "parses p b c xs" and "\<And>c' s'. map_cmd (word_at b) c' = c \<Longrightarrow> at b s' xs \<Longrightarrow> parses (f c' s') b d ys"
  shows "parses (pbind p f) b d ys"
proof (cases p)
  case (Parsed c' s')
  then show ?thesis using assms(1) assms(2) [of c' s'] by (auto simp: parses_def)
qed (use assms(1) in \<open>auto simp: parses_def\<close>)

definition parses_block :: "nat \<Rightarrow> bytes \<Rightarrow> bool" where
  "parses_block n b \<longleftrightarrow> (\<forall>s c rs xs. printable c \<longrightarrow> redir_list_ok rs \<longrightarrow> followed {41, 38, 59, 124} xs \<longrightarrow>
     at b s (40 # print_cmd c 3 @ 41 # concat (map print_redir rs) @ xs) \<longrightarrow> parses (parseblock n b s) b (fold redir_of rs c) xs)"

definition parses_cmd :: "(nat \<Rightarrow> bytes \<Rightarrow> nat \<Rightarrow> span cmd parse) \<Rightarrow> nat \<Rightarrow> uchar set \<Rightarrow> nat \<Rightarrow> bytes \<Rightarrow> bool" where
  "parses_cmd p lev fs n b \<longleftrightarrow> (\<forall>s c xs. printable c \<longrightarrow> followed fs xs \<longrightarrow> at b s (print_cmd c lev @ xs) \<longrightarrow> parses (p n b s) b c xs)"

lemma parseblock_print: "parses_cmd parseline 3 {41} n b \<Longrightarrow> parses_block (Suc n) b"
  unfolding parses_block_def
proof (intro allI impI)
  fix s c rs xs
  assume IH: "parses_cmd parseline 3 {41} n b" and c: "printable c" "redir_list_ok rs" "followed {41, 38, 59, 124} xs"
    and a: "at b s (40 # print_cmd c 3 @ 41 # concat (map print_redir rs) @ xs)"
  let ?ys = "concat (map print_redir rs) @ xs"
  have t: "tight ?ys" using c(2) followed_tight [OF c(3)] by (intro redirs_tight) (auto simp: redir_list_ok_def list_all_iff)
  have h: "xs = [] \<or> hd xs \<notin> {60, 62}" using c(3) by (auto simp: followed_def)
  have p: "peek b s [40] = (s, True)" "skiptoken b s = Suc s"
    using peek_symbol [OF a, of "[40]"] skiptoken_symbol [OF a _ print_tight [OF c(1)]] by (simp_all add: in_str_def)
  have "parses (parseline n b (Suc s)) b c (41 # ?ys)"
    using IH c(1) at_Cons [OF a] by (simp add: parses_cmd_def followed_def)
  then have "parses (pbind (parseline n b (Suc s)) (\<lambda>cmd s2. let (s3, p) = peek b s2 [41] in
        if \<not> p then Parse_panic ''syntax - missing )''
        else pbind (parseredirs b (skiptoken b s3)) (\<lambda>rs s4. Parsed (fold redir_of rs cmd) s4))) b (fold redir_of rs c) xs"
  proof (rule parses_bind)
    fix c' s2
    assume c': "map_cmd (word_at b) c' = c" and a2: "at b s2 (41 # ?ys)"
    obtain rs' s' where "parseredirs b (Suc s2) = Parsed rs' s'" "at b s' xs" "map (redir_at b) rs' = rs"
      using parseredirs_print [OF at_Cons [OF a2] c(2) followed_tight [OF c(3)] h] by blast
    then show "parses (let (s3, p) = peek b s2 [41] in
        if \<not> p then Parse_panic ''syntax - missing )''
        else pbind (parseredirs b (skiptoken b s3)) (\<lambda>rs s4. Parsed (fold redir_of rs c') s4)) b (fold redir_of rs c) xs"
      using peek_symbol [OF a2, of "[41]"] skiptoken_symbol [OF a2 _ t] c' by (simp add: in_str_def parses_def map_redirs)
  qed
  then show "parses (parseblock (Suc n) b s) b (fold redir_of rs c) xs" using p by simp
qed

lemma parseexec_print: "parses_block n b \<Longrightarrow> parses_cmd parseexec 0 {41, 38, 59, 124} (Suc n) b"
  unfolding parses_cmd_def
proof (intro allI impI)
  fix s c xs
  assume IH: "parses_block n b" and c: "printable c" "followed {41, 38, 59, 124} xs" and a: "at b s (print_cmd c 0 @ xs)"
  show "parses (parseexec (Suc n) b s) b c xs"
    using c(1)
  proof (cases rule: print_exec)
    case (1 ws rs)
    define rs1 where "rs1 = (if ws = [] then rs else [])"
    define rs2 where "rs2 = (if ws = [] then [] else rs)"
    let ?ys = "concat (map print_word ws) @ concat (map print_redir rs2) @ xs"
    have a1: "at b s (concat (map print_redir rs1) @ ?ys)" using a 1(2) by (cases "ws = []") (simp_all add: rs1_def rs2_def)
    have y: "tight ?ys \<and> (?ys = [] \<or> hd ?ys \<notin> set [60, 62, 40])"
    proof (cases "ws = []")
      case True
      then show ?thesis using followed_tight [OF c(2)] c(2) by (auto simp: rs2_def followed_def)
    next
      case False
      then show ?thesis using args_start [OF 1(3)] by (simp add: symbols_def)
    qed
    have r12: "redir_list_ok rs1" "redir_list_ok rs2" using 1(5) by (simp_all add: redir_list_ok_def rs1_def rs2_def)
    obtain rs1' s2 where r: "parseredirs b s = Parsed rs1' s2" "at b s2 ?ys" "map (redir_at b) rs1' = rs1"
      using parseredirs_print [OF a1 r12(1)] y by auto
    obtain as rs2' s' where as: "parse_args b 0 s2 = Parsed (as, rs2') s'" "at b s' xs" "map (word_at b) as = ws"
         "map (redir_at b) rs2' = rs2"
      using parse_args_print [OF r(2) 1(3) r12(2) c(2), of 0] 1(4) by (auto simp: rs2_def)
    have "peek b s [40] = (s, False)" using peek_redirs [OF a1 r12(1)] y by auto
    then show ?thesis
      using r(1) as(1,2) r(3) as(3,4) 1(1) by (simp add: parses_def map_redirs rs1_def rs2_def del: fold_append)
  next
    case (2 c0 rs)
    then have a': "at b s (40 # print_cmd c0 3 @ 41 # concat (map print_redir rs) @ xs)" using a by simp
    then have "parses (parseblock n b s) b (fold redir_of rs c0) xs" using IH 2 c(2) by (simp add: parses_block_def)
    then show ?thesis using 2(1) peek_symbol [OF a', of "[40]"] by (simp add: in_str_def)
  qed
qed

lemma parsepipe_print:
  assumes "parses_cmd parseexec 0 {41, 38, 59, 124} n b" and "parses_cmd parsepipe 1 {41, 38, 59} n b"
  shows "parses_cmd parsepipe 1 {41, 38, 59} (Suc n) b"
  unfolding parses_cmd_def
proof (intro allI impI)
  fix s c xs
  assume c: "printable c" "followed {41, 38, 59} xs" and a: "at b s (print_cmd c 1 @ xs)"
  have t: "tight xs" using followed_tight [OF followed_mono [OF c(2)]] by blast
  have "parses (pbind (parseexec n b s) (\<lambda>cmd s1. let (s2, p) = peek b s1 [124] in
     if p then pbind (parsepipe n b (skiptoken b s2)) (\<lambda>r s3. Parsed (PipeCmd cmd r) s3) else Parsed cmd s2)) b c xs"
  proof (cases c rule: print_pipe)
    case (1 l r)
    have ex: "parses (parseexec n b s) b l (124 # print_cmd r 1 @ xs)"
      using assms(1) c(1) a 1 by (simp add: parses_cmd_def followed_def)
    show ?thesis
    proof (rule parses_bind [OF ex])
      fix c' s1
      assume c': "map_cmd (word_at b) c' = l" and a1: "at b s1 (124 # print_cmd r 1 @ xs)"
      have "parses (parsepipe n b (Suc s1)) b r xs"
        using assms(2) c at_Cons [OF a1] 1 by (simp add: parses_cmd_def)
      then have "parses (pbind (parsepipe n b (Suc s1)) (\<lambda>r s3. Parsed (PipeCmd c' r) s3)) b c xs"
        by (rule parses_bind) (simp add: parses_def c' 1(1))
      then show "parses (let (s2, p) = peek b s1 [124] in
          if p then pbind (parsepipe n b (skiptoken b s2)) (\<lambda>r s3. Parsed (PipeCmd c' r) s3) else Parsed c' s2) b c xs"
        using peek_symbol [OF a1, of "[124]"] skiptoken_symbol [OF a1 _ print_tight [OF _ t]] c(1) 1(1) by (simp add: in_str_def)
    qed
  next
    case 2
    have ex: "parses (parseexec n b s) b c xs"
      using assms(1) c a 2 followed_mono [OF c(2), of "{41, 38, 59, 124}"] by (auto simp: parses_cmd_def)
    show ?thesis
    proof (rule parses_bind [OF ex])
      fix c' s1
      assume c': "map_cmd (word_at b) c' = c" and a1: "at b s1 xs"
      have "peek b s1 [124] = (s1, False)" using peek_tight [OF a1 t, of "[124]"] c(2) by (auto simp: followed_def in_str_def)
      then show "parses (let (s2, p) = peek b s1 [124] in
          if p then pbind (parsepipe n b (skiptoken b s2)) (\<lambda>r s3. Parsed (PipeCmd c' r) s3) else Parsed c' s2) b c xs"
        using c' a1 by (simp add: parses_def)
    qed
  qed
  then show "parses (parsepipe (Suc n) b s) b c xs" by simp
qed

text \<open>What \<^verbatim>\<open>parseline\<close> does after \<^verbatim>\<open>parsepipe\<close>.\<close>

lemma parseline_rest:
  assumes "parses_cmd parsepipe 1 {41, 38, 59} n b" and "printable l" and "at b s (print_cmd l 2 @ xs)" and "followed {41, 59} xs"
    and rest: "\<And>cmd s2. map_cmd (word_at b) cmd = l \<Longrightarrow> at b s2 xs \<Longrightarrow>
      parses (let (s3, p) = peek b s2 [59] in
        if p then pbind (parseline n b (skiptoken b s3)) (\<lambda>r s4. Parsed (ListCmd cmd r) s4) else Parsed cmd s3) b c ys"
  shows "parses (parseline (Suc n) b s) b c ys"
proof -
  obtain k c0 where l: "l = (BackCmd ^^ k) c0" "print_cmd l 2 = print_cmd c0 1 @ replicate k 38" "printable c0"
    using print_back [OF assms(2)] by blast
  have f: "followed {41, 38, 59} (replicate k 38 @ xs)" using assms(4) by (cases k) (auto simp: followed_def)
  have "parses (parsepipe n b s) b c0 (replicate k 38 @ xs)" using assms(1,3) l f by (simp add: parses_cmd_def)
  then have "parses (pbind (parsepipe n b s) (\<lambda>cmd s1.
     let (k, s2) = parse_backs b s1; cmd = (BackCmd ^^ k) cmd; (s3, p) = peek b s2 [59] in
     if p then pbind (parseline n b (skiptoken b s3)) (\<lambda>r s4. Parsed (ListCmd cmd r) s4)
     else Parsed cmd s3)) b c ys"
  proof (rule parses_bind)
    fix cmd s1
    assume "map_cmd (word_at b) cmd = c0" and a1: "at b s1 (replicate k 38 @ xs)"
    then have m: "map_cmd (word_at b) ((BackCmd ^^ k) cmd) = l" by (simp add: l map_backs)
    obtain s2 where "parse_backs b s1 = (k, s2)" "at b s2 xs" using parse_backs_print [OF a1 assms(4)] by blast
    then show "parses (let (k, s2) = parse_backs b s1; cmd = (BackCmd ^^ k) cmd; (s3, p) = peek b s2 [59] in
     if p then pbind (parseline n b (skiptoken b s3)) (\<lambda>r s4. Parsed (ListCmd cmd r) s4)
     else Parsed cmd s3) b c ys" using rest [OF m] by (simp add: Let_def)
  qed
  then show ?thesis by simp
qed

lemma parseline_print:
  assumes "parses_cmd parsepipe 1 {41, 38, 59} n b" and "parses_cmd parseline 3 {41} n b"
  shows "parses_cmd parseline 3 {41} (Suc n) b"
  unfolding parses_cmd_def
proof (intro allI impI)
  fix s c xs
  assume c: "printable c" "followed {41} xs" and a: "at b s (print_cmd c 3 @ xs)"
  have t: "tight xs" using followed_tight [OF followed_mono [OF c(2)]] by blast
  show "parses (parseline (Suc n) b s) b c xs"
  proof (cases c rule: print_line)
    case (1 l r)
    show ?thesis
    proof (rule parseline_rest [OF assms(1), of l s "59 # print_cmd r 3 @ xs"])
      fix cmd s2
      assume m: "map_cmd (word_at b) cmd = l" and a2: "at b s2 (59 # print_cmd r 3 @ xs)"
      have "parses (parseline n b (Suc s2)) b r xs" using assms(2) c at_Cons [OF a2] 1 by (simp add: parses_cmd_def)
      then have "parses (pbind (parseline n b (Suc s2)) (\<lambda>r s4. Parsed (ListCmd cmd r) s4)) b c xs"
        by (rule parses_bind) (simp add: parses_def m 1(1))
      then show "parses (let (s3, p) = peek b s2 [59] in
        if p then pbind (parseline n b (skiptoken b s3)) (\<lambda>r s4. Parsed (ListCmd cmd r) s4) else Parsed cmd s3) b c xs"
        using peek_symbol [OF a2, of "[59]"] skiptoken_symbol [OF a2 _ print_tight [OF _ t]] c(1) 1(1) by (simp add: in_str_def)
    qed (use 1 c a in \<open>simp_all add: followed_def\<close>)
  next
    case 2
    show ?thesis
    proof (rule parseline_rest [OF assms(1) c(1), of s xs])
      fix cmd s2
      assume m: "map_cmd (word_at b) cmd = c" and a2: "at b s2 xs"
      have "peek b s2 [59] = (s2, False)" using peek_tight [OF a2 t, of "[59]"] c(2) by (auto simp: followed_def in_str_def)
      then show "parses (let (s3, p) = peek b s2 [59] in
        if p then pbind (parseline n b (skiptoken b s3)) (\<lambda>r s4. Parsed (ListCmd cmd r) s4) else Parsed cmd s3) b c xs"
        using m a2 by (simp add: parses_def)
    qed (use 2 c a in \<open>auto simp: followed_def\<close>)
  qed
qed

lemma parse_print:
  "parses_cmd parseline 3 {41} n b \<and> parses_cmd parsepipe 1 {41, 38, 59} n b \<and>
   parses_cmd parseexec 0 {41, 38, 59, 124} n b \<and> parses_block n b"
proof (induction n)
  case 0
  then show ?case by (simp add: parses_cmd_def parses_block_def parses_def)
next
  case (Suc n)
  then show ?case using parseline_print parsepipe_print parseexec_print parseblock_print by blast
qed

lemma print_nonzero: "printable c \<Longrightarrow> 0 \<notin> set (print_cmd c n)"
proof (induction c arbitrary: n)
  case (ExecCmd ws)
  then show ?case by (auto simp: print_word_def is_word_def list_all_iff)
next
  case (RedirCmd c w mode fd)
  note sh = redir_shape [OF RedirCmd.prems]
  show ?case using RedirCmd.IH [OF sh(4)] sh(2,3) by (auto simp: print_redir_def print_word_def is_word_def list_all_iff)
qed (auto simp: paren_def)

lemma strlen_append: "0 \<notin> set xs \<Longrightarrow> strlen (xs @ 0 # ys) = length xs"
  by (induction xs) auto

text \<open>C24. The parser inverts the printer: whatever command is printed with the precedences of the grammar (redirections tightest,
  then pipes, then background marks, then lists, each of the last three nesting to the right, and parentheses where a looser
  command stands in a tighter place), \<^verbatim>\<open>parsecmd\<close> reads the whole line and returns that command, with its words as NUL-terminated
  strings in the buffer. The words are any nonempty strings without whitespace and symbols.\<close>

theorem parsecmd_print:
  assumes "printable c"
  shows "\<exists>c' b'. parsecmd (print_cmd c 3 @ 0 # junk) = Parsed (c', b') (length (print_cmd c 3)) \<and>
           map_cmd (\<lambda>(q, eq). cstr b' q) c' = c"
proof -
  let ?b = "print_cmd c 3" and ?n = "4 * length (print_cmd c 3) + 4"
  have b: "take (strlen (?b @ 0 # junk)) (?b @ 0 # junk) = ?b" "0 \<notin> set ?b"
    using strlen_append [OF print_nonzero [OF assms]] print_nonzero [OF assms] by simp_all
  have "parses (parseline ?n ?b 0) ?b c []"
    using parse_print [of ?n ?b] assms by (simp add: parses_cmd_def followed_def at_def)
  moreover have "parseline ?n ?b 0 \<noteq> Out_of_fuel" using parse_fuel [of ?b 0 ?n] by simp
  ultimately obtain c' s' where p: "parseline ?n ?b 0 = Parsed c' s'" "map_cmd (word_at ?b) c' = c" "at ?b s' []"
    by (auto simp: parses_def)
  have s': "s' = length ?b" using p(3) by (simp add: at_def)
  then have "peek ?b s' [] = (length ?b, False)" using peek_tight [OF p(3), of "[]"] by (simp add: tight_def)
  then have "parsecmd (?b @ 0 # junk) = Parsed (c', nulterminate c' ?b) (length ?b)"
    unfolding parsecmd_def b(1) using p(1) by (simp add: Let_def)
  moreover have ok: "\<forall>w \<in> cmd_words c'. word_span ?b w" using parse_ok [of ?n ?b 0] p(1) by (auto simp: cmd_ok_def)
  have "map_cmd (\<lambda>(q, eq). cstr (nulterminate c' ?b) q) c' = map_cmd (word_at ?b) c'"
    by (rule cmd.map_cong0) (use nulterminate_cstr [OF ok b(2)] in \<open>auto simp: word_at_def\<close>)
  ultimately show ?thesis using p(2) by auto
qed

definition sample_cmd :: "bytes cmd" where
  "sample_cmd =
     ListCmd (PipeCmd (ExecCmd [[101], [97]]) (RedirCmd (BackCmd (ExecCmd [[119]])) [102] (O_WRONLY OR O_CREATE OR O_TRUNC) 1))
       (BackCmd (ExecCmd [[118]]))"

theorem parsecmd_print_witness:
  "printable sample_cmd \<and> print_cmd sample_cmd 3 = [101, 32, 97, 32, 124, 40, 119, 32, 38, 41, 62, 32, 102, 32, 59, 118, 32, 38] \<and>
   (\<exists>c' b'. parsecmd (print_cmd sample_cmd 3 @ [0, 7]) = Parsed (c', b') (length (print_cmd sample_cmd 3)) \<and> map_cmd (\<lambda>(q, eq). cstr b' q) c' = sample_cmd)"
proof -
  have p: "printable sample_cmd" by (simp add: sample_cmd_def printable_def is_word_def word_char_def symbols_iff whitespace_iff MAXARGS_def)
  have "print_cmd sample_cmd 3 = [101, 32, 97, 32, 124, 40, 119, 32, 38, 41, 62, 32, 102, 32, 59, 118, 32, 38]"
    by code_simp
  then show ?thesis using p parsecmd_print [OF p, of "[7]"] by simp
qed

end
