(* ===== verification/Kalloc.thy ===== *)
theory Kalloc
  imports Cstring
begin

text \<open>
  \<^verbatim>\<open>src/kernel/kalloc.c\<close>: the physical page allocator. The free list is threaded through
  the free pages themselves (\<^verbatim>\<open>struct run\<close>: the first eight bytes of a free page hold the
  address of the next), and is modelled so, in memory. \<open>kend\<close> is the linker's symbol
  \<^verbatim>\<open>end\<close>, the first address after the kernel.
\<close>

section \<open>Page arithmetic of riscv.h and memlayout.h\<close>

definition PGSIZE :: nat where [params]: "PGSIZE = 4096"
definition KERNBASE :: uint64 where [params]: "KERNBASE = 0x80000000"
definition PHYSTOP :: uint64 where [params]: "PHYSTOP = KERNBASE + 128 * 1024 * 1024"

definition PGROUNDUP :: "uint64 \<Rightarrow> uint64" where
  "PGROUNDUP sz = (sz + 4096 - 1) AND NOT (4096 - 1)"

definition PGROUNDDOWN :: "uint64 \<Rightarrow> uint64" where
  "PGROUNDDOWN a = a AND NOT (4096 - 1)"

section \<open>State and operations\<close>

record kmem_state = mstate +
  freelist :: uint64
  kend :: uint64

definition set_mem :: "((uint64 \<Rightarrow> uchar) \<Rightarrow> (uint64 \<Rightarrow> uchar)) \<Rightarrow> ('a kmem_state_scheme, unit) kmon" where
  "set_mem f = kmod (\<lambda>s. s\<lparr>mem := f (mem s)\<rparr>)"

definition kfree :: "uint64 \<Rightarrow> ('a kmem_state_scheme, unit) kmon" where
  "kfree pa =
     kbind (kget kend) (\<lambda>e.
     if pa mod 4096 \<noteq> 0 \<or> pa < e \<or> pa \<ge> PHYSTOP then kpanic ''kfree''
     else
       kseq (set_mem (memset pa 1 PGSIZE))
      (kseq (kmod (\<lambda>s. s\<lparr>mem := st64 pa (freelist s) (mem s)\<rparr>))
            (kmod (\<lambda>s. s\<lparr>freelist := pa\<rparr>))))"

definition kalloc :: "('a kmem_state_scheme, uint64) kmon" where
  "kalloc =
     kbind (kget freelist) (\<lambda>r.
     kseq (kwhen (r \<noteq> 0) (kmod (\<lambda>s. s\<lparr>freelist := ld64 r (mem s)\<rparr>)))
    (kseq (kwhen (r \<noteq> 0) (set_mem (memset r 5 PGSIZE)))
          (kret r)))"

lemma freerange_step:
  fixes p pa_end :: uint64
  assumes "unat p + PGSIZE \<le> unat pa_end"
  shows "unat (p + 4096) = unat p + PGSIZE"
proof -
  have "unat p + 4096 < 2 ^ 64"
    using assms unsigned_less [of pa_end, where ?'a = nat] by (simp add: PGSIZE_def)
  then show ?thesis by (simp add: unat_word_ariths PGSIZE_def)
qed

text \<open>\<^verbatim>\<open>for (; p + PGSIZE <= pa_end; p += PGSIZE) kfree(p);\<close>\<close>

function freerange_loop :: "uint64 \<Rightarrow> uint64 \<Rightarrow> ('a kmem_state_scheme, unit) kmon" where
  "freerange_loop p pa_end =
     (if unat p + PGSIZE \<le> unat pa_end
      then kseq (kfree p) (freerange_loop (p + 4096) pa_end)
      else kret ())"
  by pat_completeness auto
termination
  by (relation "measure (\<lambda>(p, pa_end). unat pa_end - unat p)")
     (auto simp: freerange_step PGSIZE_def)

declare freerange_loop.simps [simp del]

definition freerange :: "uint64 \<Rightarrow> uint64 \<Rightarrow> ('a kmem_state_scheme, unit) kmon" where
  "freerange pa_start pa_end = freerange_loop (PGROUNDUP pa_start) pa_end"

definition kinit :: "('a kmem_state_scheme, unit) kmon" where
  "kinit = kbind (kget kend) (\<lambda>e. freerange e PHYSTOP)"

end
