(* ===== verification/Vm.thy ===== *)
theory Vm
  imports Kalloc
begin

text \<open>
  \<^verbatim>\<open>src/kernel/vm.c\<close>: Sv39 page tables, held in physical memory as pages of 512
  little-endian 64-bit entries, and the copies between user and kernel space. A pointer to
  an entry is its address; the null pointer is 0. A kernel buffer that a copy reads or
  fills is a byte list.
\<close>

section \<open>Page-table entries (riscv.h)\<close>

definition PTE_V :: uint64 where [params]: "PTE_V = 1"
definition PTE_R :: uint64 where [params]: "PTE_R = 2"
definition PTE_W :: uint64 where [params]: "PTE_W = 4"
definition PTE_X :: uint64 where [params]: "PTE_X = 8"
definition PTE_U :: uint64 where [params]: "PTE_U = 16"
definition MAXVA :: uint64 where [params]: "MAXVA = push_bit 38 1"
definition TRAMPOLINE :: uint64 where [params]: "TRAMPOLINE = MAXVA - 4096"
definition TRAPFRAME :: uint64 where [params]: "TRAPFRAME = TRAMPOLINE - 4096"

definition PA2PTE :: "uint64 \<Rightarrow> uint64" where
  "PA2PTE pa = push_bit 10 (drop_bit 12 pa)"

definition PTE2PA :: "uint64 \<Rightarrow> uint64" where
  "PTE2PA pte = push_bit 12 (drop_bit 10 pte)"

definition PTE_FLAGS :: "uint64 \<Rightarrow> uint64" where
  "PTE_FLAGS pte = pte AND 0x3FF"

definition PX :: "nat \<Rightarrow> uint64 \<Rightarrow> uint64" where
  "PX level va = drop_bit (12 + 9 * level) va AND 0x1FF"

section \<open>Walking\<close>

text \<open>The loop of \<^verbatim>\<open>walk\<close> from \<open>level\<close> down to 1, and its final \<^verbatim>\<open>&pagetable[PX(0, va)]\<close>.\<close>

primrec walk_loop :: "nat \<Rightarrow> uint64 \<Rightarrow> uint64 \<Rightarrow> bool \<Rightarrow> ('a kmem_state_scheme, uint64) kmon" where
  "walk_loop 0 pagetable va alloc = kret (pagetable + 8 * PX 0 va)"
| "walk_loop (Suc l) pagetable va alloc =
     (let pte = pagetable + 8 * PX (Suc l) va in
      kbind (kget (\<lambda>s. ld64 pte (mem s))) (\<lambda>v.
      if v AND PTE_V \<noteq> 0 then walk_loop l (PTE2PA v) va alloc
      else if \<not> alloc then kret 0
      else
        kbind kalloc (\<lambda>pg.
        if pg = 0 then kret 0
        else
          kseq (set_mem (memset pg 0 PGSIZE))
         (kseq (set_mem (st64 pte (PA2PTE pg OR PTE_V)))
               (walk_loop l pg va alloc)))))"

definition walk :: "uint64 \<Rightarrow> uint64 \<Rightarrow> bool \<Rightarrow> ('a kmem_state_scheme, uint64) kmon" where
  "walk pagetable va alloc =
     (if va \<ge> MAXVA then kpanic ''walk'' else walk_loop 2 pagetable va alloc)"

definition walkaddr :: "uint64 \<Rightarrow> uint64 \<Rightarrow> ('a kmem_state_scheme, uint64) kmon" where
  "walkaddr pagetable va =
     (if va \<ge> MAXVA then kret 0
      else
        kbind (walk pagetable va False) (\<lambda>pte.
        if pte = 0 then kret 0
        else
          kbind (kget (\<lambda>s. ld64 pte (mem s))) (\<lambda>v.
          if v AND PTE_V = 0 then kret 0
          else if v AND PTE_U = 0 then kret 0
          else kret (PTE2PA v))))"

section \<open>Copies between user and kernel space\<close>

text \<open>How many bytes one iteration of a copy loop moves: up to the end of the page.\<close>

definition page_chunk :: "uint64 \<Rightarrow> nat \<Rightarrow> nat" where
  "page_chunk va len = min (PGSIZE - unat (va - PGROUNDDOWN va)) len"

lemma PGROUNDDOWN_eq: "PGROUNDDOWN va = push_bit 12 (drop_bit 12 va)"
proof -
  have "PGROUNDDOWN va = va AND NOT (mask 12)"
    by (simp add: PGROUNDDOWN_def mask_eq_exp_minus_1)
  also have "\<dots> = push_bit 12 (drop_bit 12 va)"
    by (auto intro!: bit_word_eqI simp: bit_simps)
  finally show ?thesis .
qed

lemma pgoff_eq: "va - PGROUNDDOWN va = take_bit 12 va"
  using bits_ident [of 12 va] by (simp add: PGROUNDDOWN_eq algebra_simps)

lemma pgoff_less: "unat (va - PGROUNDDOWN va) < PGSIZE"
  by (simp add: pgoff_eq PGSIZE_def unsigned_take_bit_eq take_bit_nat_less_exp [where n = 12, simplified])

lemma page_chunk_pos: "0 < len \<Longrightarrow> 0 < page_chunk va len"
  using pgoff_less [of va] by (simp add: page_chunk_def)

function copyout :: "uint64 \<Rightarrow> uint64 \<Rightarrow> bytes \<Rightarrow> ('a kmem_state_scheme, int) kmon" where
  "copyout pagetable dstva src =
     (if src = [] then kret 0
      else
        (let va0 = PGROUNDDOWN dstva in
         kbind (walkaddr pagetable va0) (\<lambda>pa0.
         if pa0 = 0 then kret (-1)
         else
           (let n = page_chunk dstva (length src) in
            kseq (set_mem (store_bytes (pa0 + (dstva - va0)) (take n src)))
                 (copyout pagetable (va0 + 4096) (drop n src))))))"
  by pat_completeness auto
termination
  by (relation "measure (\<lambda>(pagetable, dstva, src). length src)") (auto simp: page_chunk_pos)

declare copyout.simps [simp del]

text \<open>\<^verbatim>\<open>copyin\<close> returns its result with the bytes that reached \<^verbatim>\<open>dst\<close>: all \<open>len\<close> of them on
  success, those of the pages before the fault on failure.\<close>

function copyin :: "uint64 \<Rightarrow> uint64 \<Rightarrow> nat \<Rightarrow> ('a kmem_state_scheme, int \<times> bytes) kmon" where
  "copyin pagetable srcva len =
     (if len = 0 then kret (0, [])
      else
        (let va0 = PGROUNDDOWN srcva in
         kbind (walkaddr pagetable va0) (\<lambda>pa0.
         if pa0 = 0 then kret (-1, [])
         else
           (let n = page_chunk srcva len in
            kbind (kget (\<lambda>s. load_bytes (pa0 + (srcva - va0)) n (mem s))) (\<lambda>bs.
            kbind (copyin pagetable (va0 + 4096) (len - n)) (\<lambda>(r, rest).
            kret (r, bs @ rest)))))))"
  by pat_completeness auto
termination
  by (relation "measure (\<lambda>(pagetable, srcva, len). len)") (auto simp: page_chunk_pos)

declare copyin.simps [simp del]

text \<open>The bytes of one page up to and with a NUL, and whether the NUL was found.\<close>

fun until_nul :: "bytes \<Rightarrow> bytes \<times> bool" where
  "until_nul [] = ([], False)"
| "until_nul (c # cs) =
     (if c = 0 then ([0], True) else (let (bs, got) = until_nul cs in (c # bs, got)))"

function copyinstr :: "uint64 \<Rightarrow> uint64 \<Rightarrow> nat \<Rightarrow> ('a kmem_state_scheme, int \<times> bytes) kmon" where
  "copyinstr pagetable srcva mx =
     (if mx = 0 then kret (-1, [])
      else
        (let va0 = PGROUNDDOWN srcva in
         kbind (walkaddr pagetable va0) (\<lambda>pa0.
         if pa0 = 0 then kret (-1, [])
         else
           (let n = page_chunk srcva mx in
            kbind (kget (\<lambda>s. until_nul (load_bytes (pa0 + (srcva - va0)) n (mem s)))) (\<lambda>(bs, got_null).
            if got_null then kret (0, bs)
            else
              kbind (copyinstr pagetable (va0 + 4096) (mx - n)) (\<lambda>(r, rest).
              kret (r, bs @ rest)))))))"
  by pat_completeness auto
termination
  by (relation "measure (\<lambda>(pagetable, srcva, mx). mx)") (auto simp: page_chunk_pos)

declare copyinstr.simps [simp del]

section \<open>Mapping and unmapping\<close>

text \<open>One iteration of \<^verbatim>\<open>mappages\<close>. The loop ends when \<^verbatim>\<open>a == last\<close>; both are page-aligned, so this
  happens after exactly \<open>(last - a) / PGSIZE\<close> steps of one page, which is
  the counter of the recursion.\<close>

definition map_page :: "uint64 \<Rightarrow> uint64 \<Rightarrow> uint64 \<Rightarrow> uint64 \<Rightarrow> ('a kmem_state_scheme, int) kmon" where
  "map_page pagetable a pa perm =
     kbind (walk pagetable a True) (\<lambda>pte.
     if pte = 0 then kret (-1)
     else
       kbind (kget (\<lambda>s. ld64 pte (mem s))) (\<lambda>v.
       if v AND PTE_V \<noteq> 0 then kpanic ''remap''
       else
         kseq (set_mem (st64 pte (PA2PTE pa OR perm OR PTE_V)))
              (kret 0)))"

primrec mappages_loop :: "nat \<Rightarrow> uint64 \<Rightarrow> uint64 \<Rightarrow> uint64 \<Rightarrow> uint64 \<Rightarrow> ('a kmem_state_scheme, int) kmon" where
  "mappages_loop 0 pagetable a pa perm = map_page pagetable a pa perm"
| "mappages_loop (Suc k) pagetable a pa perm =
     kbind (map_page pagetable a pa perm) (\<lambda>r.
     if r \<noteq> 0 then kret r
     else mappages_loop k pagetable (a + 4096) (pa + 4096) perm)"

definition mappages :: "uint64 \<Rightarrow> uint64 \<Rightarrow> uint64 \<Rightarrow> uint64 \<Rightarrow> uint64 \<Rightarrow> ('a kmem_state_scheme, int) kmon" where
  "mappages pagetable va sz pa perm =
     (let a = PGROUNDDOWN va; last = PGROUNDDOWN (va + sz - 1) in
      mappages_loop (unat (last - a) div PGSIZE) pagetable a pa perm)"

text \<open>The values of \<^verbatim>\<open>for (a = va; a < lim; a += PGSIZE)\<close>.\<close>

definition page_range :: "uint64 \<Rightarrow> uint64 \<Rightarrow> uint64 list" where
  "page_range va lim = map (\<lambda>k. va + 4096 * of_nat k) [0..<(unat lim - unat va + PGSIZE - 1) div PGSIZE]"

definition unmap_page :: "uint64 \<Rightarrow> bool \<Rightarrow> uint64 \<Rightarrow> ('a kmem_state_scheme, unit) kmon" where
  "unmap_page pagetable do_free a =
     kbind (walk pagetable a False) (\<lambda>pte.
     if pte = 0 then kpanic ''uvmunmap: walk''
     else
       kbind (kget (\<lambda>s. ld64 pte (mem s))) (\<lambda>v.
       if v AND PTE_V = 0 then kpanic ''uvmunmap: not mapped''
       else if PTE_FLAGS v = PTE_V then kpanic ''uvmunmap: not a leaf''
       else
         kseq (kwhen do_free (kfree (PTE2PA v)))
              (set_mem (st64 pte 0))))"

definition uvmunmap :: "uint64 \<Rightarrow> uint64 \<Rightarrow> uint64 \<Rightarrow> bool \<Rightarrow> ('a kmem_state_scheme, unit) kmon" where
  "uvmunmap pagetable va npages do_free =
     (if va mod 4096 \<noteq> 0 then kpanic ''uvmunmap: not aligned''
      else kfor (page_range va (va + npages * 4096)) (unmap_page pagetable do_free))"

definition uvmcreate :: "('a kmem_state_scheme, uint64) kmon" where
  "uvmcreate =
     kbind kalloc (\<lambda>pagetable.
     if pagetable = 0 then kret 0
     else kseq (set_mem (memset pagetable 0 PGSIZE)) (kret pagetable))"

definition uvminit :: "uint64 \<Rightarrow> bytes \<Rightarrow> ('a kmem_state_scheme, unit) kmon" where
  "uvminit pagetable src =
     (if length src \<ge> PGSIZE then kpanic ''inituvm: more than a page''
      else
        kbind kalloc (\<lambda>pg.
        kseq (set_mem (memset pg 0 PGSIZE))
       (kseq (mappages pagetable 0 4096 pg (PTE_W OR PTE_R OR PTE_X OR PTE_U))
             (set_mem (store_bytes pg src)))))"

definition uvmdealloc :: "uint64 \<Rightarrow> uint64 \<Rightarrow> uint64 \<Rightarrow> ('a kmem_state_scheme, uint64) kmon" where
  "uvmdealloc pagetable oldsz newsz =
     (if newsz \<ge> oldsz then kret oldsz
      else
        kseq (kwhen (PGROUNDUP newsz < PGROUNDUP oldsz)
               (uvmunmap pagetable (PGROUNDUP newsz)
                 (scast (ucast ((PGROUNDUP oldsz - PGROUNDUP newsz) div 4096) :: 32 word)) True))
             (kret newsz))"

primrec uvmalloc_loop :: "uint64 \<Rightarrow> uint64 \<Rightarrow> uint64 \<Rightarrow> uint64 list \<Rightarrow> ('a kmem_state_scheme, uint64) kmon" where
  "uvmalloc_loop pagetable oldsz newsz [] = kret newsz"
| "uvmalloc_loop pagetable oldsz newsz (a # as) =
     kbind kalloc (\<lambda>pg.
     if pg = 0 then kseq (uvmdealloc pagetable a oldsz) (kret 0)
     else
       kseq (set_mem (memset pg 0 PGSIZE))
      (kbind (mappages pagetable a 4096 pg (PTE_W OR PTE_X OR PTE_R OR PTE_U)) (\<lambda>r.
       if r \<noteq> 0 then
         kseq (kfree pg)
        (kseq (uvmdealloc pagetable a oldsz)
              (kret 0))
       else uvmalloc_loop pagetable oldsz newsz as)))"

definition uvmalloc :: "uint64 \<Rightarrow> uint64 \<Rightarrow> uint64 \<Rightarrow> ('a kmem_state_scheme, uint64) kmon" where
  "uvmalloc pagetable oldsz newsz =
     (if newsz < oldsz then kret oldsz
      else uvmalloc_loop pagetable (PGROUNDUP oldsz) newsz (page_range (PGROUNDUP oldsz) newsz))"

text \<open>\<^verbatim>\<open>freewalk\<close> descends once per level of the tree; Sv39 has three levels, and the fuel is the
  number of levels left.\<close>

primrec freewalk :: "nat \<Rightarrow> uint64 \<Rightarrow> ('a kmem_state_scheme, unit) kmon" where
  "freewalk 0 pagetable = kpanic ''out of fuel''"
| "freewalk (Suc l) pagetable =
     kseq (kfor [0..<512] (\<lambda>i.
            kbind (kget (\<lambda>s. ld64 (pagetable + 8 * of_nat i) (mem s))) (\<lambda>pte.
            if pte AND PTE_V \<noteq> 0 \<and> pte AND (PTE_R OR PTE_W OR PTE_X) = 0 then
              kseq (freewalk l (PTE2PA pte))
                   (set_mem (st64 (pagetable + 8 * of_nat i) 0))
            else if pte AND PTE_V \<noteq> 0 then kpanic ''freewalk: leaf''
            else kret ())))
          (kfree pagetable)"

definition uvmfree :: "uint64 \<Rightarrow> uint64 \<Rightarrow> ('a kmem_state_scheme, unit) kmon" where
  "uvmfree pagetable sz =
     kseq (kwhen (sz > 0) (uvmunmap pagetable 0 (PGROUNDUP sz div 4096) True))
          (freewalk 3 pagetable)"

primrec uvmcopy_loop :: "uint64 \<Rightarrow> uint64 \<Rightarrow> uint64 list \<Rightarrow> ('a kmem_state_scheme, int) kmon" where
  "uvmcopy_loop old new [] = kret 0"
| "uvmcopy_loop old new (i # is) =
     kbind (walk old i False) (\<lambda>pte.
     if pte = 0 then kpanic ''uvmcopy: pte should exist''
     else
       kbind (kget (\<lambda>s. ld64 pte (mem s))) (\<lambda>v.
       if v AND PTE_V = 0 then kpanic ''uvmcopy: page not present''
       else
         kbind kalloc (\<lambda>pg.
         if pg = 0 then kseq (uvmunmap new 0 (i div 4096) True) (kret (-1))
         else
           kseq (set_mem (memmove pg (PTE2PA v) (of_nat PGSIZE)))
          (kbind (mappages new i 4096 pg (PTE_FLAGS v)) (\<lambda>r.
           if r \<noteq> 0 then
             kseq (kfree pg)
            (kseq (uvmunmap new 0 (i div 4096) True)
                  (kret (-1)))
           else uvmcopy_loop old new is)))))"

definition uvmcopy :: "uint64 \<Rightarrow> uint64 \<Rightarrow> uint64 \<Rightarrow> ('a kmem_state_scheme, int) kmon" where
  "uvmcopy old new sz = uvmcopy_loop old new (page_range 0 sz)"

definition uvmclear :: "uint64 \<Rightarrow> uint64 \<Rightarrow> ('a kmem_state_scheme, unit) kmon" where
  "uvmclear pagetable va =
     kbind (walk pagetable va False) (\<lambda>pte.
     if pte = 0 then kpanic ''uvmclear''
     else kmod (\<lambda>s. s\<lparr>mem := st64 pte (ld64 pte (mem s) AND NOT PTE_U) (mem s)\<rparr>))"

end
