(* ===== verification/Proc.thy ===== *)
theory Proc
  imports Vm
begin

text \<open>
  The process table (\<^verbatim>\<open>src/kernel/proc.h\<close>) and what the other components use of
  \<^verbatim>\<open>src/kernel/proc.c\<close>: the current process, \<^verbatim>\<open>sleep\<close>, \<^verbatim>\<open>wakeup\<close>, \<^verbatim>\<open>kill\<close> and the copies
  to a user or kernel address; and the sleeping locks of \<^verbatim>\<open>src/kernel/sleeplock.c\<close>. A
  pointer to a process, a file or an in-memory inode is its index in its table, and a null
  pointer is \<open>None\<close>. The model follows one CPU, whose current process has index \<open>cur\<close>.
\<close>

section \<open>Processes\<close>

datatype procstate = UNUSED | SLEEPING | RUNNABLE | RUNNING | ZOMBIE

datatype tfreg =
    Tf_kernel_satp | Tf_kernel_sp | Tf_kernel_trap | Tf_epc | Tf_kernel_hartid
  | Tf_ra | Tf_sp | Tf_gp | Tf_tp | Tf_t0 | Tf_t1 | Tf_t2 | Tf_s0 | Tf_s1
  | Tf_a0 | Tf_a1 | Tf_a2 | Tf_a3 | Tf_a4 | Tf_a5 | Tf_a6 | Tf_a7
  | Tf_s2 | Tf_s3 | Tf_s4 | Tf_s5 | Tf_s6 | Tf_s7 | Tf_s8 | Tf_s9 | Tf_s10 | Tf_s11
  | Tf_t3 | Tf_t4 | Tf_t5 | Tf_t6

type_synonym trapframe = "tfreg \<Rightarrow> uint64"

record proc =
  p_state :: procstate
  p_parent :: "nat option"
  p_chan :: "chan option"
  p_killed :: bool
  p_xstate :: int
  p_pid :: int
  p_kstack :: uint64
  p_sz :: uint64
  p_pagetable :: uint64
  p_trapframe :: uint64
  p_tf :: trapframe
  p_context_ra :: uint64
  p_context_sp :: uint64
  p_ofile :: "nat option list"
  p_cwd :: "nat option"
  p_name :: bytes

record proc_state = kmem_state +
  procs :: "proc list"
  cur :: nat
  nextpid :: int
  initproc :: "nat option"

definition myproc_of :: "'a proc_state_scheme \<Rightarrow> proc" where
  "myproc_of s = procs s ! cur s"

definition upd_proc :: "nat \<Rightarrow> (proc \<Rightarrow> proc) \<Rightarrow> 'a proc_state_scheme \<Rightarrow> 'a proc_state_scheme" where
  "upd_proc i f s = s\<lparr>procs := (procs s)[i := f (procs s ! i)]\<rparr>"

definition myproc :: "('a proc_state_scheme, proc) kmon" where
  "myproc = kget myproc_of"

text \<open>\<^verbatim>\<open>sleep\<close> records the channel, marks the process sleeping and gives up the CPU; from here
  on only a \<^verbatim>\<open>wakeup\<close> or a \<^verbatim>\<open>kill\<close> by someone else lets it run again.\<close>

definition sleep :: "chan \<Rightarrow> ('a proc_state_scheme, 'b) kmon" where
  "sleep ch =
     kbind (kget cur) (\<lambda>p.
     kseq (kmod (upd_proc p (\<lambda>q. q\<lparr>p_chan := Some ch, p_state := SLEEPING\<rparr>)))
          (ksleep ch))"

definition wake :: "chan \<Rightarrow> proc \<Rightarrow> proc" where
  "wake ch q =
     (if p_state q = SLEEPING \<and> p_chan q = Some ch then q\<lparr>p_state := RUNNABLE\<rparr> else q)"

definition wakeup :: "chan \<Rightarrow> ('a proc_state_scheme, unit) kmon" where
  "wakeup ch = kmod (\<lambda>s. s\<lparr>procs := map (wake ch) (procs s)\<rparr>)"

definition kill :: "int \<Rightarrow> ('a proc_state_scheme, int) kmon" where
  "kill pid =
     kbind (kget procs) (\<lambda>ps.
     case find (\<lambda>i. p_pid (ps ! i) = pid) [0..<NPROC] of
       None \<Rightarrow> kret (-1)
     | Some i \<Rightarrow>
         kseq (kmod (upd_proc i (\<lambda>q. q\<lparr>p_killed := True\<rparr>)))
        (kseq (kmod (upd_proc i (\<lambda>q. if p_state q = SLEEPING then q\<lparr>p_state := RUNNABLE\<rparr> else q)))
              (kret 0)))"

definition either_copyout :: "bool \<Rightarrow> uint64 \<Rightarrow> bytes \<Rightarrow> ('a proc_state_scheme, int) kmon" where
  "either_copyout user_dst dst src =
     kbind myproc (\<lambda>p.
     if user_dst then copyout (p_pagetable p) dst src
     else kseq (set_mem (store_bytes dst src)) (kret 0))"

definition either_copyin :: "bool \<Rightarrow> uint64 \<Rightarrow> nat \<Rightarrow> ('a proc_state_scheme, int \<times> bytes) kmon" where
  "either_copyin user_src src len =
     kbind myproc (\<lambda>p.
     if user_src then copyin (p_pagetable p) src len
     else kbind (kget (\<lambda>s. load_bytes src len (mem s))) (\<lambda>bs. kret (0, bs)))"

section \<open>Sleeping locks\<close>

record sleeplock =
  slk_locked :: bool
  slk_pid :: int

text \<open>A lock is a field of a buffer or an inode: its read and update functions stand for the
  pointer, and \<open>ch\<close> for the pointer used as a channel.\<close>

definition initsleeplock :: sleeplock where
  "initsleeplock = \<lparr>slk_locked = False, slk_pid = 0\<rparr>"

definition acquiresleep ::
    "('a proc_state_scheme \<Rightarrow> sleeplock) \<Rightarrow>
     ((sleeplock \<Rightarrow> sleeplock) \<Rightarrow> 'a proc_state_scheme \<Rightarrow> 'a proc_state_scheme) \<Rightarrow>
     chan \<Rightarrow> ('a proc_state_scheme, unit) kmon" where
  "acquiresleep lk upd ch =
     kbind (kget lk) (\<lambda>l.
     if slk_locked l then sleep ch
     else
       kbind myproc (\<lambda>p.
       kmod (upd (\<lambda>l. l\<lparr>slk_locked := True, slk_pid := p_pid p\<rparr>))))"

definition releasesleep ::
    "((sleeplock \<Rightarrow> sleeplock) \<Rightarrow> 'a proc_state_scheme \<Rightarrow> 'a proc_state_scheme) \<Rightarrow>
     chan \<Rightarrow> ('a proc_state_scheme, unit) kmon" where
  "releasesleep upd ch =
     kseq (kmod (upd (\<lambda>l. l\<lparr>slk_locked := False, slk_pid := 0\<rparr>)))
          (wakeup ch)"

definition holdingsleep ::
    "('a proc_state_scheme \<Rightarrow> sleeplock) \<Rightarrow> ('a proc_state_scheme, bool) kmon" where
  "holdingsleep lk =
     kbind myproc (\<lambda>p. kget (\<lambda>s. slk_locked (lk s) \<and> slk_pid (lk s) = p_pid p))"

section \<open>wakeup and kill\<close>

lemma wake_simps [simp]:
  "p_pid (wake ch q) = p_pid q"
  "p_killed (wake ch q) = p_killed q"
  "p_pagetable (wake ch q) = p_pagetable q"
  "p_ofile (wake ch q) = p_ofile q"
  "p_cwd (wake ch q) = p_cwd q"
  "p_sz (wake ch q) = p_sz q"
  "p_tf (wake ch q) = p_tf q"
  by (simp_all add: wake_def)

text \<open>What a series of \<^verbatim>\<open>wakeup\<close> calls does to the table: processes only change from sleeping
  to runnable, everything else of them stays.\<close>

inductive woken :: "proc list \<Rightarrow> proc list \<Rightarrow> bool" where
  woken_refl: "woken ps ps"
| woken_step: "woken ps qs \<Longrightarrow> woken ps (map (wake ch) qs)"

lemma woken_trans: "woken qs rs \<Longrightarrow> woken ps qs \<Longrightarrow> woken ps rs"
  by (induction rule: woken.induct) (auto intro: woken.intros)

lemma woken_length: "woken ps qs \<Longrightarrow> length qs = length ps"
  by (induction rule: woken.induct) auto

lemma woken_nth:
  "woken ps qs \<Longrightarrow> i < length ps \<Longrightarrow>
     p_pid (qs ! i) = p_pid (ps ! i) \<and> p_killed (qs ! i) = p_killed (ps ! i) \<and>
     p_pagetable (qs ! i) = p_pagetable (ps ! i) \<and> p_ofile (qs ! i) = p_ofile (ps ! i) \<and>
     p_cwd (qs ! i) = p_cwd (ps ! i) \<and> p_sz (qs ! i) = p_sz (ps ! i) \<and> p_tf (qs ! i) = p_tf (ps ! i)"
  by (induction rule: woken.induct) (auto simp: woken_length)

end
