(* ===== verification/Virtio.thy ===== *)
theory Virtio
  imports Proc
begin

text \<open>
  \<^verbatim>\<open>src/kernel/virtio_disk.c\<close>: the disk driver. The driver and the device share the
  descriptor table, the available ring and the used ring of queue 0 (record \<open>vdisk\<close>) and the
  data of the buffers named by the descriptors. The device itself is not kernel code: it is
  the field \<open>device\<close> of the state, a function from the shared memory and the disk contents
  to what they are after it has served the requests made available to it (\<open>None\<close> when it
  never answers). What the driver relies on is the hypothesis \<open>virtio_blk_ok\<close>.

  A request is followed to its completion: where the driver sleeps for the interrupt, the
  device runs and then the interrupt handler.
\<close>

section \<open>Buffers (buf.h)\<close>

record buf =
  b_valid :: bool
  b_disk :: bool
  b_dev :: nat
  b_blockno :: nat
  b_lock :: sleeplock
  b_refcnt :: uint32
  b_data :: bytes

section \<open>The shared rings (virtio.h)\<close>

definition NUM :: nat where [params]: "NUM = 8"
definition VRING_DESC_F_NEXT :: ushort where [params]: "VRING_DESC_F_NEXT = 1"
definition VRING_DESC_F_WRITE :: ushort where [params]: "VRING_DESC_F_WRITE = 2"
definition VIRTIO_BLK_T_IN :: uint32 where [params]: "VIRTIO_BLK_T_IN = 0"
definition VIRTIO_BLK_T_OUT :: uint32 where [params]: "VIRTIO_BLK_T_OUT = 1"

text \<open>A descriptor's address: null, the request header (\<^verbatim>\<open>struct virtio_blk_outhdr\<close>: type,
  reserved, sector), the data of a buffer, or the status byte of an \<^verbatim>\<open>info\<close> slot.\<close>

datatype dma =
    DmaNull
  | DmaHeader uint32 uint32 uint64
  | DmaData nat
  | DmaStatus nat

record VRingDesc =
  d_addr :: dma
  d_len :: nat
  d_flags :: ushort
  d_next :: nat

record vdisk =
  v_desc :: "VRingDesc list"
  v_avail_idx :: ushort
  v_avail_ring :: "nat list"
  v_used_id :: ushort
  v_used_elems :: "nat list"
  v_free :: "bool list"
  v_used_idx :: nat
  v_info_b :: "nat option list"
  v_info_status :: "uchar list"

type_synonym disk = "nat \<Rightarrow> bytes"

record disk_state = proc_state +
  bufs :: "buf list"
  vdisk :: vdisk
  device :: "vdisk \<times> bytes list \<times> disk \<Rightarrow> (vdisk \<times> bytes list \<times> disk) option"
  disk :: disk
  disk_trace :: "(nat \<times> bytes) list"

text \<open>\<open>disk_trace\<close> is an auxiliary history of the completed writes, oldest first; no code
  reads it. The disk is addressed by file-system block: sectors \<open>2b\<close> and \<open>2b + 1\<close> are
  block \<open>b\<close>.\<close>

definition set_vdisk :: "(vdisk \<Rightarrow> vdisk) \<Rightarrow> ('a disk_state_scheme, unit) kmon" where
  "set_vdisk f = kmod (\<lambda>s. s\<lparr>vdisk := f (vdisk s)\<rparr>)"

definition upd_buf :: "nat \<Rightarrow> (buf \<Rightarrow> buf) \<Rightarrow> 'a disk_state_scheme \<Rightarrow> 'a disk_state_scheme" where
  "upd_buf i f s = s\<lparr>bufs := (bufs s)[i := f (bufs s ! i)]\<rparr>"

definition set_buf :: "nat \<Rightarrow> (buf \<Rightarrow> buf) \<Rightarrow> ('a disk_state_scheme, unit) kmon" where
  "set_buf i f = kmod (upd_buf i f)"

section \<open>Descriptors\<close>

definition alloc_desc :: "('a disk_state_scheme, nat option) kmon" where
  "alloc_desc =
     kbind (kget (\<lambda>s. v_free (vdisk s))) (\<lambda>fr.
     case find (\<lambda>i. fr ! i) [0..<NUM] of
       None \<Rightarrow> kret None
     | Some i \<Rightarrow>
         kseq (set_vdisk (\<lambda>v. v\<lparr>v_free := (v_free v)[i := False]\<rparr>))
              (kret (Some i)))"

definition free_desc :: "nat \<Rightarrow> ('a disk_state_scheme, unit) kmon" where
  "free_desc i =
     (if i \<ge> NUM then kpanic ''virtio_disk_intr 1''
      else
        kbind (kget (\<lambda>s. v_free (vdisk s))) (\<lambda>fr.
        if fr ! i then kpanic ''virtio_disk_intr 2''
        else
          kseq (set_vdisk (\<lambda>v. v\<lparr>v_desc := (v_desc v)[i := (v_desc v ! i)\<lparr>d_addr := DmaNull\<rparr>]\<rparr>))
         (kseq (set_vdisk (\<lambda>v. v\<lparr>v_free := (v_free v)[i := True]\<rparr>))
               (wakeup ChanDiskFree))))"

text \<open>\<^verbatim>\<open>while (1)\<close> over the chain. Every iteration frees one descriptor and panics on a free
  one, so \<open>NUM + 1\<close> iterations are never exceeded; the fuel is that number.\<close>

primrec free_chain_loop :: "nat \<Rightarrow> nat \<Rightarrow> ('a disk_state_scheme, unit) kmon" where
  "free_chain_loop 0 i = kpanic ''out of fuel''"
| "free_chain_loop (Suc k) i =
     kseq (free_desc i)
    (kbind (kget (\<lambda>s. v_desc (vdisk s) ! i)) (\<lambda>d.
     if d_flags d AND VRING_DESC_F_NEXT \<noteq> 0 then free_chain_loop k (d_next d)
     else kret ()))"

definition free_chain :: "nat \<Rightarrow> ('a disk_state_scheme, unit) kmon" where
  "free_chain i = free_chain_loop (NUM + 1) i"

text \<open>The loop of \<^verbatim>\<open>alloc3_desc\<close>: \<open>got\<close> are \<^verbatim>\<open>idx[0..i-1]\<close>; on failure they are freed again.\<close>

primrec alloc3_loop :: "nat \<Rightarrow> nat list \<Rightarrow> ('a disk_state_scheme, nat list option) kmon" where
  "alloc3_loop 0 got = kret (Some got)"
| "alloc3_loop (Suc k) got =
     kbind alloc_desc (\<lambda>r.
     case r of
       None \<Rightarrow> kseq (kfor got free_desc) (kret None)
     | Some i \<Rightarrow> alloc3_loop k (got @ [i]))"

definition alloc3_desc :: "('a disk_state_scheme, nat list option) kmon" where
  "alloc3_desc = alloc3_loop 3 []"

section \<open>Requests\<close>

text \<open>\<^verbatim>\<open>virtio_disk_intr\<close>: consume the used ring up to \<^verbatim>\<open>used->id\<close>. \<open>used_idx\<close> moves one slot
  per iteration and stops at the latest after a turn of the ring, so \<open>NUM\<close> iterations are
  enough. A null \<^verbatim>\<open>info[id].b\<close> would fault in the kernel.\<close>

primrec intr_loop :: "nat \<Rightarrow> ('a disk_state_scheme, unit) kmon" where
  "intr_loop 0 = kret ()"
| "intr_loop (Suc k) =
     kbind (kget vdisk) (\<lambda>v.
     if v_used_idx v mod NUM \<noteq> unat (v_used_id v) mod NUM then
       (let i = v_used_elems v ! v_used_idx v in
        if v_info_status v ! i \<noteq> 0 then kpanic ''virtio_disk_intr status''
        else
          (case v_info_b v ! i of
             None \<Rightarrow> kpanic ''kerneltrap''
           | Some b \<Rightarrow>
               kseq (set_buf b (\<lambda>x. x\<lparr>b_disk := False\<rparr>))
              (kseq (wakeup (ChanBuf b))
              (kseq (set_vdisk (\<lambda>v. v\<lparr>v_used_idx := (v_used_idx v + 1) mod NUM\<rparr>))
                    (intr_loop k)))))
     else kret ())"

definition virtio_disk_intr :: "('a disk_state_scheme, unit) kmon" where
  "virtio_disk_intr = intr_loop NUM"

text \<open>The device serves what is available: it may change the rings, the data of the buffers
  and the disk. The history records a completed write.\<close>

definition device_runs :: "nat \<Rightarrow> bool \<Rightarrow> ('a disk_state_scheme, unit) kmon" where
  "device_runs b is_write =
     (\<lambda>s. case device s (vdisk s, map b_data (bufs s), disk s) of
        None \<Rightarrow> sleep (ChanBuf b) s
      | Some (v, ds, dk) \<Rightarrow>
          Ok () (s\<lparr>vdisk := v,
                   bufs := map (\<lambda>(x, d). x\<lparr>b_data := d\<rparr>) (zip (bufs s) ds),
                   disk := dk,
                   disk_trace := (if is_write
                     then disk_trace s @ [(b_blockno (bufs s ! b), b_data (bufs s ! b))]
                     else disk_trace s)\<rparr>))"

definition format_descs :: "nat \<Rightarrow> bool \<Rightarrow> nat \<Rightarrow> nat \<Rightarrow> nat \<Rightarrow> nat \<Rightarrow> vdisk \<Rightarrow> vdisk" where
  "format_descs b is_write blockno i0 i1 i2 v =
     v\<lparr>v_desc := ((v_desc v)
         [i0 := \<lparr>d_addr = DmaHeader (if is_write then VIRTIO_BLK_T_OUT else VIRTIO_BLK_T_IN) 0
                              (of_nat (blockno * (BSIZE div 512) mod 2 ^ 32)),
                  d_len = 16, d_flags = VRING_DESC_F_NEXT, d_next = i1\<rparr>,
          i1 := \<lparr>d_addr = DmaData b, d_len = BSIZE,
                  d_flags = (if is_write then 0 else VRING_DESC_F_WRITE) OR VRING_DESC_F_NEXT,
                  d_next = i2\<rparr>,
          i2 := \<lparr>d_addr = DmaStatus i0, d_len = 1, d_flags = VRING_DESC_F_WRITE, d_next = 0\<rparr>]),
       v_info_status := (v_info_status v)[i0 := 0]\<rparr>"

definition make_available :: "nat \<Rightarrow> vdisk \<Rightarrow> vdisk" where
  "make_available i0 v =
     v\<lparr>v_avail_ring := (v_avail_ring v)[unat (v_avail_idx v) mod NUM := i0],
       v_avail_idx := v_avail_idx v + 1\<rparr>"

definition virtio_disk_rw :: "nat \<Rightarrow> bool \<Rightarrow> ('a disk_state_scheme, unit) kmon" where
  "virtio_disk_rw b is_write =
     kbind (kget (\<lambda>s. b_blockno (bufs s ! b))) (\<lambda>blockno.
     kbind alloc3_desc (\<lambda>idx.
     case idx of
       None \<Rightarrow> sleep ChanDiskFree
     | Some ix \<Rightarrow>
         (let i0 = ix ! 0; i1 = ix ! 1; i2 = ix ! 2 in
          kseq (set_vdisk (format_descs b is_write blockno i0 i1 i2))
         (kseq (set_buf b (\<lambda>x. x\<lparr>b_disk := True\<rparr>))
         (kseq (set_vdisk (\<lambda>v. v\<lparr>v_info_b := (v_info_b v)[i0 := Some b]\<rparr>))
         (kseq (set_vdisk (make_available i0))
         (kseq (device_runs b is_write)
         (kseq virtio_disk_intr
         (kbind (kget (\<lambda>s. b_disk (bufs s ! b))) (\<lambda>owned.
          if owned then sleep (ChanBuf b)
          else
            kseq (set_vdisk (\<lambda>v. v\<lparr>v_info_b := (v_info_b v)[i0 := None]\<rparr>))
                 (free_chain i0))))))))))) "

section \<open>The device's contract\<close>

text \<open>\<open>vdisk_idle\<close>: no request in flight. \<open>request_at v h ty sec b st\<close>: the chain of
  descriptors at \<open>h\<close> is a well-formed block request of the virtio specification.
  \<open>virtio_blk_ok\<close>: a device that finds one request made available serves it, moves the
  data, reports status 0 and puts the head on the used ring.\<close>

definition vdisk_idle :: "vdisk \<Rightarrow> bool" where
  "vdisk_idle v \<longleftrightarrow>
     v_free v = replicate NUM True \<and> length (v_desc v) = NUM \<and>
     length (v_avail_ring v) = NUM \<and> length (v_used_elems v) = NUM \<and>
     length (v_info_b v) = NUM \<and> length (v_info_status v) = NUM \<and>
     v_avail_idx v = v_used_id v \<and> v_used_idx v = unat (v_used_id v) mod NUM"

definition request_at :: "vdisk \<Rightarrow> nat \<Rightarrow> uint32 \<Rightarrow> uint64 \<Rightarrow> nat \<Rightarrow> nat \<Rightarrow> bool" where
  "request_at v h ty sec b st \<longleftrightarrow>
     (let d0 = v_desc v ! h; d1 = v_desc v ! d_next d0; d2 = v_desc v ! d_next d1 in
      d_addr d0 = DmaHeader ty 0 sec \<and> d_flags d0 AND VRING_DESC_F_NEXT \<noteq> 0 \<and>
      d_addr d1 = DmaData b \<and> d_len d1 = BSIZE \<and> d_flags d1 AND VRING_DESC_F_NEXT \<noteq> 0 \<and>
      (d_flags d1 AND VRING_DESC_F_WRITE \<noteq> 0) = (ty = VIRTIO_BLK_T_IN) \<and>
      d_addr d2 = DmaStatus st \<and> d_flags d2 AND VRING_DESC_F_WRITE \<noteq> 0 \<and>
      d_flags d2 AND VRING_DESC_F_NEXT = 0)"

definition complete :: "nat \<Rightarrow> nat \<Rightarrow> vdisk \<Rightarrow> vdisk" where
  "complete h st v =
     v\<lparr>v_used_elems := (v_used_elems v)[unat (v_used_id v) mod NUM := h],
       v_used_id := v_used_id v + 1,
       v_info_status := (v_info_status v)[st := 0]\<rparr>"

definition virtio_blk_ok :: "(vdisk \<times> bytes list \<times> disk \<Rightarrow> (vdisk \<times> bytes list \<times> disk) option) \<Rightarrow> bool" where
  "virtio_blk_ok dev \<longleftrightarrow> (\<forall>v ds dk h sec b st.
     v_avail_idx v = v_used_id v + 1 \<and> v_avail_ring v ! (unat (v_used_id v) mod NUM) = h \<and> b < length ds \<longrightarrow>
       (request_at v h VIRTIO_BLK_T_IN sec b st \<longrightarrow>
          dev (v, ds, dk) = Some (complete h st v, ds[b := dk (unat sec div 2)], dk)) \<and>
       (request_at v h VIRTIO_BLK_T_OUT sec b st \<longrightarrow>
          dev (v, ds, dk) = Some (complete h st v, ds, dk(unat sec div 2 := ds ! b))))"

lemma upt8: "[0..<NUM] = [0,1,2,3,4,5,6,7]"
  by (simp add: params upt_rec)

lemma find_upt8: "find P [0..<NUM] = (if P 0 then Some 0 else if P 1 then Some 1 else if P 2 then Some 2 else if P 3 then Some 3
 else if P 4 then Some 4 else if P 5 then Some 5 else if P 6 then Some 6 else if P 7 then Some 7 else None)"
  by (simp only: upt8 find.simps)

lemma replicate_NUM: "replicate NUM x = [x,x,x,x,x,x,x,x]"
  by (simp add: params numeral_eq_Suc)

lemma alloc3_idle:
  assumes "vdisk_idle (vdisk s)"
  shows "alloc3_desc s = Ok (Some [0, 1, 2])
    (s\<lparr>vdisk := (vdisk s)\<lparr>v_free := [False, False, False, True, True, True, True, True]\<rparr>\<rparr>)"
  using assms
  by (simp add: vdisk_idle_def alloc3_desc_def numeral_3_eq_3 alloc_desc_def find_upt8 replicate_NUM set_vdisk_def)


lemma unat_Suc_mod8: "unat (u + 1 :: ushort) mod 8 = Suc (unat u) mod 8"
  by (simp add: unat_word_ariths mod_mod_cancel)

lemma ring_next_differs: "unat (u + 1 :: ushort) mod NUM \<noteq> unat u mod NUM"
proof -
  have "Suc (unat u) mod 8 \<noteq> unat u mod 8" by presburger
  then show ?thesis by (simp add: params unat_Suc_mod8)
qed

lemma zip_data_id: "map (\<lambda>(x, d). x\<lparr>b_data := d\<rparr>) (zip bs (map b_data bs)) = bs"
  by (induction bs) auto

lemma zip_data_update:
  "i < length bs \<Longrightarrow>
   map (\<lambda>(x, d). x\<lparr>b_data := d\<rparr>) (zip bs ((map b_data bs)[i := e])) = bs[i := (bs ! i)\<lparr>b_data := e\<rparr>]"
  by (rule nth_equalityI) (auto simp: nth_list_update)

definition in_flight :: "nat \<Rightarrow> bool \<Rightarrow> nat \<Rightarrow> vdisk \<Rightarrow> vdisk" where
  "in_flight b is_write blockno v =
     make_available 0 ((format_descs b is_write blockno 0 1 2
       (v\<lparr>v_free := [False, False, False, True, True, True, True, True]\<rparr>))
       \<lparr>v_info_b := (v_info_b v)[0 := Some b]\<rparr>)"

lemma sector_no_wrap:
  "blockno < 2 ^ 31 \<Longrightarrow> blockno * (BSIZE div 512) mod 2 ^ 32 = 2 * blockno"
  by (simp add: BSIZE_def)

lemma in_flight_request:
  assumes "vdisk_idle v" and "blockno < 2 ^ 31"
  shows "request_at (in_flight b is_write blockno v) 0
    (if is_write then VIRTIO_BLK_T_OUT else VIRTIO_BLK_T_IN) (of_nat (2 * blockno)) b 0"
proof -
  have "length (v_desc v) = 8"
    using assms(1) by (simp add: vdisk_idle_def NUM_def)
  then show ?thesis
    unfolding request_at_def in_flight_def make_available_def format_descs_def sector_no_wrap [OF assms(2)]
    by (cases is_write) (simp_all add: Let_def VRING_DESC_F_NEXT_def VRING_DESC_F_WRITE_def
      VIRTIO_BLK_T_OUT_def VIRTIO_BLK_T_IN_def del: of_nat_mult)
qed

lemma unat_sector: "blockno < 2 ^ 31 \<Longrightarrow> unat (of_nat (2 * blockno) :: uint64) div 2 = blockno"
  by (subst unat_of_nat_small) simp_all

lemma device_serves:
  assumes "virtio_blk_ok dev" and "vdisk_idle v" and "blockno < 2 ^ 31" and "b < length ds"
  shows "dev (in_flight b is_write blockno v, ds, dk) =
     Some (complete 0 0 (in_flight b is_write blockno v),
           if is_write then ds else ds[b := dk blockno],
           if is_write then dk(blockno := ds ! b) else dk)"
proof -
  let ?w = "in_flight b is_write blockno v"
  have "v_avail_idx ?w = v_used_id ?w + 1" 
    and "v_avail_ring ?w ! (unat (v_used_id ?w) mod NUM) = 0"
    using assms(2) by (simp_all add: in_flight_def make_available_def format_descs_def vdisk_idle_def params)
  with assms in_flight_request [OF assms(2,3), of b is_write] show ?thesis
    unfolding virtio_blk_ok_def by (cases is_write) (auto simp: unat_sector simp del: of_nat_mult)
qed

definition served :: "nat \<Rightarrow> bool \<Rightarrow> nat \<Rightarrow> vdisk \<Rightarrow> vdisk" where
  "served b is_write blockno v = complete 0 0 (in_flight b is_write blockno v)"

lemma intr_served:
  assumes "vdisk_idle v" and "vdisk s = served b is_write blockno v"
  shows "virtio_disk_intr s = Ok () (s\<lparr>bufs := (bufs s)[b := (bufs s ! b)\<lparr>b_disk := False\<rparr>],
      procs := map (wake (ChanBuf b)) (procs s),
      vdisk := (vdisk s)\<lparr>v_used_idx := Suc (v_used_idx v) mod NUM\<rparr>\<rparr>)"
proof -
  note defs = served_def complete_def in_flight_def make_available_def format_descs_def
  have v: "v_used_idx (vdisk s) = unat (v_used_id v) mod NUM" "v_used_id (vdisk s) = v_used_id v + 1"
      "v_info_status (vdisk s) ! 0 = 0" "v_info_b (vdisk s) ! 0 = Some b"
      "v_used_elems (vdisk s) ! (unat (v_used_id v) mod NUM) = 0" 
    using assms by (simp_all add: defs vdisk_idle_def params)
  have ne: "unat (v_used_id v + 1) mod NUM \<noteq> unat (v_used_id v) mod NUM"
    by (rule ring_next_differs)
  have eq: "Suc (unat (v_used_id v) mod NUM) mod NUM = unat (v_used_id v + 1) mod NUM"
    by (simp add: params unat_Suc_mod8 mod_Suc_eq)
  obtain k where "NUM = Suc (Suc k)" by (simp add: params)
  then have "virtio_disk_intr s = intr_loop (Suc (Suc k)) s" by (simp add: virtio_disk_intr_def)
  also have "\<dots> = Ok () (s\<lparr>bufs := (bufs s)[b := (bufs s ! b)\<lparr>b_disk := False\<rparr>],
      procs := map (wake (ChanBuf b)) (procs s),
      vdisk := (vdisk s)\<lparr>v_used_idx := Suc (v_used_idx v) mod NUM\<rparr>\<rparr>)"
    using ne assms(1)
    by (simp add: v set_buf_def upd_buf_def wakeup_def set_vdisk_def eq [symmetric] vdisk_idle_def)
  finally show ?thesis .
qed


definition chained :: "vdisk \<Rightarrow> bool" where
  "chained v \<longleftrightarrow> v_free v = [False, False, False, True, True, True, True, True] \<and> length (v_desc v) = NUM \<and>
    d_flags (v_desc v ! 0) AND VRING_DESC_F_NEXT \<noteq> 0 \<and> d_next (v_desc v ! 0) = 1 \<and>
    d_flags (v_desc v ! 1) AND VRING_DESC_F_NEXT \<noteq> 0 \<and> d_next (v_desc v ! 1) = 2 \<and>
    d_flags (v_desc v ! 2) AND VRING_DESC_F_NEXT = 0"


definition unlinked :: "vdisk \<Rightarrow> vdisk" where
  "unlinked v = v\<lparr>v_desc := (v_desc v)
      [0 := (v_desc v ! 0)\<lparr>d_addr := DmaNull\<rparr>,
       1 := (v_desc v ! 1)\<lparr>d_addr := DmaNull\<rparr>,
       2 := (v_desc v ! 2)\<lparr>d_addr := DmaNull\<rparr>],
     v_free := replicate NUM True\<rparr>"

lemma free_chain_chained:
  assumes "chained (vdisk s)"
  shows "free_chain 0 s = Ok () (s\<lparr>
      procs := map (wake ChanDiskFree) (map (wake ChanDiskFree) (map (wake ChanDiskFree) (procs s))),
      vdisk := unlinked (vdisk s)\<rparr>)"
proof -
  obtain k where k: "NUM + 1 = Suc (Suc (Suc k))" by (simp add: params)
  show ?thesis
    using assms
    unfolding free_chain_def k
    by (cases s) (simp add: free_desc_def chained_def set_vdisk_def wakeup_def replicate_NUM [unfolded NUM_def] params unlinked_def)
qed

lemma served_facts:
  assumes "vdisk_idle v"
  shows "chained ((served b is_write blockno v)\<lparr>v_used_idx := k, v_info_b := l\<rparr>)"
   and "length l = NUM \<Longrightarrow> vdisk_idle (unlinked ((served b is_write blockno v)\<lparr>v_used_idx := Suc (v_used_idx v) mod NUM, v_info_b := l\<rparr>))"
  using assms
  by (simp_all add: chained_def vdisk_idle_def served_def complete_def in_flight_def make_available_def format_descs_def
    unlinked_def params unat_Suc_mod8 mod_Suc_eq)


lemma device_runs_served:
  assumes dev: "virtio_blk_ok (device s)" and idle: "vdisk_idle v" and b: "b < length (bufs s)"
    and bn: "b_blockno (bufs s ! b) < 2 ^ 31"
    and v: "vdisk s = in_flight b is_write (b_blockno (bufs s ! b)) v"
  shows "device_runs b is_write s = Ok () (s\<lparr>
      vdisk := served b is_write (b_blockno (bufs s ! b)) v,
      bufs := (bufs s)[b := (bufs s ! b)\<lparr>b_data :=
        (if is_write then b_data (bufs s ! b) else disk s (b_blockno (bufs s ! b)))\<rparr>],
      disk := (if is_write then (disk s)(b_blockno (bufs s ! b) := b_data (bufs s ! b)) else disk s),
      disk_trace := (if is_write then disk_trace s @ [(b_blockno (bufs s ! b), b_data (bufs s ! b))]
        else disk_trace s)\<rparr>)"
  using device_serves [OF dev idle bn, of b "map b_data (bufs s)" is_write "disk s"] b v
  by (cases is_write) (simp_all add: device_runs_def served_def zip_data_id zip_data_update)

lemma virtio_disk_rw_spec:
  assumes idle: "vdisk_idle (vdisk s)" and dev: "virtio_blk_ok (device s)" and b: "b < length (bufs s)"
    and bn: "b_blockno (bufs s ! b) < 2 ^ 31"
  defines "x \<equiv> bufs s ! b"
  shows "\<exists>v ps. virtio_disk_rw b is_write s = Ok () (s\<lparr>procs := ps, 
      bufs := (bufs s)[b := x\<lparr>b_disk := False, b_data := (if is_write then b_data x else disk s (b_blockno x))\<rparr>],
      vdisk := v,
      disk := (if is_write then (disk s)(b_blockno x := b_data x) else disk s),
      disk_trace := (if is_write then disk_trace s @ [(b_blockno x, b_data x)] else disk_trace s)\<rparr>)
     \<and> vdisk_idle v \<and> woken (procs s) ps"
proof -
  let ?bn = "b_blockno x" and ?v = "vdisk s"
  let ?s1 = "s\<lparr>bufs := (bufs s)[b := x\<lparr>b_disk := True\<rparr>], vdisk := in_flight b is_write ?bn ?v\<rparr>"
  let ?d = "if is_write then b_data x else disk s ?bn"
  let ?s2 = "?s1\<lparr>vdisk := served b is_write ?bn ?v,
      bufs := (bufs s)[b := x\<lparr>b_disk := True, b_data := ?d\<rparr>],
      disk := (if is_write then (disk s)(?bn := b_data x) else disk s),
      disk_trace := (if is_write then disk_trace s @ [(?bn, b_data x)] else disk_trace s)\<rparr>"
  let ?s3 = "?s2\<lparr>bufs := (bufs s)[b := x\<lparr>b_disk := False, b_data := ?d\<rparr>],
      procs := map (wake (ChanBuf b)) (procs s),
      vdisk := (served b is_write ?bn ?v)\<lparr>v_used_idx := Suc (v_used_idx ?v) mod NUM\<rparr>\<rparr>"
  let ?s4 = "?s3\<lparr>vdisk := (vdisk ?s3)\<lparr>v_info_b := (v_info_b (vdisk ?s3))[0 := None]\<rparr>\<rparr>"
  have 1: "device_runs b is_write ?s1 = Ok () ?s2"
    using device_runs_served [of ?s1 ?v b is_write] assms by simp
  have swap: "x\<lparr>b_disk := False, b_data := d\<rparr> = x\<lparr>b_data := d, b_disk := False\<rparr>" for d
    by (cases x) simp
  have 2: "virtio_disk_intr ?s2 = Ok () ?s3"
    using intr_served [OF idle, of ?s2 b is_write ?bn] b by (simp add: swap)
  have 3: "free_chain 0 ?s4 = Ok () (?s4\<lparr>
      procs := map (wake ChanDiskFree) (map (wake ChanDiskFree) (map (wake ChanDiskFree) (procs ?s4))),
      vdisk := unlinked (vdisk ?s4)\<rparr>)"
    by (rule free_chain_chained) (simp add: served_facts [OF idle])
  have 0: "virtio_disk_rw b is_write s =
     kseq (device_runs b is_write) (kseq virtio_disk_intr
         (kbind (kget (\<lambda>s. b_disk (bufs s ! b))) (\<lambda>owned.
          if owned then sleep (ChanBuf b)
          else
            kseq (set_vdisk (\<lambda>v. v\<lparr>v_info_b := (v_info_b v)[0 := None]\<rparr>))
                 (free_chain 0)))) ?s1"
    using b
    by (simp add: virtio_disk_rw_def alloc3_idle [OF idle] x_def set_vdisk_def set_buf_def upd_buf_def
      Let_def in_flight_def format_descs_def cong: if_cong)
  have 4: "virtio_disk_rw b is_write s = free_chain 0 ?s4"
    unfolding 0 kseq_def kbind_def 1 outcome.case 2 using b by (simp add: set_vdisk_def)
  let ?ps = "map (wake ChanDiskFree) (map (wake ChanDiskFree) (map (wake ChanDiskFree) (procs ?s4)))"
  have "length (v_info_b (served b is_write ?bn ?v)) = NUM"
    using idle by (simp add: served_def complete_def in_flight_def make_available_def format_descs_def vdisk_idle_def)
  then have "vdisk_idle (unlinked (vdisk ?s4))"
    using served_facts(2) [OF idle] by simp
  moreover have "woken (procs s) ?ps"
    by (simp del: map_map) (intro woken.intros)
  moreover have "virtio_disk_rw b is_write s = Ok () (s\<lparr>procs := ?ps,
      bufs := (bufs s)[b := x\<lparr>b_disk := False, b_data := ?d\<rparr>], vdisk := unlinked (vdisk ?s4),
      disk := (if is_write then (disk s)(?bn := b_data x) else disk s),
      disk_trace := (if is_write then disk_trace s @ [(?bn, b_data x)] else disk_trace s)\<rparr>)"
    unfolding 4 3 by (rule arg_cong [where f = "Ok ()"]) (cases s, simp)
  ultimately show ?thesis by blast
qed

end
