(* ===== verification/Lru.thy ===== *)
theory Lru
  imports Params
begin

text \<open>
  The list of buffers of \<^verbatim>\<open>src/kernel/bio.c\<close>: a doubly linked ring through the \<^verbatim>\<open>prev\<close> and
  \<^verbatim>\<open>next\<close> fields of the buffers and of \<^verbatim>\<open>bcache.head\<close>. A buffer is its index in
  \<^verbatim>\<open>bcache.buf\<close>, and \<open>BHEAD\<close>, the index after the last one, is \<^verbatim>\<open>bcache.head\<close>. The pointer
  operations of \<^verbatim>\<open>binit\<close>, \<^verbatim>\<open>bget\<close> and \<^verbatim>\<open>brelse\<close> are shown to implement operations on the
  list of buffers from the most to the least recently used one.
\<close>

definition BHEAD :: nat where [params]: "BHEAD = NBUF"

record links =
  lnext :: "nat \<Rightarrow> nat"
  lprev :: "nat \<Rightarrow> nat"

text \<open>\<^verbatim>\<open>b->next->prev = b->prev; b->prev->next = b->next\<close> and the insertion after the head.\<close>

definition unlink_buf :: "nat \<Rightarrow> links \<Rightarrow> links" where
  "unlink_buf b l =
     (let l1 = l\<lparr>lprev := (lprev l)(lnext l b := lprev l b)\<rparr> in
      l1\<lparr>lnext := (lnext l1)(lprev l1 b := lnext l1 b)\<rparr>)"

definition link_head :: "nat \<Rightarrow> links \<Rightarrow> links" where
  "link_head b l =
     (let l1 = l\<lparr>lnext := (lnext l)(b := lnext l BHEAD)\<rparr>;
          l2 = l1\<lparr>lprev := (lprev l1)(b := BHEAD)\<rparr>;
          l3 = l2\<lparr>lprev := (lprev l2)(lnext l2 BHEAD := b)\<rparr> in
      l3\<lparr>lnext := (lnext l3)(BHEAD := b)\<rparr>)"

text \<open>The list part of \<^verbatim>\<open>binit\<close>.\<close>

definition binit_links :: "links \<Rightarrow> links" where
  "binit_links l =
     fold link_head [0..<NBUF]
       (l\<lparr>lprev := (lprev l)(BHEAD := BHEAD), lnext := (lnext l)(BHEAD := BHEAD)\<rparr>)"

text \<open>\<^verbatim>\<open>for (b = ...; b != &bcache.head; b = b->next)\<close>: the first buffer with \<open>P\<close>. The ring
  has at most \<open>NBUF\<close> buffers, so a fuel of \<open>Suc NBUF\<close> always reaches the head
  (\<open>scan_next\<close> and \<open>scan_prev\<close> below).\<close>

primrec scan :: "nat \<Rightarrow> (nat \<Rightarrow> nat) \<Rightarrow> (nat \<Rightarrow> bool) \<Rightarrow> nat \<Rightarrow> nat option" where
  "scan 0 step P b = None"
| "scan (Suc k) step P b =
     (if b = BHEAD then None else if P b then Some b else scan k step P (step b))"

section \<open>Rings and lists\<close>

text \<open>\<open>chain step a xs c\<close>: following \<open>step\<close> from \<open>a\<close> visits \<open>xs\<close> and then \<open>c\<close>.\<close>

fun chain :: "(nat \<Rightarrow> nat) \<Rightarrow> nat \<Rightarrow> nat list \<Rightarrow> nat \<Rightarrow> bool" where
  "chain step a [] c \<longleftrightarrow> step a = c"
| "chain step a (x # xs) c \<longleftrightarrow> step a = x \<and> chain step x xs c"

definition ring_of :: "links \<Rightarrow> nat list \<Rightarrow> bool" where
  "ring_of l xs \<longleftrightarrow>
     chain (lnext l) BHEAD xs BHEAD \<and> chain (lprev l) BHEAD (rev xs) BHEAD \<and>
     distinct xs \<and> BHEAD \<notin> set xs"

lemma chain_append:
  "chain step a (xs @ y # ys) c \<longleftrightarrow> chain step a xs y \<and> chain step y ys c"
  by (induction xs arbitrary: a) auto

lemma chain_upd:
  "p \<notin> set xs \<Longrightarrow> p \<noteq> a \<Longrightarrow> chain (step(p := q)) a xs c = chain step a xs c"
  by (induction xs arbitrary: a) auto

lemma chain_at: "chain step a (us @ b # vs) c \<Longrightarrow> step b = hd (vs @ [c])"
  by (cases vs) (auto simp: chain_append)

lemma chain_first: "chain step a xs c \<Longrightarrow> step a = hd (xs @ [c])"
  by (cases xs) auto

lemma chain_skip:
  "chain step a (us @ b # vs) c \<Longrightarrow> distinct (a # us @ vs) \<Longrightarrow>
     chain (step(last (a # us) := hd (vs @ [c]))) a (us @ vs) c"
proof (induction us arbitrary: a)
  case Nil
  then show ?case by (cases vs) (auto simp: chain_upd [unfolded fun_upd_def] fun_upd_def)
next
  case (Cons u us)
  then have "last (u # us) \<noteq> a"
    using last_in_set [of "u # us"] by auto
  with Cons show ?case by (simp del: last.simps add: last_ConsR)
qed

lemma chain_start:
  "chain step a xs c \<Longrightarrow> b \<notin> set xs \<Longrightarrow> chain (step(b := step a)) b xs c"
  by (cases xs) (auto simp: chain_upd)

lemma chain_end:
  "chain step a xs c \<Longrightarrow> distinct (a # xs) \<Longrightarrow> chain (step(last (a # xs) := d)) a xs d"
proof (induction xs arbitrary: a)
  case (Cons x xs)
  then have "last (x # xs) \<noteq> a"
    using last_in_set [of "x # xs"] by auto
  with Cons show ?case by (simp del: last.simps add: last_ConsR)
qed simp

lemma scan_chain:
  "chain step a xs BHEAD \<Longrightarrow> BHEAD \<notin> set xs \<Longrightarrow> length xs < k \<Longrightarrow>
     scan k step P (step a) = find P xs"
proof (induction xs arbitrary: a k)
  case Nil
  then show ?case by (cases k) auto
next
  case (Cons x xs)
  then show ?case by (cases k) auto
qed

lemma scan_next:
  assumes "ring_of l xs" and "length xs < k"
  shows "scan k (lnext l) P (lnext l BHEAD) = find P xs"
  using assms by (auto simp: ring_of_def intro: scan_chain)

lemma scan_prev:
  assumes "ring_of l xs" and "length xs < k"
  shows "scan k (lprev l) P (lprev l BHEAD) = find P (rev xs)"
  using assms by (auto simp: ring_of_def intro: scan_chain)

declare scan.simps [simp del]

section \<open>The list operations\<close>

lemma last_head_rev: "last (h # rev xs) = hd (xs @ [h])"
  by (cases xs) auto

lemma unlink_ring:
  assumes "ring_of l (us @ b # vs)"
  shows "ring_of (unlink_buf b l) (us @ vs)"
proof -
  have nx: "chain (lnext l) BHEAD (us @ b # vs) BHEAD"
    and pv: "chain (lprev l) BHEAD (rev vs @ b # rev us) BHEAD"
    and d: "distinct (us @ b # vs)" "BHEAD \<notin> set (us @ b # vs)"
    using assms by (simp_all add: ring_of_def)
  have "lnext l b = hd (vs @ [BHEAD])" and "lprev l b = hd (rev us @ [BHEAD])"
    using chain_at [OF nx] chain_at [OF pv] by simp_all
  moreover have "hd (vs @ [BHEAD]) \<noteq> b"
    using d by (cases vs) auto
  ultimately have "lnext (unlink_buf b l) = (lnext l)(last (BHEAD # us) := hd (vs @ [BHEAD]))"
      and "lprev (unlink_buf b l) = (lprev l)(last (BHEAD # rev vs) := hd (rev us @ [BHEAD]))"
    using last_head_rev [of BHEAD "rev us"] last_head_rev [of BHEAD vs]
    by (auto simp: unlink_buf_def Let_def)
  then show ?thesis
    using chain_skip [OF nx] chain_skip [OF pv] d unfolding ring_of_def by (simp add: Int_commute)
qed

lemma link_head_ring:
  assumes "ring_of l xs" and "b \<notin> set xs" and "b \<noteq> BHEAD"
  shows "ring_of (link_head b l) (b # xs)"
proof -
  have nx: "chain (lnext l) BHEAD xs BHEAD" and pv: "chain (lprev l) BHEAD (rev xs) BHEAD"
    and d: "distinct (BHEAD # xs)"
    using assms(1) by (simp_all add: ring_of_def)
  have last: "lnext l BHEAD = last (BHEAD # rev xs)"
    using chain_first [OF nx] last_head_rev by metis
  let ?nx = "(lnext l)(b := lnext l BHEAD)"
  let ?pv = "(lprev l)(b := BHEAD)"
  have n: "lnext (link_head b l) = ?nx(BHEAD := b)"
    using assms(3) by (simp add: link_head_def Let_def)
  have p: "lprev (link_head b l) = ?pv(last (BHEAD # rev xs) := b)"
    using assms(3) unfolding last [symmetric] by (simp add: link_head_def Let_def)
  have "chain (?nx(BHEAD := b)) BHEAD (b # xs) BHEAD"
    using chain_start [OF nx assms(2)] d assms(3) by (simp add: chain_upd)
  moreover have "chain (?pv(last (BHEAD # rev xs) := b)) BHEAD (rev xs) b"
    using pv d assms(2,3) by (intro chain_end) (auto simp: chain_upd)
  moreover have "last (BHEAD # rev xs) \<noteq> b"
    using assms(2,3) last_in_set [of "BHEAD # rev xs"] by auto
  ultimately show ?thesis
    using d assms(2,3) unfolding ring_of_def n p by (simp add: chain_append)
qed

text \<open>\<^verbatim>\<open>brelse\<close> of the last reference: the buffer moves to the front.\<close>

definition move_to_front :: "nat \<Rightarrow> nat list \<Rightarrow> nat list" where
  "move_to_front b xs = b # remove1 b xs"

lemma release_ring:
  assumes "ring_of l xs" and "b \<in> set xs"
  shows "ring_of (link_head b (unlink_buf b l)) (move_to_front b xs)"
proof -
  obtain us vs where xs: "xs = us @ b # vs" and "b \<notin> set us"
    using split_list_first [OF assms(2)] by blast
  moreover have "b \<noteq> BHEAD" and "b \<notin> set vs"
    using assms xs by (auto simp: ring_of_def)
  ultimately show ?thesis
    using unlink_ring [of l us b vs] assms(1)
    by (auto simp: move_to_front_def remove1_append intro: link_head_ring)
qed

lemma set_move_to_front [simp]: "b \<in> set xs \<Longrightarrow> set (move_to_front b xs) = set xs"
  unfolding move_to_front_def using set_remove1_subset [of b xs] by (auto intro: in_set_remove1 [THEN iffD2])

lemma fold_link_head_ring:
  "ring_of l xs \<Longrightarrow> distinct (ys @ xs) \<Longrightarrow> BHEAD \<notin> set ys \<Longrightarrow> ring_of (fold link_head ys l) (rev ys @ xs)"
proof (induction ys arbitrary: l xs)
  case (Cons y ys)
  then show ?case using Cons.IH [OF link_head_ring, of l xs y] by simp
qed simp

lemma binit_ring: "ring_of (binit_links l) (rev [0..<NBUF])"
proof -
  have "ring_of (l\<lparr>lprev := (lprev l)(BHEAD := BHEAD), lnext := (lnext l)(BHEAD := BHEAD)\<rparr>) []"
    by (simp add: ring_of_def)
  from fold_link_head_ring [OF this, of "[0..<NBUF]"] show ?thesis
    by (simp add: binit_links_def BHEAD_def)
qed

lemma ring_length:
  assumes "ring_of l xs" and "set xs = {..<NBUF}"
  shows "length xs = NBUF"
  using assms distinct_card [of xs] by (simp add: ring_of_def)

end
