(* ===== verification/Bio.thy ===== *)
theory Bio
  imports Virtio Lru
begin

text \<open>
  \<^verbatim>\<open>src/kernel/bio.c\<close>: the buffer cache. The first part is the code; the second part is the
  contract the rest of the file system relies on. A client sees a store of blocks
  (\<open>c_view\<close>), how often each block is referenced, which blocks' buffers it holds locked,
  and what is on the disk; which buffer caches which block, the order of the ring and the
  recycling of buffers are invisible. \<^verbatim>\<open>force_read_error_pbn\<close> and \<^verbatim>\<open>force_disk_fail_id\<close> are
  the fault-injection flags that \<^verbatim>\<open>src/kernel/sysfile.c\<close> sets.
\<close>

record bio_state = disk_state +
  links :: links
  force_read_error_pbn :: int
  force_disk_fail_id :: int

definition set_links :: "(links \<Rightarrow> links) \<Rightarrow> ('a bio_state_scheme, unit) kmon" where
  "set_links f = kmod (\<lambda>s. s\<lparr>links := f (links s)\<rparr>)"

section \<open>The code\<close>

definition binit :: "('a bio_state_scheme, unit) kmon" where
  "binit =
     kseq (set_links binit_links)
          (kfor [0..<NBUF] (\<lambda>b. set_buf b (\<lambda>x. x\<lparr>b_lock := initsleeplock\<rparr>)))"

text \<open>\<^verbatim>\<open>acquiresleep(&b->lock)\<close>, \<^verbatim>\<open>releasesleep(&b->lock)\<close>, \<^verbatim>\<open>holdingsleep(&b->lock)\<close>.\<close>

definition lock_buf :: "nat \<Rightarrow> ('a bio_state_scheme, unit) kmon" where
  "lock_buf b =
     acquiresleep (\<lambda>s. b_lock (bufs s ! b)) (\<lambda>f. upd_buf b (\<lambda>x. x\<lparr>b_lock := f (b_lock x)\<rparr>))
       (ChanBufLock b)"

definition unlock_buf :: "nat \<Rightarrow> ('a bio_state_scheme, unit) kmon" where
  "unlock_buf b =
     releasesleep (\<lambda>f. upd_buf b (\<lambda>x. x\<lparr>b_lock := f (b_lock x)\<rparr>)) (ChanBufLock b)"

definition holding_buf :: "nat \<Rightarrow> ('a bio_state_scheme, bool) kmon" where
  "holding_buf b = holdingsleep (\<lambda>s. b_lock (bufs s ! b))"

definition bget :: "nat \<Rightarrow> nat \<Rightarrow> ('a bio_state_scheme, nat) kmon" where
  "bget dev blockno =
     kbind (kget (\<lambda>s. scan (Suc NBUF) (lnext (links s))
              (\<lambda>b. b_dev (bufs s ! b) = dev \<and> b_blockno (bufs s ! b) = blockno)
              (lnext (links s) BHEAD))) (\<lambda>hit.
     case hit of
       Some b \<Rightarrow>
         kseq (set_buf b (\<lambda>x. x\<lparr>b_refcnt := b_refcnt x + 1\<rparr>))
        (kseq (lock_buf b)
              (kret b))
     | None \<Rightarrow>
         kbind (kget (\<lambda>s. scan (Suc NBUF) (lprev (links s))
                  (\<lambda>b. b_refcnt (bufs s ! b) = 0)
                  (lprev (links s) BHEAD))) (\<lambda>victim.
         case victim of
           Some b \<Rightarrow>
             kseq (set_buf b (\<lambda>x. x\<lparr>b_dev := dev, b_blockno := blockno, b_valid := False,
                                     b_refcnt := 1\<rparr>))
            (kseq (lock_buf b)
                  (kret b))
         | None \<Rightarrow> kpanic ''bget: no buffers''))"

definition bread :: "nat \<Rightarrow> nat \<Rightarrow> ('a bio_state_scheme, nat) kmon" where
  "bread dev blockno =
     kbind (kget force_disk_fail_id) (\<lambda>fail_disk.
     kbind (bget dev blockno) (\<lambda>b.
     kbind (kget (\<lambda>s. (int (b_blockno (bufs s ! b)) = force_read_error_pbn s \<and>
                        force_read_error_pbn s \<noteq> -1) \<or> fail_disk \<noteq> -1)) (\<lambda>is_forced_fail_target.
     kbind (kget (\<lambda>s. b_valid (bufs s ! b))) (\<lambda>valid.
     kseq (kwhen (\<not> valid \<or> is_forced_fail_target)
            (kseq (virtio_disk_rw b False)
                  (set_buf b (\<lambda>x. x\<lparr>b_valid := True\<rparr>))))
          (kret b)))))"

definition bwrite :: "nat \<Rightarrow> ('a bio_state_scheme, unit) kmon" where
  "bwrite b =
     kbind (holding_buf b) (\<lambda>h.
     if \<not> h then kpanic ''bwrite'' else virtio_disk_rw b True)"

definition brelse :: "nat \<Rightarrow> ('a bio_state_scheme, unit) kmon" where
  "brelse b =
     kbind (holding_buf b) (\<lambda>h.
     if \<not> h then kpanic ''brelse''
     else
       kseq (unlock_buf b)
      (kseq (set_buf b (\<lambda>x. x\<lparr>b_refcnt := b_refcnt x - 1\<rparr>))
      (kbind (kget (\<lambda>s. b_refcnt (bufs s ! b))) (\<lambda>r.
       kwhen (r = 0)
         (kseq (set_links (unlink_buf b))
               (set_links (link_head b)))))))"

definition bpin :: "nat \<Rightarrow> ('a bio_state_scheme, unit) kmon" where
  "bpin b = set_buf b (\<lambda>x. x\<lparr>b_refcnt := b_refcnt x + 1\<rparr>)"

definition bunpin :: "nat \<Rightarrow> ('a bio_state_scheme, unit) kmon" where
  "bunpin b = set_buf b (\<lambda>x. x\<lparr>b_refcnt := b_refcnt x - 1\<rparr>)"

text \<open>Reads and writes of \<^verbatim>\<open>b->data\<close> by the code above the cache.\<close>

definition buf_data :: "nat \<Rightarrow> ('a bio_state_scheme, bytes) kmon" where
  "buf_data b = kget (\<lambda>s. b_data (bufs s ! b))"

definition set_data :: "nat \<Rightarrow> bytes \<Rightarrow> ('a bio_state_scheme, unit) kmon" where
  "set_data b d = set_buf b (\<lambda>x. x\<lparr>b_data := d\<rparr>)"

end
