(* ===== verification/Bio_Cache.thy ===== *)
theory Bio_Cache
  imports Bio
begin

text \<open>
  The contract of the buffer cache. \<open>acache\<close> maps a state to what a client of \<^verbatim>\<open>bread\<close>,
  \<^verbatim>\<open>bwrite\<close>, \<^verbatim>\<open>brelse\<close>, \<^verbatim>\<open>bpin\<close> and \<^verbatim>\<open>bunpin\<close> can observe; \<open>bio_ok\<close> is the invariant of
  the cache between operations; each operation is shown to act on the view alone and to keep
  the invariant. The setting is one running process: a buffer that is locked is locked by it.
\<close>

section \<open>What the clients see\<close>

record cache =
  c_view :: "nat \<Rightarrow> bytes"
  c_refs :: "nat \<Rightarrow> nat"
  c_held :: "nat set"
  c_disk :: disk
  c_trace :: "(nat \<times> bytes) list"

definition names :: "nat \<Rightarrow> buf \<Rightarrow> bool" where
  "names b x \<longleftrightarrow> b_dev x = ROOTDEV \<and> b_blockno x = b"

definition cached :: "buf list \<Rightarrow> nat \<Rightarrow> nat option" where
  "cached bs b = find (\<lambda>i. names b (bs ! i)) [0..<NBUF]"

definition cview :: "buf list \<Rightarrow> disk \<Rightarrow> nat \<Rightarrow> bytes" where
  "cview bs dk b =
     (case cached bs b of
        Some i \<Rightarrow> if b_valid (bs ! i) then b_data (bs ! i) else dk b
      | None \<Rightarrow> dk b)"

definition crefs :: "buf list \<Rightarrow> nat \<Rightarrow> nat" where
  "crefs bs b = (case cached bs b of Some i \<Rightarrow> unat (b_refcnt (bs ! i)) | None \<Rightarrow> 0)"

definition cheld :: "buf list \<Rightarrow> nat set" where
  "cheld bs = {b. case cached bs b of Some i \<Rightarrow> slk_locked (b_lock (bs ! i)) | None \<Rightarrow> False}"

definition acache :: "'a bio_state_scheme \<Rightarrow> cache" where
  "acache s = \<lparr>c_view = cview (bufs s) (disk s), c_refs = crefs (bufs s), c_held = cheld (bufs s),
     c_disk = disk s, c_trace = disk_trace s\<rparr>"

text \<open>The invariant between operations. A buffer in use names a block of the device, is valid
  and, when locked, locked by the running process; one that is not in use is unlocked and, if
  valid, equal to its block. No block is cached twice.\<close>

definition buf_ok :: "disk \<Rightarrow> int \<Rightarrow> buf \<Rightarrow> bool" where
  "buf_ok dk pid x \<longleftrightarrow>
     length (b_data x) = BSIZE \<and> \<not> b_disk x \<and> b_blockno x < 2 ^ 31 \<and>
     (if b_refcnt x = 0
      then \<not> slk_locked (b_lock x) \<and> (b_dev x = ROOTDEV \<and> b_valid x \<longrightarrow> b_data x = dk (b_blockno x))
      else b_dev x = ROOTDEV \<and> b_valid x \<and> (slk_locked (b_lock x) \<longrightarrow> slk_pid (b_lock x) = pid))"

definition bufs_ok :: "disk \<Rightarrow> int \<Rightarrow> buf list \<Rightarrow> bool" where
  "bufs_ok dk pid bs \<longleftrightarrow>
     length bs = NBUF \<and> (\<forall>x\<in>set bs. buf_ok dk pid x) \<and>
     (\<forall>i<NBUF. \<forall>j<NBUF. \<forall>b. names b (bs ! i) \<longrightarrow> names b (bs ! j) \<longrightarrow> i = j)"

definition bio_ok :: "'a bio_state_scheme \<Rightarrow> bool" where
  "bio_ok s \<longleftrightarrow>
     bufs_ok (disk s) (p_pid (myproc_of s)) (bufs s) \<and>
     (\<exists>xs. ring_of (links s) xs \<and> set xs = {..<NBUF}) \<and>
     vdisk_idle (vdisk s) \<and> virtio_blk_ok (device s) \<and>
     (\<forall>b. length (disk s b) = BSIZE) \<and>
     force_read_error_pbn s = -1 \<and> force_disk_fail_id s = -1 \<and>
     cur s < length (procs s)"

lemma buf_okD:
  "bufs_ok dk pid bs \<Longrightarrow> i < NBUF \<Longrightarrow> buf_ok dk pid (bs ! i)"
  "bufs_ok dk pid bs \<Longrightarrow> length bs = NBUF"
  by (simp_all add: bufs_ok_def)

lemma cached_Some: "bufs_ok dk pid bs \<Longrightarrow> cached bs b = Some i \<longleftrightarrow> i < NBUF \<and> names b (bs ! i)"
proof
  assume "cached bs b = Some i"
  then show "i < NBUF \<and> names b (bs ! i)" unfolding cached_def by (auto simp: find_Some_iff)
next
  assume ok: "bufs_ok dk pid bs" and i: "i < NBUF \<and> names b (bs ! i)"
  then obtain j where j: "cached bs b = Some j"
    unfolding cached_def by (cases "find (\<lambda>i. names b (bs ! i)) [0..<NBUF]") (auto simp: find_None_iff)
  then have "j < NBUF" "names b (bs ! j)" unfolding cached_def by (auto simp: find_Some_iff)
  then have "j = i" using ok i unfolding bufs_ok_def by blast
  with j show "cached bs b = Some i" by simp
qed

lemma cached_None: "cached bs b = None \<longleftrightarrow> (\<forall>i<NBUF. \<not> names b (bs ! i))"
  by (auto simp: cached_def find_None_iff)

text \<open>Writing buffer \<open>i\<close>, which caches \<open>b\<close> before or is recycled for it.\<close>

definition usable :: "buf list \<Rightarrow> nat \<Rightarrow> nat \<Rightarrow> bool" where
  "usable bs b i \<longleftrightarrow> i < NBUF \<and>
     (names b (bs ! i) \<or> b_refcnt (bs ! i) = 0 \<and> (\<forall>j<NBUF. \<not> names b (bs ! j)))"

lemma bufs_ok_upd:
  assumes "bufs_ok dk pid bs" and "usable bs b i" and "names b y" and "buf_ok dk pid y"
  shows "bufs_ok dk pid (bs[i := y])"
proof -
  have "\<forall>x\<in>set (bs[i := y]). buf_ok dk pid x"
    using assms set_update_subset_insert [of bs i y] by (auto simp: bufs_ok_def)
  moreover have "j = k" if "j < NBUF" "k < NBUF" "names c (bs[i := y] ! j)" "names c (bs[i := y] ! k)" for j k c
  proof -
    have u: "l = m" if "l < NBUF" "m < NBUF" "names d (bs ! l)" "names d (bs ! m)" for l m d
      using assms(1) that unfolding bufs_ok_def by blast
    have "c = b" if "names c y" using assms(3) that by (simp add: names_def)
    with that assms(1,2) u show ?thesis
      by (auto simp: nth_list_update usable_def bufs_ok_def split: if_splits)
  qed
  ultimately show ?thesis
    using assms(1) by (auto simp: bufs_ok_def)
qed

lemma cached_upd:
  assumes "bufs_ok dk pid bs" and "usable bs b i" and "names b y" and "buf_ok dk pid y"
  shows "cached (bs[i := y]) c =
    (if c = b then Some i else if cached bs c = Some i then None else cached bs c)"
proof -
  have len: "length bs = NBUF" and i: "i < NBUF"
    using assms by (simp_all add: bufs_ok_def usable_def)
  have upd: "cached (bs[i := y]) d = Some j \<longleftrightarrow> j < NBUF \<and> names d (bs[i := y] ! j)" for d j
    by (rule cached_Some [OF bufs_ok_upd [OF assms]])
  show ?thesis
  proof (cases "c = b")
    case True
    then show ?thesis using upd [of b i] i len assms(3) by simp
  next
    case False
    then have "\<not> names c y" using assms(3) by (simp add: names_def)
    then have eq: "cached (bs[i := y]) c = Some j \<longleftrightarrow> j \<noteq> i \<and> cached bs c = Some j" for j
      using len i unfolding upd cached_Some [OF assms(1)] by (cases "j = i") auto
    show ?thesis
    proof (cases "cached (bs[i := y]) c")
      case None
      then show ?thesis using False eq by (metis not_None_eq)
    next
      case (Some j)
      then show ?thesis using False eq [of j] by simp
    qed
  qed
qed

lemma usable_other:
  assumes "bufs_ok dk pid bs" and "usable bs b i" and "c \<noteq> b" and "cached bs c = Some i"
  shows "b_refcnt (bs ! i) = 0" and "\<not> slk_locked (b_lock (bs ! i))"
    and "b_valid (bs ! i) \<Longrightarrow> b_data (bs ! i) = dk c"
proof -
  have n: "names c (bs ! i)" "i < NBUF" using assms cached_Some by auto
  with assms(2,3) show r: "b_refcnt (bs ! i) = 0" by (auto simp: usable_def names_def)
  then show "\<not> slk_locked (b_lock (bs ! i))" and "b_valid (bs ! i) \<Longrightarrow> b_data (bs ! i) = dk c"
    using buf_okD(1) [OF assms(1) n(2)] n(1) by (auto simp: buf_ok_def names_def)
qed

lemma abs_upd:
  assumes "bufs_ok dk pid bs" and "usable bs b i" and "names b y" and "buf_ok dk pid y"
  shows "cview (bs[i := y]) dk = (cview bs dk)(b := if b_valid y then b_data y else dk b)"
    and "crefs (bs[i := y]) = (crefs bs)(b := unat (b_refcnt y))"
    and "cheld (bs[i := y]) = (if slk_locked (b_lock y) then insert b (cheld bs) else cheld bs - {b})"
proof -
  have len: "length bs = NBUF" and i: "i < NBUF"
    using assms by (simp_all add: bufs_ok_def usable_def)
  note up = cached_upd [OF assms]
  show "cview (bs[i := y]) dk = (cview bs dk)(b := if b_valid y then b_data y else dk b)"
  proof (rule ext)
    fix c
    show "cview (bs[i := y]) dk c = ((cview bs dk)(b := if b_valid y then b_data y else dk b)) c"
      using len i usable_other(3) [OF assms(1,2), of c]
      by (cases "cached bs c") (auto simp: cview_def up nth_list_update)
  qed
  show "crefs (bs[i := y]) = (crefs bs)(b := unat (b_refcnt y))"
  proof (rule ext)
    fix c
    show "crefs (bs[i := y]) c = ((crefs bs)(b := unat (b_refcnt y))) c"
      using len i usable_other(1) [OF assms(1,2), of c]
      by (cases "cached bs c") (auto simp: crefs_def up nth_list_update)
  qed
  show "cheld (bs[i := y]) = (if slk_locked (b_lock y) then insert b (cheld bs) else cheld bs - {b})"
  proof (rule set_eqI)
    fix c
    show "c \<in> cheld (bs[i := y]) \<longleftrightarrow>
      c \<in> (if slk_locked (b_lock y) then insert b (cheld bs) else cheld bs - {b})"
      using len i usable_other(2) [OF assms(1,2), of c]
      by (cases "cached bs c") (auto simp: cheld_def up nth_list_update)
  qed
qed

section \<open>The operations on the client's view\<close>

text \<open>\<open>buf_for s i b\<close>: buffer \<open>i\<close> is block \<open>b\<close>, locked. \<open>bstep B s s'\<close>: what any sequence of
  cache operations leaves alone: all state outside the cache and the disk (sleepers may
  have been woken), and which buffer holds a locked block, for the blocks not in \<open>B\<close>.\<close>

definition buf_for :: "'a bio_state_scheme \<Rightarrow> nat \<Rightarrow> nat \<Rightarrow> bool" where
  "buf_for s i b \<longleftrightarrow> i < NBUF \<and> names b (bufs s ! i) \<and> slk_locked (b_lock (bufs s ! i))"

definition bframe :: "'a bio_state_scheme \<Rightarrow> 'a bio_state_scheme \<Rightarrow> bool" where
  "bframe s s' \<longleftrightarrow>
     (\<exists>ps bs v dk tr l. woken (procs s) ps \<and>
        s' = s\<lparr>procs := ps, bufs := bs, vdisk := v, disk := dk, disk_trace := tr, links := l\<rparr>)"

definition bstep :: "nat set \<Rightarrow> 'a bio_state_scheme \<Rightarrow> 'a bio_state_scheme \<Rightarrow> bool" where
  "bstep B s s' \<longleftrightarrow> bio_ok s' \<and> bframe s s' \<and> (\<forall>i b. b \<notin> B \<longrightarrow> buf_for s i b \<longrightarrow> buf_for s' i b)"

lemma bframe_refl: "bframe s s"
  unfolding bframe_def
  by (rule exI [of _ "procs s"], rule exI [of _ "bufs s"], rule exI [of _ "vdisk s"], rule exI [of _ "disk s"],
      rule exI [of _ "disk_trace s"], rule exI [of _ "links s"]) (simp add: woken.intros)

lemma bframe_trans: "bframe s t \<Longrightarrow> bframe t u \<Longrightarrow> bframe s u"
  unfolding bframe_def by clarsimp (blast intro: woken_trans)

lemma bframe_myproc: "bframe s t \<Longrightarrow> cur s < length (procs s) \<Longrightarrow> p_pid (myproc_of t) = p_pid (myproc_of s)"
  by (auto simp: bframe_def myproc_of_def woken_nth)

lemma bstep_refl: "bio_ok s \<Longrightarrow> bstep B s s"
  by (simp add: bstep_def bframe_refl)

lemma bstep_trans: "bstep A s t \<Longrightarrow> bstep B t u \<Longrightarrow> bstep (A \<union> B) s u"
  by (auto simp: bstep_def intro: bframe_trans)

lemma bstep_weaken: "bstep A s t \<Longrightarrow> A \<subseteq> B \<Longrightarrow> bstep B s t"
  by (auto simp: bstep_def)

lemma held_iff:
  assumes "bufs_ok dk pid (bufs s)"
  shows "b \<in> cheld (bufs s) \<longleftrightarrow> (\<exists>i. buf_for s i b)"
proof -
  have "buf_for s i b \<longleftrightarrow> cached (bufs s) b = Some i \<and> slk_locked (b_lock (bufs s ! i))" for i
    by (simp add: buf_for_def cached_Some [OF assms])
  then show ?thesis by (cases "cached (bufs s) b") (simp_all add: cheld_def)
qed

lemma bstep_unheld: "bstep B s t \<Longrightarrow> bio_ok s \<Longrightarrow> B \<inter> c_held (acache s) = {} \<Longrightarrow> bstep {} s t"
proof -
  assume t: "bstep B s t" and s: "bio_ok s" and B: "B \<inter> c_held (acache s) = {}"
  have "b \<notin> B" if "buf_for s i b" for i b
  proof -
    have "b \<in> cheld (bufs s)"
      using s held_iff [of "disk s" "p_pid (myproc_of s)" s b] that by (auto simp: bio_ok_def)
    then show ?thesis using B by (auto simp: acache_def)
  qed
  with t show ?thesis by (auto simp: bstep_def)
qed

lemma buf_for_facts:
  assumes "bio_ok s" and "buf_for s i b"
  shows "b_valid (bufs s ! i)" and "b_refcnt (bufs s ! i) \<noteq> 0" and "slk_pid (b_lock (bufs s ! i)) = p_pid (myproc_of s)"
    and "c_view (acache s) b = b_data (bufs s ! i)" and "b \<in> c_held (acache s)"
    and "c_refs (acache s) b = unat (b_refcnt (bufs s ! i))" and "usable (bufs s) b i" and "i < length (bufs s)"
    and "\<not> b_disk (bufs s ! i)" and "length (b_data (bufs s ! i)) = BSIZE" and "b < 2 ^ 31"
proof -
  have ok: "bufs_ok (disk s) (p_pid (myproc_of s)) (bufs s)" and i: "i < NBUF" and n: "names b (bufs s ! i)"
    and l: "slk_locked (b_lock (bufs s ! i))"
    using assms by (simp_all add: bio_ok_def buf_for_def)
  have c: "cached (bufs s) b = Some i" using cached_Some [OF ok] i n by simp
  note x = buf_okD(1) [OF ok i, unfolded buf_ok_def]
  show "b_valid (bufs s ! i)" and "b_refcnt (bufs s ! i) \<noteq> 0" and "slk_pid (b_lock (bufs s ! i)) = p_pid (myproc_of s)"
    and "\<not> b_disk (bufs s ! i)" and "length (b_data (bufs s ! i)) = BSIZE"
    using x l by (auto split: if_splits)
  then show "c_view (acache s) b = b_data (bufs s ! i)" and "b \<in> c_held (acache s)"
    and "c_refs (acache s) b = unat (b_refcnt (bufs s ! i))"
    using c l by (simp_all add: acache_def cview_def cheld_def crefs_def)
  show "usable (bufs s) b i" using i n by (simp add: usable_def)
  show "i < length (bufs s)" using i buf_okD(2) [OF ok] by simp
  show "b < 2 ^ 31" using x n by (simp add: names_def)
qed

lemma lock_buf_run:
  assumes "i < length (bufs s)" and "\<not> slk_locked (b_lock (bufs s ! i))"
  shows "lock_buf i s = Ok () (s\<lparr>bufs := (bufs s)[i := (bufs s ! i)
     \<lparr>b_lock := \<lparr>slk_locked = True, slk_pid = p_pid (myproc_of s)\<rparr>\<rparr>]\<rparr>)"
  using assms by (cases "b_lock (bufs s ! i)") (simp add: lock_buf_def acquiresleep_def myproc_def upd_buf_def)

lemma free_buffer_exists:
  assumes ok: "bufs_ok dk pid bs" and room: "card {c. crefs bs c > 0} < NBUF"
  shows "\<exists>i<NBUF. b_refcnt (bs ! i) = 0"
proof (rule ccontr)
  assume "\<not> ?thesis"
  then have ref: "b_refcnt (bs ! i) \<noteq> 0" if "i < NBUF" for i
    using that by auto
  let ?f = "\<lambda>i. b_blockno (bs ! i)"
  have nm: "names (?f i) (bs ! i)" if "i < NBUF" for i
    using buf_okD(1) [OF ok that] ref [OF that] by (simp add: buf_ok_def names_def)
  have "inj_on ?f {..<NBUF}"
    using ok nm unfolding bufs_ok_def by (auto intro!: inj_onI) metis
  moreover have "{c. crefs bs c > 0} = ?f ` {..<NBUF}"
  proof
    show "{c. crefs bs c > 0} \<subseteq> ?f ` {..<NBUF}"
      by (auto simp: crefs_def cached_Some [OF ok] names_def split: option.splits)
    show "?f ` {..<NBUF} \<subseteq> {c. crefs bs c > 0}"
      using nm ref cached_Some [OF ok] by (auto simp: crefs_def unat_gt_0 split: option.splits)
  qed
  ultimately show False
    using room by (simp add: card_image)
qed

lemma find_ring:
  assumes ok: "bufs_ok dk pid bs" and xs: "set xs = {..<NBUF}"
  shows "find (\<lambda>i. b_dev (bs ! i) = ROOTDEV \<and> b_blockno (bs ! i) = b) xs = cached bs b"
proof (cases "find (\<lambda>i. b_dev (bs ! i) = ROOTDEV \<and> b_blockno (bs ! i) = b) xs")
  case None
  then have "cached bs b = None" using xs by (auto simp: find_None_iff cached_None names_def)
  with None show ?thesis by simp
next
  case (Some i)
  then have "i \<in> set xs \<and> names b (bs ! i)" by (auto simp: find_Some_iff names_def)
  then have "cached bs b = Some i" using xs cached_Some [OF ok] by auto
  with Some show ?thesis by simp
qed

definition got :: "'a bio_state_scheme \<Rightarrow> nat \<Rightarrow> buf \<Rightarrow> bool" where
  "got s b y \<longleftrightarrow> names b y \<and> b_refcnt y = of_nat (Suc (crefs (bufs s) b)) \<and>
     b_lock y = \<lparr>slk_locked = True, slk_pid = p_pid (myproc_of s)\<rparr> \<and> \<not> b_disk y \<and> length (b_data y) = BSIZE \<and>
     (b_valid y \<longrightarrow> b_data y = cview (bufs s) (disk s) b) \<and> (\<not> b_valid y \<longrightarrow> cview (bufs s) (disk s) b = disk s b)"

lemma bget_hit:
  assumes ok: "bio_ok s" and "b \<notin> cheld (bufs s)" and c: "cached (bufs s) b = Some i"
  shows "\<exists>y. bget ROOTDEV b s = Ok i (s\<lparr>bufs := (bufs s)[i := y]\<rparr>) \<and> got s b y \<and> usable (bufs s) b i"
proof -
  have bok: "bufs_ok (disk s) (p_pid (myproc_of s)) (bufs s)" using ok by (simp add: bio_ok_def)
  obtain xs where r: "ring_of (links s) xs" and xs: "set xs = {..<NBUF}" using ok by (auto simp: bio_ok_def)
  have i: "i < NBUF" "names b (bufs s ! i)" using c cached_Some [OF bok] by auto
  note find = find_ring [OF bok xs, of b, unfolded c]
  have len: "length (bufs s) = NBUF" by (rule buf_okD(2) [OF bok])
  have unl: "\<not> slk_locked (b_lock (bufs s ! i))" using assms(2) c by (simp add: cheld_def)
  let ?y = "(bufs s ! i)\<lparr>b_refcnt := b_refcnt (bufs s ! i) + 1,
     b_lock := \<lparr>slk_locked = True, slk_pid = p_pid (myproc_of s)\<rparr>\<rparr>"
  have "bget ROOTDEV b s = Ok i (s\<lparr>bufs := (bufs s)[i := ?y]\<rparr>)"
    using unl i len lock_buf_run [of i "s\<lparr>bufs := (bufs s)[i := (bufs s ! i)\<lparr>b_refcnt := b_refcnt (bufs s ! i) + 1\<rparr>]\<rparr>"]
    by (simp add: bget_def scan_next [OF r] ring_length [OF r xs] find set_buf_def upd_buf_def myproc_of_def)
  moreover have "got s b ?y"
    using i c buf_okD(1) [OF bok i(1)]
    by (auto simp: got_def names_def crefs_def cview_def buf_ok_def ac_simps split: if_splits)
  ultimately show ?thesis using i by (auto simp: usable_def)
qed

lemma bget_miss:
  assumes ok: "bio_ok s" and c: "cached (bufs s) b = None" and room: "card {c. crefs (bufs s) c > 0} < NBUF"
  shows "\<exists>i y. bget ROOTDEV b s = Ok i (s\<lparr>bufs := (bufs s)[i := y]\<rparr>) \<and> got s b y \<and> usable (bufs s) b i"
proof -
  have bok: "bufs_ok (disk s) (p_pid (myproc_of s)) (bufs s)" using ok by (simp add: bio_ok_def)
  obtain xs where r: "ring_of (links s) xs" and xs: "set xs = {..<NBUF}" using ok by (auto simp: bio_ok_def)
  have len: "length (bufs s) = NBUF" by (rule buf_okD(2) [OF bok])
  note find = find_ring [OF bok xs, of b, unfolded c]
  obtain i where i: "find (\<lambda>i. b_refcnt (bufs s ! i) = 0) (rev xs) = Some i"
    using free_buffer_exists [OF bok room] xs
    by (cases "find (\<lambda>i. b_refcnt (bufs s ! i) = 0) (rev xs)") (auto simp: find_None_iff)
  then have free: "b_refcnt (bufs s ! i) = 0" and "i \<in> set (rev xs)"
    by (auto simp: find_Some_iff simp del: set_rev intro: nth_mem)
  then have iN: "i < NBUF" using xs by simp
  let ?x = "(bufs s ! i)\<lparr>b_dev := ROOTDEV, b_blockno := b, b_valid := False, b_refcnt := 1\<rparr>"
  let ?y = "?x\<lparr>b_lock := \<lparr>slk_locked = True, slk_pid = p_pid (myproc_of s)\<rparr>\<rparr>"
  note x = buf_okD(1) [OF bok iN, unfolded buf_ok_def]
  have "bget ROOTDEV b s = Ok i (s\<lparr>bufs := (bufs s)[i := ?y]\<rparr>)"
    using x free iN len lock_buf_run [of i "s\<lparr>bufs := (bufs s)[i := ?x]\<rparr>"]
    by (simp add: bget_def scan_next [OF r] scan_prev [OF r] ring_length [OF r xs] find i set_buf_def upd_buf_def myproc_of_def)
  moreover have "got s b ?y"
    using x c by (simp add: got_def names_def crefs_def cview_def)
  ultimately show ?thesis using iN free c by (auto simp: usable_def cached_None)
qed

text \<open>After buffer \<open>i\<close> has been given the contents \<open>y\<close>, a good buffer for block \<open>b\<close>.\<close>

lemma bstep_upd:
  assumes ok: "bio_ok s" and u: "usable (bufs s) b i" and n: "names b y"
    and y: "buf_ok (disk s) (p_pid (myproc_of s)) y"
    and v: "vdisk_idle v" and w: "woken (procs s) ps" and r: "ring_of l xs" "set xs = {..<NBUF}"
  defines "t \<equiv> s\<lparr>procs := ps, bufs := (bufs s)[i := y], vdisk := v, links := l\<rparr>"
  shows "bstep {b} s t"
    and "slk_locked (b_lock y) \<Longrightarrow> bstep {} s t \<and> buf_for t i b"
    and "acache t = (acache s)\<lparr>
       c_view := (c_view (acache s))(b := if b_valid y then b_data y else disk s b),
       c_refs := (c_refs (acache s))(b := unat (b_refcnt y)),
       c_held := (if slk_locked (b_lock y) then insert b (c_held (acache s)) else c_held (acache s) - {b})\<rparr>"
proof -
  have bok: "bufs_ok (disk s) (p_pid (myproc_of s)) (bufs s)" using ok by (simp add: bio_ok_def)
  have f: "bframe s t"
    unfolding t_def bframe_def
    by (rule exI [of _ ps], rule exI [of _ "(bufs s)[i := y]"], rule exI [of _ v], rule exI [of _ "disk s"],
      rule exI [of _ "disk_trace s"], rule exI [of _ l]) (use w in \<open>cases s, simp\<close>)
  have c: "cur s < length (procs s)" using ok by (simp add: bio_ok_def)
  have pid: "p_pid (myproc_of t) = p_pid (myproc_of s)" by (rule bframe_myproc [OF f c])
  have bok': "bio_ok t"
    using ok bufs_ok_upd [OF bok u n y] v r w pid unfolding bio_ok_def
    by (auto simp: t_def woken_length)
  have i: "i < length (bufs s)" using u buf_okD(2) [OF bok] by (simp add: usable_def)
  have keep: "buf_for t j b'" if "b' \<noteq> b" "buf_for s j b'" for j b'
  proof -
    have "cached (bufs s) b' = Some j" using that by (simp add: buf_for_def cached_Some [OF bok])
    then have "j \<noteq> i" using usable_other(2) [OF bok u that(1)] that by (auto simp: buf_for_def)
    then show ?thesis using that by (simp add: buf_for_def t_def)
  qed
  show B: "bstep {b} s t"
    unfolding bstep_def using f bok' keep by blast
  show "slk_locked (b_lock y) \<Longrightarrow> bstep {} s t \<and> buf_for t i b"
  proof -
    assume l: "slk_locked (b_lock y)"
    have bf: "buf_for t i b" using l n u i by (simp add: buf_for_def t_def usable_def)
    have "buf_for t j b" if "buf_for s j b" for j
    proof -
      have "cached (bufs s) b = Some j" using that by (simp add: buf_for_def cached_Some [OF bok])
      then have "j = i" using u cached_Some [OF bok, of b] unfolding usable_def by (metis cached_None option.distinct(1) option.inject)
      with bf show ?thesis by simp
    qed
    with B bf show ?thesis unfolding bstep_def by (metis singletonD)
  qed
  show "acache t = (acache s)\<lparr>
       c_view := (c_view (acache s))(b := if b_valid y then b_data y else disk s b),
       c_refs := (c_refs (acache s))(b := unat (b_refcnt y)),
       c_held := (if slk_locked (b_lock y) then insert b (c_held (acache s)) else c_held (acache s) - {b})\<rparr>"
    using abs_upd [OF bok u n y] by (simp add: acache_def t_def)
qed

lemma read_block:
  assumes ok: "bio_ok s" and i: "i < length (bufs s)" and bn: "names b (bufs t ! i)" "b < 2 ^ 31"
    and t: "t = s\<lparr>bufs := (bufs s)[i := y]\<rparr>"
  shows "\<exists>v ps. virtio_disk_rw i False t =
     Ok () (s\<lparr>procs := ps, bufs := (bufs s)[i := y\<lparr>b_disk := False, b_data := disk s b\<rparr>], vdisk := v\<rparr>) \<and>
     vdisk_idle v \<and> woken (procs s) ps"
proof -
  have "vdisk_idle (vdisk t)" and "virtio_blk_ok (device t)" and "i < length (bufs t)" 
    and "b_blockno (bufs t ! i) < 2 ^ 31"
    using ok i bn by (simp_all add: t bio_ok_def names_def)
  from virtio_disk_rw_spec [OF this, of False] bn i show ?thesis
    unfolding t by (simp add: names_def)
qed

lemma bread_spec:
  assumes ok: "bio_ok s" and b: "b < 2 ^ 31" and nh: "b \<notin> c_held (acache s)"
    and room: "c_refs (acache s) b > 0 \<or> card {c. c_refs (acache s) c > 0} < NBUF"
    and small: "Suc (c_refs (acache s) b) < 2 ^ 32"
  shows "\<exists>i s'. bread ROOTDEV b s = Ok i s' \<and> bstep {} s s' \<and> buf_for s' i b \<and>
     acache s' = (acache s)\<lparr>c_refs := (c_refs (acache s))(b := Suc (c_refs (acache s) b)),
       c_held := insert b (c_held (acache s))\<rparr>"
proof -
  have "b \<notin> cheld (bufs s)" using nh by (simp add: acache_def)
  then have "\<exists>i y. bget ROOTDEV b s = Ok i (s\<lparr>bufs := (bufs s)[i := y]\<rparr>) \<and> got s b y \<and> usable (bufs s) b i"
  proof (cases "cached (bufs s) b")
    case None
    then have "card {c. crefs (bufs s) c > 0} < NBUF" using room by (simp add: acache_def crefs_def)
    with None bget_miss [OF ok None] show ?thesis by blast
  next
    case (Some i)
    with bget_hit [OF ok \<open>b \<notin> cheld (bufs s)\<close> Some] show ?thesis by blast
  qed
  then obtain i y where get: "bget ROOTDEV b s = Ok i (s\<lparr>bufs := (bufs s)[i := y]\<rparr>)" and y: "got s b y"
    and u: "usable (bufs s) b i" by blast
  have i: "i < length (bufs s)" using u ok by (simp add: usable_def bio_ok_def bufs_ok_def)
  have rc: "unat (b_refcnt y) = Suc (c_refs (acache s) b)"
    using y small by (simp add: got_def acache_def unat_of_nat_small del: of_nat_Suc)
  obtain xs where r: "ring_of (links s) xs" "set xs = {..<NBUF}" using ok by (auto simp: bio_ok_def)
  let ?y = "y\<lparr>b_valid := True, b_data := cview (bufs s) (disk s) b\<rparr>"
  have len: "length (cview (bufs s) (disk s) b) = BSIZE"
    using ok y by (cases "b_valid y") (auto simp: got_def bio_ok_def)
  have "b_refcnt y \<noteq> 0" using rc by auto
  then have yok: "buf_ok (disk s) (p_pid (myproc_of s)) ?y"
    using y b len by (simp add: got_def buf_ok_def names_def)
  have run: "\<exists>v ps. bread ROOTDEV b s = Ok i (s\<lparr>procs := ps, bufs := (bufs s)[i := ?y], vdisk := v, links := links s\<rparr>) \<and>
     vdisk_idle v \<and> woken (procs s) ps"
  proof (cases "b_valid y")
    case True
    then have eq: "?y = y" using y by (cases y) (simp add: got_def)
    have "bread ROOTDEV b s = Ok i (s\<lparr>bufs := (bufs s)[i := y]\<rparr>)"
      using True ok i get by (simp add: bread_def kwhen_apply bio_ok_def)
    then show ?thesis unfolding eq using ok by (intro exI [of _ "vdisk s"] exI [of _ "procs s"]) (cases s, simp add: bio_ok_def woken.intros)
  next
    case False
    then obtain v ps where vr: "virtio_disk_rw i False (s\<lparr>bufs := (bufs s)[i := y]\<rparr>) =
       Ok () (s\<lparr>procs := ps, bufs := (bufs s)[i := y\<lparr>b_disk := False, b_data := disk s b\<rparr>], vdisk := v\<rparr>)"
       and vi: "vdisk_idle v" "woken (procs s) ps"
      using read_block [OF ok i _ b refl, of y] y i by (auto simp: got_def)
    have "y\<lparr>b_disk := False, b_data := disk s b, b_valid := True\<rparr> = ?y"
      using y False by (cases y) (simp add: got_def)
    then have "bread ROOTDEV b s = Ok i (s\<lparr>procs := ps, bufs := (bufs s)[i := ?y], vdisk := v, links := links s\<rparr>)"
      using False ok i get vr by (cases s) (simp add: bread_def kwhen_apply bio_ok_def set_buf_def upd_buf_def)
    then show ?thesis using vi by blast
  qed
  have l: "slk_locked (b_lock ?y)" and n: "names b ?y" using y by (simp_all add: got_def names_def)
  from run obtain v ps where eq: "bread ROOTDEV b s = Ok i (s\<lparr>procs := ps, bufs := (bufs s)[i := ?y], vdisk := v, links := links s\<rparr>)"
    and vw: "vdisk_idle v" "woken (procs s) ps" by blast
  note up = bstep_upd [OF ok u n yok vw r]
  show ?thesis
    using eq up(2) [OF l] up(3) l rc by (auto simp: acache_def)
qed

lemma bio_ringE:
  assumes "bio_ok s"
  obtains xs where "ring_of (links s) xs" and "set xs = {..<NBUF}"
  using assms by (auto simp: bio_ok_def)

lemma upd_buf_as: "upd_buf i f s = s\<lparr>procs := procs s, bufs := (bufs s)[i := f (bufs s ! i)], vdisk := vdisk s, links := links s\<rparr>"
  by (cases s) (simp add: upd_buf_def)

lemma buf_ok_held:
  assumes "bio_ok s" and "buf_for s i b"
  shows "buf_ok (disk s) (p_pid (myproc_of s)) (bufs s ! i)" and "names b (bufs s ! i)"
  using assms by (simp_all add: bio_ok_def buf_for_def buf_okD)

lemma set_data_spec:
  assumes ok: "bio_ok s" and bf: "buf_for s i b" and d: "length d = BSIZE"
  shows "\<exists>s'. set_data i d s = Ok () s' \<and> bstep {} s s' \<and> buf_for s' i b \<and>
    acache s' = (acache s)\<lparr>c_view := (c_view (acache s))(b := d)\<rparr>"
proof -
  let ?y = "(bufs s ! i)\<lparr>b_data := d\<rparr>"
  note f = buf_for_facts [OF ok bf]
  have n: "names b ?y" and y: "buf_ok (disk s) (p_pid (myproc_of s)) ?y"
    using buf_ok_held [OF ok bf] f(2) d by (auto simp: names_def buf_ok_def)
  have v: "vdisk_idle (vdisk s)" using ok by (simp add: bio_ok_def)
  from ok obtain xs where r: "ring_of (links s) xs" "set xs = {..<NBUF}" by (rule bio_ringE)
  have l: "slk_locked (b_lock ?y)" using bf by (simp add: buf_for_def)
  note up = bstep_upd [OF ok f(7) n y v woken_refl r]
  show ?thesis
    using up(2) [OF l] up(3) l f(1,5,6)
    by (cases "acache s") (auto simp: set_data_def set_buf_def upd_buf_as insert_absorb fun_upd_idem)
qed

lemma bpin_spec:
  assumes ok: "bio_ok s" and bf: "buf_for s i b" and small: "Suc (c_refs (acache s) b) < 2 ^ 32"
  shows "\<exists>s'. bpin i s = Ok () s' \<and> bstep {} s s' \<and> buf_for s' i b \<and>
    acache s' = (acache s)\<lparr>c_refs := (c_refs (acache s))(b := Suc (c_refs (acache s) b))\<rparr>"
proof -
  let ?y = "(bufs s ! i)\<lparr>b_refcnt := b_refcnt (bufs s ! i) + 1\<rparr>"
  note f = buf_for_facts [OF ok bf]
  have u: "unat (b_refcnt (bufs s ! i) + 1) = Suc (c_refs (acache s) b)"
    using small f(6) by (simp add: unat_word_ariths)
  then have "b_refcnt (bufs s ! i) + 1 \<noteq> 0" by (metis nat.distinct(1) unat_0)
  then have n: "names b ?y" and y: "buf_ok (disk s) (p_pid (myproc_of s)) ?y"
    using buf_ok_held [OF ok bf] f(2) by (auto simp: names_def buf_ok_def)
  have v: "vdisk_idle (vdisk s)" using ok by (simp add: bio_ok_def)
  from ok obtain xs where r: "ring_of (links s) xs" "set xs = {..<NBUF}" by (rule bio_ringE)
  have l: "slk_locked (b_lock ?y)" using bf by (simp add: buf_for_def)
  note up = bstep_upd [OF ok f(7) n y v woken_refl r]
  show ?thesis
    using up(2) [OF l] up(3) l f(1,4,5) u
    by (auto simp: bpin_def set_buf_def upd_buf_as insert_absorb fun_upd_idem)
qed

lemma bunpin_spec:
  assumes ok: "bio_ok s" and bf: "buf_for s i b" and big: "c_refs (acache s) b > 1"
  shows "\<exists>s'. bunpin i s = Ok () s' \<and> bstep {} s s' \<and> buf_for s' i b \<and>
    acache s' = (acache s)\<lparr>c_refs := (c_refs (acache s))(b := c_refs (acache s) b - 1)\<rparr>"
proof -
  let ?y = "(bufs s ! i)\<lparr>b_refcnt := b_refcnt (bufs s ! i) - 1\<rparr>"
  note f = buf_for_facts [OF ok bf]
  have u: "unat (b_refcnt (bufs s ! i) - 1) = c_refs (acache s) b - 1"
    using f(2) f(6) by (simp add: unat_minus_one)
  then have "b_refcnt (bufs s ! i) - 1 \<noteq> 0" using big by auto
  then have n: "names b ?y" and y: "buf_ok (disk s) (p_pid (myproc_of s)) ?y"
    using buf_ok_held [OF ok bf] f(2) by (auto simp: names_def buf_ok_def)
  have v: "vdisk_idle (vdisk s)" using ok by (simp add: bio_ok_def)
  from ok obtain xs where r: "ring_of (links s) xs" "set xs = {..<NBUF}" by (rule bio_ringE)
  have l: "slk_locked (b_lock ?y)" using bf by (simp add: buf_for_def)
  note up = bstep_upd [OF ok f(7) n y v woken_refl r]
  show ?thesis
    using up(2) [OF l] up(3) l f(1,4,5) u
    by (auto simp: bunpin_def set_buf_def upd_buf_as insert_absorb fun_upd_idem)
qed

lemma holding_buf_bind:
  assumes "bio_ok s" and "buf_for s i b"
  shows "kbind (holding_buf i) f s = f True s"
  using buf_for_facts(3) [OF assms] assms(2)
  by (simp add: holding_buf_def holdingsleep_def myproc_def kbind_def buf_for_def)

lemma brelse_run:
  assumes "i < length (bufs s)" and "slk_locked (b_lock (bufs s ! i))" and "slk_pid (b_lock (bufs s ! i)) = p_pid (myproc_of s)"
  shows "brelse i s = Ok () (s\<lparr>procs := map (wake (ChanBufLock i)) (procs s),
      bufs := (bufs s)[i := (bufs s ! i)\<lparr>b_lock := \<lparr>slk_locked = False, slk_pid = 0\<rparr>, b_refcnt := b_refcnt (bufs s ! i) - 1\<rparr>],
      links := (if b_refcnt (bufs s ! i) - 1 = 0 then link_head i (unlink_buf i (links s)) else links s)\<rparr>)"
proof -
  have lk: "l\<lparr>slk_locked := False, slk_pid := 0\<rparr> = \<lparr>slk_locked = False, slk_pid = 0\<rparr>" for l :: sleeplock
    by (cases l) simp
  have "kbind (holding_buf i) f s = f True s" for f :: "bool \<Rightarrow> ('a bio_state_scheme, unit) kmon"
    using assms(2,3) by (simp add: holding_buf_def holdingsleep_def myproc_def kbind_def)
  then show ?thesis using assms(1)
    by (cases s) (simp add: brelse_def unlock_buf_def releasesleep_def upd_buf_def set_buf_def wakeup_def set_links_def kwhen_apply lk)
qed

lemma brelse_spec:
  assumes ok: "bio_ok s" and bf: "buf_for s i b"
    and clean: "c_refs (acache s) b = 1 \<Longrightarrow> c_view (acache s) b = c_disk (acache s) b"
  shows "\<exists>s'. brelse i s = Ok () s' \<and> bstep {b} s s' \<and>
    acache s' = (acache s)\<lparr>c_refs := (c_refs (acache s))(b := c_refs (acache s) b - 1),
      c_held := c_held (acache s) - {b}\<rparr>"
proof -
  let ?x = "bufs s ! i"
  let ?y = "?x\<lparr>b_lock := \<lparr>slk_locked = False, slk_pid = 0\<rparr>, b_refcnt := b_refcnt ?x - 1\<rparr>"
  note f = buf_for_facts [OF ok bf]
  have u: "unat (b_refcnt ?x - 1) = c_refs (acache s) b - 1"
    using f(2) f(6) by (simp add: unat_minus_one)
  have z: "b_refcnt ?x - 1 = 0 \<Longrightarrow> c_refs (acache s) b = 1"
    using f(2) f(6) u by (metis One_nat_def Suc_pred unat_0 unat_gt_0)
  have n: "names b ?y" and y: "buf_ok (disk s) (p_pid (myproc_of s)) ?y"
    using buf_ok_held [OF ok bf] f(1,2,4) z clean by (auto simp: names_def buf_ok_def acache_def split: if_splits)
  have v: "vdisk_idle (vdisk s)" using ok by (simp add: bio_ok_def)
  from ok obtain xs where r: "ring_of (links s) xs" and xs: "set xs = {..<NBUF}" by (rule bio_ringE)
  let ?l = "if b_refcnt ?x - 1 = 0 then link_head i (unlink_buf i (links s)) else links s"
  let ?xs = "if b_refcnt ?x - 1 = 0 then move_to_front i xs else xs"
  have i: "i \<in> set xs" using bf xs by (simp add: buf_for_def)
  have r': "ring_of ?l ?xs" "set ?xs = {..<NBUF}"
    using release_ring [OF r i] i r xs by simp_all
  have w: "woken (procs s) (map (wake (ChanBufLock i)) (procs s))" by (intro woken.intros)
  note up = bstep_upd [OF ok f(7) n y v w r']
  have "slk_locked (b_lock ?x)" using bf by (simp add: buf_for_def)
  from brelse_run [OF f(8) this f(3)]
  have "brelse i s = Ok () (s\<lparr>procs := map (wake (ChanBufLock i)) (procs s), bufs := (bufs s)[i := ?y],
      vdisk := vdisk s, links := ?l\<rparr>)"
    by (cases s) simp
  then show ?thesis
    using up(1,3) f(1,4) u by (auto simp: fun_upd_idem)
qed

lemma bwrite_spec:
  assumes ok: "bio_ok s" and bf: "buf_for s i b"
  shows "\<exists>s'. bwrite i s = Ok () s' \<and> bstep {} s s' \<and> buf_for s' i b \<and>
    acache s' = (acache s)\<lparr>c_disk := (c_disk (acache s))(b := c_view (acache s) b),
      c_trace := c_trace (acache s) @ [(b, c_view (acache s) b)]\<rparr>"
proof -
  let ?x = "bufs s ! i"
  note f = buf_for_facts [OF ok bf]
  have bok: "bufs_ok (disk s) (p_pid (myproc_of s)) (bufs s)" using ok by (simp add: bio_ok_def)
  have blk: "b_blockno ?x = b" and i: "i < NBUF" using bf by (simp_all add: buf_for_def names_def)
  have same: "(bufs s)[i := ?x\<lparr>b_disk := False\<rparr>] = bufs s"
    using f(9) by (cases ?x) (simp add: list_update_same_conv f(8))
  obtain v ps where run: "virtio_disk_rw i True s = Ok () (s\<lparr>procs := ps, bufs := bufs s, vdisk := v,
      disk := (disk s)(b := b_data ?x), disk_trace := disk_trace s @ [(b, b_data ?x)]\<rparr>)"
    and v: "vdisk_idle v" and w: "woken (procs s) ps"
    using virtio_disk_rw_spec [of s i True] ok f(8,11) by (auto simp: bio_ok_def blk same)
  define t where "t = s\<lparr>procs := ps, bufs := bufs s, vdisk := v,
      disk := (disk s)(b := b_data ?x), disk_trace := disk_trace s @ [(b, b_data ?x)]\<rparr>"
  have fr: "bframe s t"
    unfolding t_def bframe_def
    by (rule exI [of _ ps], rule exI [of _ "bufs s"], rule exI [of _ v], rule exI [of _ "(disk s)(b := b_data ?x)"],
      rule exI [of _ "disk_trace s @ [(b, b_data ?x)]"], rule exI [of _ "links s"]) (use w in \<open>cases s, simp\<close>)
  have pid: "p_pid (myproc_of t) = p_pid (myproc_of s)"
    using bframe_myproc [OF fr] ok by (simp add: bio_ok_def)
  have x: "buf_ok ((disk s)(b := b_data ?x)) pid y" if yok: "buf_ok (disk s) pid y" and yin: "y \<in> set (bufs s)" for pid y
  proof -
    obtain j where j: "j < NBUF" "y = bufs s ! j" using yin buf_okD(2) [OF bok] by (auto simp: in_set_conv_nth)
    have "j = i" if "names b y" using bok i j bf that unfolding bufs_ok_def buf_for_def by blast
    then show ?thesis using yok f(2) j by (auto simp: buf_ok_def names_def)
  qed
  have "bio_ok t"
    using ok v w pid x bok f(10) by (auto simp: bio_ok_def bufs_ok_def t_def woken_length)
  then have "bstep {} s t" and "buf_for t i b"
    using fr bf by (auto simp: bstep_def buf_for_def t_def)
  moreover have "cview (bufs s) ((disk s)(b := b_data ?x)) = cview (bufs s) (disk s)"
    using f(1) i bf cached_Some [OF bok, of b i] by (auto simp: cview_def buf_for_def split: option.splits)
  then have "acache t = (acache s)\<lparr>c_disk := (c_disk (acache s))(b := c_view (acache s) b),
      c_trace := c_trace (acache s) @ [(b, c_view (acache s) b)]\<rparr>"
    using f(4) by (simp add: acache_def t_def)
  ultimately show ?thesis
    unfolding bwrite_def holding_buf_bind [OF ok bf] using run by (auto simp: t_def)
qed

lemma buf_data_spec:
  assumes "bio_ok s" and "buf_for s i b"
  shows "buf_data i s = Ok (c_view (acache s) b) s"
  using buf_for_facts(4) [OF assms] by (simp add: buf_data_def)

lemma view_length:
  assumes "bio_ok s"
  shows "length (c_view (acache s) b) = BSIZE"
proof -
  have "bufs_ok (disk s) (p_pid (myproc_of s)) (bufs s)" using assms by (simp add: bio_ok_def)
  then show ?thesis
    using assms buf_okD(1) cached_Some
    by (fastforce simp: acache_def cview_def bio_ok_def buf_ok_def split: option.splits)
qed

lemma bstep_ok: "bstep B s s' \<Longrightarrow> bio_ok s'"
  by (simp add: bstep_def)

lemma bstep_keep: "bstep B s s' \<Longrightarrow> buf_for s i b \<Longrightarrow> b \<notin> B \<Longrightarrow> buf_for s' i b"
  by (auto simp: bstep_def)

lemma card_insert_room: "card {c. ((f :: nat \<Rightarrow> nat)(b := Suc v)) c > 0} \<le> Suc (card {c. f c > 0})" if "finite {c. f c > 0}"
proof -
  have "{c. (f(b := Suc v)) c > 0} = insert b {c. f c > 0}" by auto
  then show ?thesis using that by (simp add: card_insert_if)
qed

lemma finite_refs:
  assumes "bio_ok s"
  shows "finite {c. c_refs (acache s) c > 0}"
proof -
  have ok: "bufs_ok (disk s) (p_pid (myproc_of s)) (bufs s)" using assms by (simp add: bio_ok_def)
  have "{c. crefs (bufs s) c > 0} \<subseteq> (\<lambda>i. b_blockno (bufs s ! i)) ` {..<NBUF}"
    by (auto simp: crefs_def cached_Some [OF ok] names_def split: option.splits)
  then show ?thesis using finite_subset by (fastforce simp: acache_def)
qed

lemma clean_unreferenced:
  assumes ok: "bio_ok s" and "c_refs (acache s) b = 0"
  shows "c_view (acache s) b = c_disk (acache s) b"
proof (cases "cached (bufs s) b")
  case None
  then show ?thesis by (simp add: acache_def cview_def)
next
  case (Some i)
  have bok: "bufs_ok (disk s) (p_pid (myproc_of s)) (bufs s)" using ok by (simp add: bio_ok_def)
  have i: "i < NBUF" "names b (bufs s ! i)" using Some cached_Some [OF bok] by auto
  show ?thesis using buf_okD(1) [OF bok i(1)] i(2) assms(2) Some
    by (auto simp: acache_def crefs_def cview_def buf_ok_def names_def unat_eq_0)
qed

text \<open>\<^verbatim>\<open>bunpin(dbuf); brelse(lbuf); brelse(dbuf)\<close>, whatever the reference count of \<^verbatim>\<open>dbuf\<close> is: it
  goes down by two, in 32-bit arithmetic.\<close>

lemma unpin_release_run:
  assumes ij: "i \<noteq> j" "i < length (bufs s)" "j < length (bufs s)" and cur: "cur s < length (procs s)"
    and locks: "slk_locked (b_lock (bufs s ! i))" "slk_pid (b_lock (bufs s ! i)) = p_pid (myproc_of s)"
      "slk_locked (b_lock (bufs s ! j))" "slk_pid (b_lock (bufs s ! j)) = p_pid (myproc_of s)"
    and t: "brelse i s = Ok () t"
  defines "x \<equiv> bufs s ! j"
  shows "kseq (bunpin j) (kseq (brelse i) (brelse j)) s = Ok () (t\<lparr>procs := map (wake (ChanBufLock j)) (procs t),
      bufs := (bufs t)[j := x\<lparr>b_refcnt := b_refcnt x - 2, b_lock := \<lparr>slk_locked = False, slk_pid = 0\<rparr>\<rparr>],
      vdisk := vdisk t,
      links := (if b_refcnt x - 2 = 0 then link_head j (unlink_buf j (links t)) else links t)\<rparr>)"
    and "bufs t ! j = x"
proof -
  note run = brelse_run [OF ij(2) locks(1,2)]
  have swap: "x\<lparr>b_refcnt := r, b_lock := l\<rparr> = x\<lparr>b_lock := l, b_refcnt := r\<rparr>" for x :: buf and r l
    by (cases x) simp
  have tt: "t = s\<lparr>procs := map (wake (ChanBufLock i)) (procs s),
      bufs := (bufs s)[i := (bufs s ! i)\<lparr>b_lock := \<lparr>slk_locked = False, slk_pid = 0\<rparr>, b_refcnt := b_refcnt (bufs s ! i) - 1\<rparr>],
      links := (if b_refcnt (bufs s ! i) - 1 = 0 then link_head i (unlink_buf i (links s)) else links s)\<rparr>"
    using run t by simp
  show "bufs t ! j = x" using ij(1) by (simp add: tt x_def)
  show "kseq (bunpin j) (kseq (brelse i) (brelse j)) s = Ok () (t\<lparr>procs := map (wake (ChanBufLock j)) (procs t),
      bufs := (bufs t)[j := x\<lparr>b_refcnt := b_refcnt x - 2, b_lock := \<lparr>slk_locked = False, slk_pid = 0\<rparr>\<rparr>],
      vdisk := vdisk t,
      links := (if b_refcnt x - 2 = 0 then link_head j (unlink_buf j (links t)) else links t)\<rparr>)"
    using ij locks cur unfolding x_def
    by (cases s) (simp add: bunpin_def set_buf_def upd_buf_def brelse_run myproc_of_def tt list_update_swap [of i j] swap)
qed

lemma unpin_release_spec:
  assumes ok: "bio_ok s" and bf: "buf_for s i a" "buf_for s j b" and ab: "a \<noteq> b"
    and clean: "c_view (acache s) a = c_disk (acache s) a" "c_view (acache s) b = c_disk (acache s) b"
  shows "\<exists>s'. kseq (bunpin j) (kseq (brelse i) (brelse j)) s = Ok () s' \<and> bstep {a, b} s s' \<and>
    acache s' = (acache s)\<lparr>
      c_refs := (c_refs (acache s))(a := c_refs (acache s) a - 1, b := unat (of_nat (c_refs (acache s) b) - 2 :: uint32)),
      c_held := c_held (acache s) - {a, b}\<rparr>"
proof -
  note fi = buf_for_facts [OF ok bf(1)] and fj = buf_for_facts [OF ok bf(2)]
  have ij: "i \<noteq> j" using bf ab by (auto simp: buf_for_def names_def)
  obtain t where t: "brelse i s = Ok () t" "bstep {a} s t"
    "acache t = (acache s)\<lparr>c_refs := (c_refs (acache s))(a := c_refs (acache s) a - 1), c_held := c_held (acache s) - {a}\<rparr>"
    using brelse_spec [OF ok bf(1)] clean by auto
  have lock: "slk_locked (b_lock (bufs s ! i))" "slk_locked (b_lock (bufs s ! j))"
    using bf by (simp_all add: buf_for_def)
  have jt: "buf_for t j b" using bstep_keep [OF t(2) bf(2)] ab by simp
  note ft = buf_for_facts [OF bstep_ok [OF t(2)] jt]
  have c: "cur s < length (procs s)" using ok by (simp add: bio_ok_def)
  note run = unpin_release_run [OF ij fi(8) fj(8) c lock(1) fi(3) lock(2) fj(3) t(1)]
  note xj = run(2)
  let ?x = "bufs s ! j"
  let ?y = "?x\<lparr>b_refcnt := b_refcnt ?x - 2, b_lock := \<lparr>slk_locked = False, slk_pid = 0\<rparr>\<rparr>"
  let ?l = "if b_refcnt ?x - 2 = 0 then link_head j (unlink_buf j (links t)) else links t"
  let ?t' = "t\<lparr>procs := map (wake (ChanBufLock j)) (procs t), bufs := (bufs t)[j := ?y], vdisk := vdisk t, links := ?l\<rparr>"
  have n: "names b ?y" using bf(2) by (simp add: buf_for_def names_def)
  have dk: "c_disk (acache t) = c_disk (acache s)" using t(3) by simp
  have y: "buf_ok (disk t) (p_pid (myproc_of t)) ?y"
    using buf_ok_held [OF bstep_ok [OF t(2)] jt] ft(1,2) xj fj(4) clean(2) dk
    by (auto simp: buf_ok_def acache_def names_def split: if_splits)
  have v: "vdisk_idle (vdisk t)" using bstep_ok [OF t(2)] by (simp add: bio_ok_def)
  from bstep_ok [OF t(2)] obtain xs where r: "ring_of (links t) xs" and xs: "set xs = {..<NBUF}" by (rule bio_ringE)
  have j: "j \<in> set xs" using bf xs by (simp add: buf_for_def)
  have r': "ring_of ?l (if b_refcnt ?x - 2 = 0 then move_to_front j xs else xs)"
    "set (if b_refcnt ?x - 2 = 0 then move_to_front j xs else xs) = {..<NBUF}"
    using release_ring [OF r j] j r xs by simp_all
  have w: "woken (procs t) (map (wake (ChanBufLock j)) (procs t))" by (intro woken.intros)
  note up = bstep_upd [OF bstep_ok [OF t(2)] ft(7) n y v w r']
  have "bstep {a, b} s ?t'"
    using bstep_trans [OF t(2) up(1)] by (rule bstep_weaken) auto
  moreover have "acache ?t' = (acache s)\<lparr>
      c_refs := (c_refs (acache s))(a := c_refs (acache s) a - 1, b := unat (of_nat (c_refs (acache s) b) - 2 :: uint32)),
      c_held := c_held (acache s) - {a, b}\<rparr>"
    using up(3) t(3) ft(1,4) xj fj(6) ab by (auto simp: fun_upd_idem Diff_insert2 [of _ a "{b}"])
  ultimately show ?thesis using run(1) by blast
qed


end
