(* ===== verification/Log.thy ===== *)
theory Log
  imports Bio_Cache
begin

text \<open>
  \<^verbatim>\<open>src/kernel/log.c\<close>: the write-ahead log. The state of \<^verbatim>\<open>struct log\<close> is the record \<open>logt\<close>;
  the header block is the little-endian array of 32-bit integers that the C structure is on
  disk. Reading a header whose count exceeds \<open>LOGSIZE\<close> writes past \<^verbatim>\<open>log.lh.block\<close> in the
  source; the model stops there.
\<close>

record superblock =
  sb_magic :: uint32
  sb_size :: nat
  sb_nblocks :: nat
  sb_ninodes :: nat
  sb_nlog :: nat
  sb_logstart :: nat
  sb_inodestart :: nat
  sb_bmapstart :: nat

record logt =
  lg_start :: nat
  lg_size :: nat
  lg_outstanding :: int
  lg_committing :: bool
  lg_dev :: nat
  lg_n :: int
  lg_block :: "nat list"

record log_state = bio_state +
  log :: logt

definition set_log :: "(logt \<Rightarrow> logt) \<Rightarrow> ('a log_state_scheme, unit) kmon" where
  "set_log f = kmod (\<lambda>s. s\<lparr>log := f (log s)\<rparr>)"

section \<open>The header block\<close>

definition head_n :: "bytes \<Rightarrow> int" where
  "head_n d = sint (get32 0 d)"

definition head_block :: "nat \<Rightarrow> bytes \<Rightarrow> nat" where
  "head_block i d = unat (get32 (4 + 4 * i) d)"

definition put_head :: "int \<Rightarrow> nat list \<Rightarrow> bytes \<Rightarrow> bytes" where
  "put_head n bl d =
     fold (\<lambda>i d. put32 (4 + 4 * i) (of_nat (bl ! i)) d) [0..<nat n] (put32 0 (of_int n) d)"

definition read_head :: "('a log_state_scheme, unit) kmon" where
  "read_head =
     kbind (kget log) (\<lambda>l.
     kbind (bread (lg_dev l) (lg_start l)) (\<lambda>b.
     kbind (buf_data b) (\<lambda>d.
     if head_n d > int LOGSIZE then kpanic ''log.lh.block out of bounds''
     else
       kseq (set_log (\<lambda>l. l\<lparr>lg_n := head_n d\<rparr>))
      (kseq (kfor [0..<nat (head_n d)] (\<lambda>i. set_log (\<lambda>l. l\<lparr>lg_block := (lg_block l)[i := head_block i d]\<rparr>)))
            (brelse b)))))"

definition write_head :: "('a log_state_scheme, unit) kmon" where
  "write_head =
     kbind (kget log) (\<lambda>l.
     kbind (bread (lg_dev l) (lg_start l)) (\<lambda>b.
     kbind (buf_data b) (\<lambda>d.
     kseq (set_data b (put_head (lg_n l) (lg_block l) d))
    (kseq (bwrite b)
          (brelse b)))))"

section \<open>Commit and recovery\<close>

definition write_log_block :: "nat \<Rightarrow> ('a log_state_scheme, unit) kmon" where
  "write_log_block tail =
     kbind (kget log) (\<lambda>l.
     kbind (bread (lg_dev l) (lg_start l + tail + 1)) (\<lambda>to.
     kbind (bread (lg_dev l) (lg_block l ! tail)) (\<lambda>from.
     kbind (buf_data from) (\<lambda>d.
     kseq (set_data to d)
    (kseq (bwrite to)
    (kseq (brelse from)
          (brelse to)))))))"

definition write_log :: "('a log_state_scheme, unit) kmon" where
  "write_log = kbind (kget log) (\<lambda>l. kfor [0..<nat (lg_n l)] write_log_block)"

definition install_block :: "nat \<Rightarrow> ('a log_state_scheme, unit) kmon" where
  "install_block tail =
     kbind (kget log) (\<lambda>l.
     kbind (bread (lg_dev l) (lg_start l + tail + 1)) (\<lambda>lbuf.
     kbind (bread (lg_dev l) (lg_block l ! tail)) (\<lambda>dbuf.
     kbind (buf_data lbuf) (\<lambda>d.
     kseq (set_data dbuf d)
    (kseq (bwrite dbuf)
    (kseq (bunpin dbuf)
    (kseq (brelse lbuf)
          (brelse dbuf))))))))"

definition install_trans :: "('a log_state_scheme, unit) kmon" where
  "install_trans = kbind (kget log) (\<lambda>l. kfor [0..<nat (lg_n l)] install_block)"

definition recover_from_log :: "('a log_state_scheme, unit) kmon" where
  "recover_from_log =
     kseq read_head
    (kseq install_trans
    (kseq (set_log (\<lambda>l. l\<lparr>lg_n := 0\<rparr>))
          write_head))"

definition initlog :: "nat \<Rightarrow> superblock \<Rightarrow> ('a log_state_scheme, unit) kmon" where
  "initlog dev sb =
     (if 4 * (1 + LOGSIZE) \<ge> BSIZE then kpanic ''initlog: too big logheader''
      else
        kseq (set_log (\<lambda>l. l\<lparr>lg_start := sb_logstart sb, lg_size := sb_nlog sb, lg_dev := dev\<rparr>))
             recover_from_log)"

definition commit :: "('a log_state_scheme, unit) kmon" where
  "commit =
     kbind (kget log) (\<lambda>l.
     kwhen (lg_n l > 0)
       (kseq write_log
       (kseq write_head
       (kseq install_trans
       (kseq (set_log (\<lambda>l. l\<lparr>lg_n := 0\<rparr>))
             write_head)))))"

section \<open>Transactions\<close>

definition begin_op :: "('a log_state_scheme, unit) kmon" where
  "begin_op =
     kbind (kget log) (\<lambda>l.
     if lg_committing l then sleep ChanLog
     else if lg_n l + (lg_outstanding l + 1) * int MAXOPBLOCKS > int LOGSIZE then sleep ChanLog
     else set_log (\<lambda>l. l\<lparr>lg_outstanding := lg_outstanding l + 1\<rparr>))"

definition end_op :: "('a log_state_scheme, unit) kmon" where
  "end_op =
     kseq (set_log (\<lambda>l. l\<lparr>lg_outstanding := lg_outstanding l - 1\<rparr>))
    (kbind (kget log) (\<lambda>l.
     if lg_committing l then kpanic ''log.committing''
     else if lg_outstanding l = 0 then
       kseq (set_log (\<lambda>l. l\<lparr>lg_committing := True\<rparr>))
      (kseq commit
      (kseq (set_log (\<lambda>l. l\<lparr>lg_committing := False\<rparr>))
            (wakeup ChanLog)))
     else wakeup ChanLog))"

text \<open>\<open>log_slot\<close> is the index at which the search loop of \<^verbatim>\<open>log_write\<close> stops.\<close>

definition log_slot :: "logt \<Rightarrow> nat \<Rightarrow> nat" where
  "log_slot l b =
     (case find (\<lambda>i. lg_block l ! i = b) [0..<nat (lg_n l)] of Some i \<Rightarrow> i | None \<Rightarrow> nat (lg_n l))"

definition log_write :: "nat \<Rightarrow> ('a log_state_scheme, unit) kmon" where
  "log_write b =
     kbind (kget log) (\<lambda>l.
     if lg_n l \<ge> int LOGSIZE \<or> lg_n l \<ge> int (lg_size l) - 1 then kpanic ''too big a transaction''
     else if lg_outstanding l < 1 then kpanic ''log_write outside of trans''
     else
       kbind (kget (\<lambda>s. b_blockno (bufs s ! b))) (\<lambda>blockno.
       let i = log_slot l blockno in
       kseq (set_log (\<lambda>l. l\<lparr>lg_block := (lg_block l)[i := blockno]\<rparr>))
            (kwhen (int i = lg_n l)
              (kseq (bpin b)
                    (set_log (\<lambda>l. l\<lparr>lg_n := lg_n l + 1\<rparr>))))))"

end
