(* ===== verification/Log_Spec.thy ===== *)
theory Log_Spec
  imports Log
begin

text \<open>
  What the log does, on the client's view of the buffer cache: the exact sequence of disk
  writes of \<^verbatim>\<open>write_log\<close>, \<^verbatim>\<open>write_head\<close>, \<^verbatim>\<open>install_trans\<close> and \<^verbatim>\<open>commit\<close>, and the state they leave.
\<close>

lemma bstep_log: "bstep B s s' \<Longrightarrow> log s' = log s"
  by (auto simp: bstep_def bframe_def)

text \<open>Two buffers of different blocks, as the commit and the recovery use them.\<close>

lemma bread2_spec:
  assumes ok: "bio_ok s" and ab: "a \<noteq> b" "a < 2 ^ 31" "b < 2 ^ 31"
    and nh: "a \<notin> c_held (acache s)" "b \<notin> c_held (acache s)"
    and room: "card {c. c_refs (acache s) c > 0} + (if c_refs (acache s) b > 0 then 1 else 2) \<le> NBUF"
    and small: "c_refs (acache s) a \<le> 1" "c_refs (acache s) b \<le> 1"
  shows "\<exists>i j s1 s2. bread ROOTDEV a s = Ok i s1 \<and> bread ROOTDEV b s1 = Ok j s2 \<and> log s1 = log s \<and> bstep {} s s2 \<and>
     buf_for s2 i a \<and> buf_for s2 j b \<and> i \<noteq> j \<and>
     acache s2 = (acache s)\<lparr>c_refs := (c_refs (acache s))(a := Suc (c_refs (acache s) a), b := Suc (c_refs (acache s) b)),
       c_held := insert b (insert a (c_held (acache s)))\<rparr>"
proof -
  obtain i s1 where 1: "bread ROOTDEV a s = Ok i s1" "bstep {} s s1" "buf_for s1 i a"
     and a1: "acache s1 = (acache s)\<lparr>c_refs := (c_refs (acache s))(a := Suc (c_refs (acache s) a)),
       c_held := insert a (c_held (acache s))\<rparr>"
    using bread_spec [OF ok ab(2) nh(1)] room small by (fastforce split: if_splits)
  have eq: "c_refs (acache s1) = (c_refs (acache s))(a := Suc (c_refs (acache s) a))" by (simp add: a1)
  have "card {c. c_refs (acache s1) c > 0} \<le> Suc (card {c. c_refs (acache s) c > 0})"
    unfolding eq by (rule card_insert_room [OF finite_refs [OF ok]])
  then have room1: "c_refs (acache s1) b > 0 \<or> card {c. c_refs (acache s1) c > 0} < NBUF"
    using room ab(1) eq by (cases "c_refs (acache s) b > 0") simp_all
  obtain j s2 where 2: "bread ROOTDEV b s1 = Ok j s2" "bstep {} s1 s2" "buf_for s2 j b"
     and a2: "acache s2 = (acache s1)\<lparr>c_refs := (c_refs (acache s1))(b := Suc (c_refs (acache s1) b)),
       c_held := insert b (c_held (acache s1))\<rparr>"
    using bread_spec [OF bstep_ok [OF 1(2)] ab(3) _ room1] ab(1) nh small unfolding a1 by fastforce
  have "buf_for s2 i a" using bstep_keep [OF 2(2) 1(3)] by simp
  moreover have "i \<noteq> j" using calculation 2(3) ab(1) by (auto simp: buf_for_def names_def)
  ultimately show ?thesis
    using 1 2 a1 a2 ab(1) bstep_trans [OF 1(2) 2(2)] bstep_log [OF 1(2)] by auto
qed

lemma write_log_block_spec:
  assumes ok: "bio_ok s" and dev: "lg_dev (log s) = ROOTDEV"
    and a: "a = lg_start (log s) + k + 1" and b: "b = lg_block (log s) ! k"
    and ab: "a \<noteq> b" "a < 2 ^ 31" "b < 2 ^ 31" and nh: "c_held (acache s) = {}"
    and room: "card {c. c_refs (acache s) c > 0} < NBUF"
    and refs: "c_refs (acache s) a = 0" "c_refs (acache s) b = 1"
  shows "\<exists>s'. write_log_block k s = Ok () s' \<and> bstep {} s s' \<and>
     acache s' = (acache s)\<lparr>c_view := (c_view (acache s))(a := c_view (acache s) b),
       c_disk := (c_disk (acache s))(a := c_view (acache s) b),
       c_trace := c_trace (acache s) @ [(a, c_view (acache s) b)]\<rparr>"
proof -
  obtain i j s1 s2 where 1: "bread ROOTDEV a s = Ok i s1" "bread ROOTDEV b s1 = Ok j s2" "log s1 = log s" "bstep {} s s2"
     "buf_for s2 i a" "buf_for s2 j b" and
     a2: "acache s2 = (acache s)\<lparr>c_refs := (c_refs (acache s))(a := Suc (c_refs (acache s) a), b := Suc (c_refs (acache s) b)),
       c_held := insert b (insert a (c_held (acache s)))\<rparr>"
    using bread2_spec [OF ok ab] nh room refs by auto
  note ok2 = bstep_ok [OF 1(4)]
  let ?d = "c_view (acache s) b"
  obtain s3 where 3: "set_data i ?d s2 = Ok () s3" "bstep {} s2 s3" "buf_for s3 i a"
    "acache s3 = (acache s2)\<lparr>c_view := (c_view (acache s2))(a := ?d)\<rparr>"
    using set_data_spec [OF ok2 1(5), of ?d] view_length [OF ok] by blast
  obtain s4 where 4: "bwrite i s3 = Ok () s4" "bstep {} s3 s4" "buf_for s4 i a"
    "acache s4 = (acache s3)\<lparr>c_disk := (c_disk (acache s3))(a := c_view (acache s3) a),
      c_trace := c_trace (acache s3) @ [(a, c_view (acache s3) a)]\<rparr>"
    using bwrite_spec [OF bstep_ok [OF 3(2)] 3(3)] by blast
  have j4: "buf_for s4 j b" using bstep_keep [OF 4(2) bstep_keep [OF 3(2) 1(6)]] by simp
  obtain s5 where 5: "brelse j s4 = Ok () s5" "bstep {b} s4 s5"
    "acache s5 = (acache s4)\<lparr>c_refs := (c_refs (acache s4))(b := c_refs (acache s4) b - 1),
      c_held := c_held (acache s4) - {b}\<rparr>"
    using brelse_spec [OF bstep_ok [OF 4(2)] j4] refs ab(1) by (auto simp: 3(4) 4(4) a2)
  have i5: "buf_for s5 i a" using bstep_keep [OF 5(2) 4(3)] ab(1) by simp
  obtain s6 where 6: "brelse i s5 = Ok () s6" "bstep {a} s5 s6"
    "acache s6 = (acache s5)\<lparr>c_refs := (c_refs (acache s5))(a := c_refs (acache s5) a - 1),
      c_held := c_held (acache s5) - {a}\<rparr>"
    using brelse_spec [OF bstep_ok [OF 5(2)] i5] ab(1) by (auto simp: 3(4) 4(4) 5(3) a2)
  have "bstep {a, b} s s6"
    using bstep_trans [OF bstep_trans [OF bstep_trans [OF bstep_trans [OF 1(4) 3(2)] 4(2)] 5(2)] 6(2)]
    by (rule bstep_weaken) auto
  then have "bstep {} s s6" using bstep_unheld ok nh by blast
  moreover have "acache s6 = (acache s)\<lparr>c_view := (c_view (acache s))(a := ?d),
       c_disk := (c_disk (acache s))(a := ?d), c_trace := c_trace (acache s) @ [(a, ?d)]\<rparr>"
    using refs nh ab(1) unfolding 6(3) 5(3) 4(4) 3(4) a2 by (cases "acache s") (auto simp: fun_eq_iff)
  moreover have "write_log_block k s = Ok () s6"
    using 1(1-3) 3(1) 4(1) 5(1) 6(1) dev buf_data_spec [OF ok2 1(6)]
    by (simp add: write_log_block_def a b a2)
  ultimately show ?thesis by blast
qed

lemma install_block_spec:
  assumes ok: "bio_ok s" and dev: "lg_dev (log s) = ROOTDEV"
    and a: "a = lg_start (log s) + k + 1" and b: "b = lg_block (log s) ! k"
    and ab: "a \<noteq> b" "a < 2 ^ 31" "b < 2 ^ 31" and nh: "c_held (acache s) = {}"
    and room: "card {c. c_refs (acache s) c > 0} + (if c_refs (acache s) b > 0 then 1 else 2) \<le> NBUF"
    and refs: "c_refs (acache s) a = 0" "c_refs (acache s) b \<le> 1"
    and clean: "c_view (acache s) a = c_disk (acache s) a"
  shows "\<exists>s'. install_block k s = Ok () s' \<and> bstep {} s s' \<and>
     acache s' = (acache s)\<lparr>c_view := (c_view (acache s))(b := c_view (acache s) a),
       c_refs := (c_refs (acache s))(b := unat (of_nat (c_refs (acache s) b) - 1 :: uint32)),
       c_disk := (c_disk (acache s))(b := c_view (acache s) a),
       c_trace := c_trace (acache s) @ [(b, c_view (acache s) a)]\<rparr>"
proof -
  obtain i j s1 s2 where 1: "bread ROOTDEV a s = Ok i s1" "bread ROOTDEV b s1 = Ok j s2" "log s1 = log s" "bstep {} s s2"
     "buf_for s2 i a" "buf_for s2 j b" and
     a2: "acache s2 = (acache s)\<lparr>c_refs := (c_refs (acache s))(a := Suc (c_refs (acache s) a), b := Suc (c_refs (acache s) b)),
       c_held := insert b (insert a (c_held (acache s)))\<rparr>"
    using bread2_spec [OF ok ab _ _ room] nh refs by auto
  note ok2 = bstep_ok [OF 1(4)]
  let ?d = "c_view (acache s) a"
  obtain s3 where 3: "set_data j ?d s2 = Ok () s3" "bstep {} s2 s3" "buf_for s3 j b"
    "acache s3 = (acache s2)\<lparr>c_view := (c_view (acache s2))(b := ?d)\<rparr>"
    using set_data_spec [OF ok2 1(6), of ?d] view_length [OF ok] by blast
  obtain s4 where 4: "bwrite j s3 = Ok () s4" "bstep {} s3 s4" "buf_for s4 j b"
    "acache s4 = (acache s3)\<lparr>c_disk := (c_disk (acache s3))(b := c_view (acache s3) b),
      c_trace := c_trace (acache s3) @ [(b, c_view (acache s3) b)]\<rparr>"
    using bwrite_spec [OF bstep_ok [OF 3(2)] 3(3)] by blast
  have i4: "buf_for s4 i a" using bstep_keep [OF 4(2) bstep_keep [OF 3(2) 1(5)]] by simp
  obtain s5 where 5: "kseq (bunpin j) (kseq (brelse i) (brelse j)) s4 = Ok () s5" "bstep {a, b} s4 s5"
    "acache s5 = (acache s4)\<lparr>
      c_refs := (c_refs (acache s4))(a := c_refs (acache s4) a - 1, b := unat (of_nat (c_refs (acache s4) b) - 2 :: uint32)),
      c_held := c_held (acache s4) - {a, b}\<rparr>"
    using unpin_release_spec [OF bstep_ok [OF 4(2)] i4 4(3) ab(1)] clean ab(1) by (auto simp: 3(4) 4(4) a2)
  have "bstep {a, b} s s5"
    using bstep_trans [OF bstep_trans [OF bstep_trans [OF 1(4) 3(2)] 4(2)] 5(2)] by (rule bstep_weaken) auto
  then have "bstep {} s s5" using bstep_unheld ok nh by blast
  moreover have "acache s5 = (acache s)\<lparr>c_view := (c_view (acache s))(b := ?d),
       c_refs := (c_refs (acache s))(b := unat (of_nat (c_refs (acache s) b) - 1 :: uint32)),
       c_disk := (c_disk (acache s))(b := ?d), c_trace := c_trace (acache s) @ [(b, ?d)]\<rparr>"
    using refs nh ab(1) unfolding 5(3) 4(4) 3(4) a2 by (cases "acache s") (auto simp: fun_eq_iff)
  moreover have "install_block k s = Ok () s5"
    using 1(1-3) 3(1) 4(1) 5(1) dev buf_data_spec [OF ok2 1(5)]
    by (simp add: install_block_def a b a2)
  ultimately show ?thesis by blast
qed

lemma write_head_spec:
  assumes ok: "bio_ok s" and dev: "lg_dev (log s) = ROOTDEV" and a: "a = lg_start (log s)" "a < 2 ^ 31"
    and nh: "c_held (acache s) = {}" and room: "card {c. c_refs (acache s) c > 0} < NBUF"
    and refs: "c_refs (acache s) a = 0"
    and len: "length (put_head (lg_n (log s)) (lg_block (log s)) (c_view (acache s) a)) = BSIZE"
  defines "d \<equiv> put_head (lg_n (log s)) (lg_block (log s)) (c_view (acache s) a)"
  shows "\<exists>s'. write_head s = Ok () s' \<and> bstep {} s s' \<and>
     acache s' = (acache s)\<lparr>c_view := (c_view (acache s))(a := d), c_disk := (c_disk (acache s))(a := d),
       c_trace := c_trace (acache s) @ [(a, d)]\<rparr>"
proof -
  obtain i s1 where 1: "bread ROOTDEV a s = Ok i s1" "bstep {} s s1" "buf_for s1 i a"
     and a1: "acache s1 = (acache s)\<lparr>c_refs := (c_refs (acache s))(a := Suc (c_refs (acache s) a)),
       c_held := insert a (c_held (acache s))\<rparr>"
    using bread_spec [OF ok a(2)] nh room refs by auto
  note ok1 = bstep_ok [OF 1(2)]
  obtain s3 where 3: "set_data i d s1 = Ok () s3" "bstep {} s1 s3" "buf_for s3 i a"
    "acache s3 = (acache s1)\<lparr>c_view := (c_view (acache s1))(a := d)\<rparr>"
    using set_data_spec [OF ok1 1(3), of d] len unfolding d_def by blast
  obtain s4 where 4: "bwrite i s3 = Ok () s4" "bstep {} s3 s4" "buf_for s4 i a"
    "acache s4 = (acache s3)\<lparr>c_disk := (c_disk (acache s3))(a := c_view (acache s3) a),
      c_trace := c_trace (acache s3) @ [(a, c_view (acache s3) a)]\<rparr>"
    using bwrite_spec [OF bstep_ok [OF 3(2)] 3(3)] by blast
  obtain s5 where 5: "brelse i s4 = Ok () s5" "bstep {a} s4 s5"
    "acache s5 = (acache s4)\<lparr>c_refs := (c_refs (acache s4))(a := c_refs (acache s4) a - 1),
      c_held := c_held (acache s4) - {a}\<rparr>"
    using brelse_spec [OF bstep_ok [OF 4(2)] 4(3)] by (auto simp: 3(4) 4(4) a1)
  have "bstep {a} s s5"
    using bstep_trans [OF bstep_trans [OF bstep_trans [OF 1(2) 3(2)] 4(2)] 5(2)] by (rule bstep_weaken) auto
  then have "bstep {} s s5" using bstep_unheld ok nh by blast
  moreover have "acache s5 = (acache s)\<lparr>c_view := (c_view (acache s))(a := d),
       c_disk := (c_disk (acache s))(a := d), c_trace := c_trace (acache s) @ [(a, d)]\<rparr>"
    using refs nh unfolding 5(3) 4(4) 3(4) a1 by (cases "acache s") (auto simp: fun_eq_iff)
  moreover have "write_head s = Ok () s5"
    using 1(1,2) 3(1) 4(1) 5(1) dev a buf_data_spec [OF ok1 1(3)]
    by (simp add: write_head_def a1 d_def)
  ultimately show ?thesis by blast
qed

section \<open>The header block on disk\<close>

lemma length_put_blocks:
  "set xs \<subseteq> {..<LOGSIZE} \<Longrightarrow> length e = BSIZE \<Longrightarrow>
     length (fold (\<lambda>i d. put32 (4 + 4 * i) (of_nat (bl ! i)) d) xs e) = BSIZE"
  by (induction xs arbitrary: e) (auto simp: params)

lemma length_put_head:
  assumes "nat n \<le> LOGSIZE" and "length d = BSIZE"
  shows "length (put_head n bl d) = BSIZE"
  unfolding put_head_def using assms by (intro length_put_blocks) (auto simp: params)

lemma put_blocks_other:
  assumes "off + 4 \<le> 4 \<or> (\<exists>k. off = 4 + 4 * k \<and> k \<notin> set xs)" and "set xs \<subseteq> {..<LOGSIZE}" and "length d = BSIZE"
  shows "get32 off (fold (\<lambda>i d. put32 (4 + 4 * i) (of_nat (bl ! i)) d) xs d) = get32 off d"
  using assms
proof (induction xs arbitrary: d)
  case (Cons x xs)
  have "get32 off (put32 (4 + 4 * x) (of_nat (bl ! x)) d) = get32 off d"
    using Cons.prems by (intro get32_put32_disjoint) (auto simp: params)
  with Cons show ?case by (auto simp: params)
qed simp

lemma put_blocks_same:
  assumes "k \<in> set xs" and "distinct xs" and "set xs \<subseteq> {..<LOGSIZE}" and "length d = BSIZE"
  shows "get32 (4 + 4 * k) (fold (\<lambda>i d. put32 (4 + 4 * i) (of_nat (bl ! i)) d) xs d) = of_nat (bl ! k)"
  using assms
proof (induction xs arbitrary: d)
  case (Cons x xs)
  show ?case
  proof (cases "x = k")
    case True
    then show ?thesis
      using Cons.prems put_blocks_other [of "4 + 4 * k" xs "put32 (4 + 4 * k) (of_nat (bl ! k)) d" bl]
      by (auto simp: params get32_put32)
  next
    case False
    with Cons show ?thesis by (auto simp: params)
  qed
qed simp

lemma head_n_put_head:
  assumes "0 \<le> n" and "n \<le> int LOGSIZE" and "length d = BSIZE"
  shows "head_n (put_head n bl d) = n"
proof -
  have "get32 0 (put_head n bl d) = of_int n"
    unfolding put_head_def using assms by (subst put_blocks_other) (auto simp: params get32_put32)
  moreover have "sint (of_int n :: uint32) = n"
    using assms by (simp add: sint_uint uint_word_of_int params signed_take_bit_int_eq_self)
  ultimately show ?thesis by (simp add: head_n_def)
qed

lemma head_block_put_head:
  assumes "i < nat n" and "nat n \<le> LOGSIZE" and "length d = BSIZE" and "bl ! i < 2 ^ 32"
  shows "head_block i (put_head n bl d) = bl ! i"
proof -
  have "get32 (4 + 4 * i) (put_head n bl d) = of_nat (bl ! i)"
    unfolding put_head_def using assms by (intro put_blocks_same) (auto simp: params)
  then show ?thesis using assms(4) by (simp add: head_block_def unat_of_nat_small)
qed

section \<open>Sequences of disk writes\<close>

definition replay :: "(nat \<times> bytes) list \<Rightarrow> disk \<Rightarrow> disk" where
  "replay ws dk = fold (\<lambda>(b, d) dk. dk(b := d)) ws dk"

lemma replay_Nil [simp]: "replay [] dk = dk"
  by (simp add: replay_def)

lemma replay_append [simp]: "replay (xs @ ys) dk = replay ys (replay xs dk)"
  by (simp add: replay_def)

lemma replay_Cons [simp]: "replay ((b, d) # ws) dk = replay ws (dk(b := d))"
  by (simp add: replay_def)

lemma replay_other: "b \<notin> fst ` set ws \<Longrightarrow> replay ws dk b = dk b"
  by (induction ws rule: rev_induct) auto

lemma replay_map:
  assumes "inj_on f (set xs)" and "distinct xs" and "t \<in> set xs"
  shows "replay (map (\<lambda>t. (f t, g t)) xs) dk (f t) = g t"
  using assms
proof (induction xs rule: rev_induct)
  case (snoc x xs)
  then show ?case by (auto simp: inj_on_def)
qed simp

section \<open>The layout of the log\<close>

definition log_area :: "logt \<Rightarrow> nat set" where
  "log_area l = {lg_start l ..< lg_start l + LOGSIZE}"

definition logged :: "logt \<Rightarrow> nat list" where
  "logged l = take (nat (lg_n l)) (lg_block l)"

text \<open>At most \<open>NBUF - 1\<close> blocks: \<open>commit\<close> pins them all and needs a buffer for the log
  block it copies.\<close>

definition log_wf :: "logt \<Rightarrow> bool" where
  "log_wf l \<longleftrightarrow>
     lg_dev l = ROOTDEV \<and> lg_start l + LOGSIZE < 2 ^ 31 \<and> length (lg_block l) = LOGSIZE \<and>
     0 \<le> lg_n l \<and> lg_n l < int NBUF \<and> distinct (logged l) \<and>
     (\<forall>b\<in>set (logged l). b < 2 ^ 31 \<and> b \<notin> log_area l)"

definition log_writes :: "logt \<Rightarrow> disk \<Rightarrow> (nat \<times> bytes) list" where
  "log_writes l v = map (\<lambda>t. (lg_start l + t + 1, v (lg_block l ! t))) [0..<nat (lg_n l)]"

definition home_writes :: "logt \<Rightarrow> disk \<Rightarrow> (nat \<times> bytes) list" where
  "home_writes l v = map (\<lambda>t. (lg_block l ! t, v (lg_start l + t + 1))) [0..<nat (lg_n l)]"

lemma log_wf_bound: "log_wf l \<Longrightarrow> nat (lg_n l) < LOGSIZE \<and> nat (lg_n l) < NBUF"
  by (simp add: log_wf_def params nat_less_iff)

lemma logged_nth: "log_wf l \<Longrightarrow> t < nat (lg_n l) \<Longrightarrow> logged l ! t = lg_block l ! t"
  by (simp add: logged_def)

lemma length_logged: "log_wf l \<Longrightarrow> length (logged l) = nat (lg_n l)"
  using log_wf_bound [of l] by (simp add: logged_def log_wf_def)

lemma logged_set: "log_wf l \<Longrightarrow> set (logged l) = (\<lambda>t. lg_block l ! t) ` {..<nat (lg_n l)}"
  using length_logged [of l] logged_nth [of l] unfolding set_conv_nth by force

lemma log_wf_nth:
  assumes "log_wf l" and "t < nat (lg_n l)"
  shows "lg_block l ! t \<in> set (logged l)" and "lg_block l ! t < 2 ^ 31" and "lg_block l ! t \<notin> log_area l"
    and "lg_start l + t + 1 \<in> log_area l" and "lg_start l + t + 1 < 2 ^ 31"
proof -
  show m: "lg_block l ! t \<in> set (logged l)"
    using assms logged_set by simp
  show "lg_block l ! t < 2 ^ 31" and "lg_block l ! t \<notin> log_area l"
    using m assms(1) by (auto simp: log_wf_def)
  show "lg_start l + t + 1 \<in> log_area l" using log_wf_bound [OF assms(1)] assms(2) by (simp add: log_area_def)
  then show "lg_start l + t + 1 < 2 ^ 31" using assms(1) by (auto simp: log_wf_def log_area_def)
qed

lemma logged_inj:
  assumes "log_wf l"
  shows "inj_on (\<lambda>t. lg_block l ! t) {..<nat (lg_n l)}"
proof -
  have "distinct (logged l)" using assms by (simp add: log_wf_def)
  then show ?thesis
    using assms by (intro inj_onI) (metis length_logged lessThan_iff logged_nth nth_eq_iff_index_eq)
qed

lemma card_logged: "log_wf l \<Longrightarrow> card (set (logged l)) = nat (lg_n l)"
  by (simp add: logged_set card_image logged_inj)

section \<open>Commit\<close>

text \<open>No buffer is held; exactly the logged blocks are pinned, once.\<close>

definition log_quiet :: "'a log_state_scheme \<Rightarrow> bool" where
  "log_quiet s \<longleftrightarrow> bio_ok s \<and> log_wf (log s) \<and> c_held (acache s) = {} \<and>
     c_refs (acache s) = (\<lambda>b. if b \<in> set (logged (log s)) then 1 else 0)"

lemma write_log_spec:
  assumes q: "log_quiet s"
  defines "W \<equiv> log_writes (log s) (c_view (acache s))"
  shows "\<exists>s'. write_log s = Ok () s' \<and> bstep {} s s' \<and>
    acache s' = (acache s)\<lparr>c_view := replay W (c_view (acache s)), c_disk := replay W (c_disk (acache s)),
      c_trace := c_trace (acache s) @ W\<rparr>"
proof -
  let ?l = "log s" and ?v = "c_view (acache s)"
  let ?W = "\<lambda>k. map (\<lambda>t. (lg_start ?l + t + 1, ?v (lg_block ?l ! t))) [0..<k]"
  let ?I = "\<lambda>k t. bstep {} s t \<and> acache t = (acache s)\<lparr>c_view := replay (?W k) ?v,
      c_disk := replay (?W k) (c_disk (acache s)), c_trace := c_trace (acache s) @ ?W k\<rparr>"
  have wf: "log_wf ?l" and ok: "bio_ok s" using q by (auto simp: log_quiet_def)
  have card: "card {c. c_refs (acache s) c > 0} < NBUF"
    using q log_wf_bound [OF wf] card_logged [OF wf] by (simp add: log_quiet_def)
  have step: "\<exists>t'. write_log_block k t = Ok () t' \<and> ?I (Suc k) t'" if k: "k < nat (lg_n ?l)" and I: "?I k t" for k t
  proof -
    let ?a = "lg_start ?l + k + 1" and ?b = "lg_block ?l ! k"
    note kf = log_wf_nth [OF wf k]
    note B = conjunct1 [OF I] and A = conjunct2 [OF I]
    note l = bstep_log [OF B] and okt = bstep_ok [OF B]
    have cur: "replay (?W k) ?v ?b = ?v ?b"
      using kf(3) log_wf_nth(4) [OF wf] k by (intro replay_other) (auto simp: image_iff)
    have ab: "?a \<noteq> ?b" using kf(3,4) by auto
    have "?a \<notin> set (logged ?l)" using kf(4) wf by (auto simp: log_wf_def)
    then have p: "c_held (acache t) = {}" "card {c. c_refs (acache t) c > 0} < NBUF"
      "c_refs (acache t) ?a = 0" "c_refs (acache t) ?b = 1"
      using q card kf(1) by (simp_all add: A log_quiet_def)
    have "lg_dev (log t) = ROOTDEV" "?a = lg_start (log t) + k + 1" "?b = lg_block (log t) ! k"
      using l wf by (simp_all add: log_wf_def)
    from write_log_block_spec [OF okt this ab kf(5,2) p]
    obtain t' where t': "write_log_block k t = Ok () t'" "bstep {} t t'"
      "acache t' = (acache t)\<lparr>c_view := (c_view (acache t))(?a := c_view (acache t) ?b),
       c_disk := (c_disk (acache t))(?a := c_view (acache t) ?b),
       c_trace := c_trace (acache t) @ [(?a, c_view (acache t) ?b)]\<rparr>" by blast
    show ?thesis using t' cur bstep_trans [OF B t'(2)] by (simp add: A)
  qed
  have "?I 0 s" using bstep_refl [OF ok] by simp
  from kfor_upt [where I = ?I and f = write_log_block, OF step this] show ?thesis
    by (simp add: write_log_def W_def log_writes_def)
qed

lemma install_room:
  assumes wf: "log_wf l" and k: "k < nat (lg_n l)" and r: "r \<le> 1"
  shows "card {b. 0 < (if b \<in> (\<lambda>t. lg_block l ! t) ` {..<k} then unat (of_nat r - 1 :: uint32)
      else if b \<in> set (logged l) then r else 0)} + (if r > 0 then 1 else 2) \<le> NBUF"
    (is "card ?S + _ \<le> _")
proof (cases "r = 0")
  case True
  have "?S \<subseteq> (\<lambda>t. lg_block l ! t) ` {..<k}"
    using True by (auto split: if_splits)
  then have "card ?S \<le> card ((\<lambda>t. lg_block l ! t) ` {..<k})"
    by (rule card_mono [rotated]) simp
  also have "\<dots> \<le> k" using card_image_le [of "{..<k}" "\<lambda>t. lg_block l ! t"] by simp
  finally have "card ?S \<le> k" .
  moreover have "k + 2 \<le> NBUF" using k log_wf_bound [OF wf] by auto
  ultimately show ?thesis using True by simp
next
  case False
  then have "r = 1" using r by simp
  then have "?S \<subseteq> set (logged l)"
    by (auto split: if_splits)
  then have "card ?S \<le> card (set (logged l))"
    by (rule card_mono [rotated]) simp
  also have "\<dots> = nat (lg_n l)" by (rule card_logged [OF wf])
  finally show ?thesis using False log_wf_bound [OF wf] by simp
qed

lemma install_trans_spec:
  assumes ok: "bio_ok s" and wf: "log_wf (log s)" and nh: "c_held (acache s) = {}"
    and refs: "c_refs (acache s) = (\<lambda>b. if b \<in> set (logged (log s)) then r else 0)" and r: "r \<le> 1"
    and clean: "\<forall>a\<in>log_area (log s). c_view (acache s) a = c_disk (acache s) a"
  defines "W \<equiv> home_writes (log s) (c_view (acache s))"
  shows "\<exists>s'. install_trans s = Ok () s' \<and> bstep {} s s' \<and>
    acache s' = (acache s)\<lparr>c_view := replay W (c_view (acache s)),
      c_refs := (\<lambda>b. if b \<in> set (logged (log s)) then unat (of_nat r - 1 :: uint32) else 0),
      c_disk := replay W (c_disk (acache s)), c_trace := c_trace (acache s) @ W\<rparr>"
proof -
  let ?l = "log s" and ?v = "c_view (acache s)" and ?n = "nat (lg_n (log s))"
  let ?W = "\<lambda>k. map (\<lambda>t. (lg_block ?l ! t, ?v (lg_start ?l + t + 1))) [0..<k]"
  let ?r' = "unat (of_nat r - 1 :: uint32)"
  let ?R = "\<lambda>k b. if b \<in> (\<lambda>t. lg_block ?l ! t) ` {..<k} then ?r' else if b \<in> set (logged ?l) then r else 0"
  let ?I = "\<lambda>k t. bstep {} s t \<and> acache t = (acache s)\<lparr>c_view := replay (?W k) ?v, c_refs := ?R k,
      c_disk := replay (?W k) (c_disk (acache s)), c_trace := c_trace (acache s) @ ?W k\<rparr>"
  have step: "\<exists>t'. install_block k t = Ok () t' \<and> ?I (Suc k) t'" if k: "k < ?n" and I: "?I k t" for k t
  proof -
    let ?a = "lg_start ?l + k + 1" and ?b = "lg_block ?l ! k"
    note kf = log_wf_nth [OF wf k]
    note B = conjunct1 [OF I] and A = conjunct2 [OF I]
    note l = bstep_log [OF B] and okt = bstep_ok [OF B]
    have cur: "replay (?W k) ?v ?a = ?v ?a" "replay (?W k) (c_disk (acache s)) ?a = c_disk (acache s) ?a"
      using kf(4) log_wf_nth(3) [OF wf] k by (auto intro!: replay_other)
    have new: "?b \<notin> (\<lambda>t. lg_block ?l ! t) ` {..<k}"
    proof
      assume "?b \<in> (\<lambda>t. lg_block ?l ! t) ` {..<k}"
      then obtain u where "u < k" "lg_block ?l ! u = ?b" by auto
      then show False using inj_onD [OF logged_inj [OF wf], of u k] k by simp
    qed
    have ab: "?a \<noteq> ?b" using kf(3,4) by auto
    have na: "?a \<notin> set (logged ?l)" using kf(4) wf by (auto simp: log_wf_def)
    have ref: "c_refs (acache t) ?a = 0" "c_refs (acache t) ?b = r"
      using kf(1) new na k log_wf_nth(1) [OF wf] by (auto simp: A)
    have room: "card {c. c_refs (acache t) c > 0} + (if c_refs (acache t) ?b > 0 then 1 else 2) \<le> NBUF"
      using install_room [OF wf k r] ref(2) by (simp add: A)
    have p: "c_held (acache t) = {}" "c_refs (acache t) ?b \<le> 1" "c_view (acache t) ?a = c_disk (acache t) ?a"
      using nh ref r clean cur kf(4) by (simp_all add: A)
    have "lg_dev (log t) = ROOTDEV" "?a = lg_start (log t) + k + 1" "?b = lg_block (log t) ! k"
      using l wf by (simp_all add: log_wf_def)
    from install_block_spec [OF okt this ab kf(5,2) p(1) room ref(1) p(2,3)]
    obtain t' where t': "install_block k t = Ok () t'" "bstep {} t t'"
      "acache t' = (acache t)\<lparr>c_view := (c_view (acache t))(?b := c_view (acache t) ?a),
       c_refs := (c_refs (acache t))(?b := unat (of_nat (c_refs (acache t) ?b) - 1 :: uint32)),
       c_disk := (c_disk (acache t))(?b := c_view (acache t) ?a),
       c_trace := c_trace (acache t) @ [(?b, c_view (acache t) ?a)]\<rparr>" by blast
    have "(?R k)(?b := unat (of_nat (?R k ?b) - 1 :: uint32)) = ?R (Suc k)"
      using kf(1) new by (auto simp: fun_eq_iff less_Suc_eq)
    then have "?I (Suc k) t'" using t'(3) cur ref bstep_trans [OF B t'(2)] by (simp add: A)
    with t' show ?thesis by blast
  qed
  have "?I 0 s" using bstep_refl [OF ok] refs by (cases "acache s") simp
  from kfor_upt [where n = ?n and I = ?I and f = install_block, OF step this] show ?thesis
    by (simp add: install_trans_def W_def home_writes_def logged_set [OF wf] cong: if_cong)
qed

lemma log_upd_simps [simp]:
  "acache (s\<lparr>log := l\<rparr>) = acache s"
  "bio_ok (s\<lparr>log := l\<rparr>) = bio_ok s"
  "buf_for (s\<lparr>log := l\<rparr>) i b = buf_for s i b"
  by (simp_all add: acache_def bio_ok_def myproc_of_def buf_for_def)

lemma bframe_log: "bframe s t \<Longrightarrow> bframe (s\<lparr>log := l\<rparr>) (t\<lparr>log := l\<rparr>)"
proof -
  assume "bframe s t"
  then obtain ps bs v dk tr lk where *: "woken (procs s) ps"
    "t = s\<lparr>procs := ps, bufs := bs, vdisk := v, disk := dk, disk_trace := tr, links := lk\<rparr>"
    by (auto simp: bframe_def)
  show ?thesis
    unfolding bframe_def
    by (rule exI [of _ ps], rule exI [of _ bs], rule exI [of _ v], rule exI [of _ dk], rule exI [of _ tr],
        rule exI [of _ lk]) (use * in \<open>cases s, simp\<close>)
qed

text \<open>What operations that also change the log leave alone.\<close>

definition lstep :: "nat set \<Rightarrow> 'a log_state_scheme \<Rightarrow> 'a log_state_scheme \<Rightarrow> bool" where
  "lstep B s s' \<longleftrightarrow> bstep B (s\<lparr>log := log s'\<rparr>) s'"

lemma bstep_lstep: "bstep B s t \<Longrightarrow> lstep B s t"
  using bstep_log [of B s t] by (simp add: lstep_def)

lemma set_log_lstep: "bio_ok s \<Longrightarrow> lstep B s (s\<lparr>log := l\<rparr>)"
  by (simp add: lstep_def bstep_refl)

lemma bstep_set_log: "bstep B s t \<Longrightarrow> bstep B (s\<lparr>log := l\<rparr>) (t\<lparr>log := l\<rparr>)"
  by (simp add: bstep_def bframe_log)

lemma lstep_trans:
  assumes "lstep A s t" and "lstep B t u"
  shows "lstep (A \<union> B) s u"
proof -
  have "bstep A (s\<lparr>log := log u\<rparr>) (t\<lparr>log := log u\<rparr>)"
    using bstep_set_log [OF assms(1) [unfolded lstep_def], of "log u"] by simp
  from bstep_trans [OF this assms(2) [unfolded lstep_def]] show ?thesis by (simp add: lstep_def)
qed

lemma lstep_ok: "lstep B s s' \<Longrightarrow> bio_ok s'"
  by (simp add: lstep_def bstep_def)

section \<open>The writes of a commit\<close>

definition commit_head :: "logt \<Rightarrow> disk \<Rightarrow> bytes" where
  "commit_head l v = put_head (lg_n l) (lg_block l) (v (lg_start l))"

definition install_writes :: "logt \<Rightarrow> disk \<Rightarrow> (nat \<times> bytes) list" where
  "install_writes l v = map (\<lambda>t. (lg_block l ! t, v (lg_block l ! t))) [0..<nat (lg_n l)]"

definition commit_writes :: "logt \<Rightarrow> disk \<Rightarrow> (nat \<times> bytes) list" where
  "commit_writes l v =
     log_writes l v @ [(lg_start l, commit_head l v)] @ install_writes l v @
     [(lg_start l, put_head 0 (lg_block l) (commit_head l v))]"

lemma log_writes_at:
  assumes "t < nat (lg_n l)"
  shows "replay (log_writes l v) dk (lg_start l + t + 1) = v (lg_block l ! t)"
  using replay_map [of "\<lambda>t. lg_start l + t + 1" "[0..<nat (lg_n l)]" t "\<lambda>t. v (lg_block l ! t)" dk] assms
  by (simp add: log_writes_def inj_on_def)

lemma log_writes_other: "b \<notin> log_area l \<or> b = lg_start l \<Longrightarrow> log_wf l \<Longrightarrow> replay (log_writes l v) dk b = dk b"
  using log_wf_bound [of l] by (intro replay_other) (auto simp: log_writes_def log_area_def)

lemma home_after_log:
  assumes wf: "log_wf l" and same: "\<And>t. t < nat (lg_n l) \<Longrightarrow> w (lg_start l + t + 1) = v (lg_block l ! t)"
  shows "home_writes l w = install_writes l v"
  using same by (simp add: home_writes_def install_writes_def)

lemma install_writes_at:
  assumes "log_wf l" and "b \<in> set (logged l)"
  shows "replay (install_writes l v) dk b = v b"
proof -
  obtain t where "t < nat (lg_n l)" "b = lg_block l ! t" using assms logged_set by auto
  then show ?thesis
    using replay_map [of "\<lambda>t. lg_block l ! t" "[0..<nat (lg_n l)]" t "\<lambda>t. v (lg_block l ! t)" dk] logged_inj [OF assms(1)]
    by (simp add: install_writes_def atLeast0LessThan)
qed

lemma install_writes_other: "log_wf l \<Longrightarrow> b \<notin> set (logged l) \<Longrightarrow> replay (install_writes l v) dk b = dk b"
  using log_wf_nth(1) by (intro replay_other) (auto simp: install_writes_def)

lemma replay_cong: "v a = dk a \<Longrightarrow> replay ws v a = replay ws dk a"
  by (induction ws rule: rev_induct) auto

text \<open>The first half of a commit, up to the write of the header.\<close>

lemma commit_log_phase:
  assumes q: "log_quiet s"
  defines "W \<equiv> log_writes (log s) (c_view (acache s)) @ [(lg_start (log s), commit_head (log s) (c_view (acache s)))]"
  shows "\<exists>s'. kseq write_log write_head s = Ok () s' \<and> bstep {} s s' \<and>
    acache s' = (acache s)\<lparr>c_view := replay W (c_view (acache s)), c_disk := replay W (c_disk (acache s)),
      c_trace := c_trace (acache s) @ W\<rparr>"
proof -
  let ?l = "log s" and ?v = "c_view (acache s)"
  let ?H = "commit_head ?l ?v"
  have ok: "bio_ok s" and wf: "log_wf ?l" and nh: "c_held (acache s) = {}"
    and refs: "c_refs (acache s) = (\<lambda>b. if b \<in> set (logged ?l) then 1 else 0)"
    using q by (auto simp: log_quiet_def)
  have dev: "lg_dev ?l = ROOTDEV" and st: "lg_start ?l < 2 ^ 31" and nl: "lg_start ?l \<notin> set (logged ?l)"
    using wf by (auto simp: log_wf_def log_area_def)
  have card: "card {c. c_refs (acache s) c > 0} < NBUF"
    using refs log_wf_bound [OF wf] card_logged [OF wf] by simp
  obtain s1 where 1: "write_log s = Ok () s1" "bstep {} s s1" and
    a1: "acache s1 = (acache s)\<lparr>c_view := replay (log_writes ?l ?v) ?v,
      c_disk := replay (log_writes ?l ?v) (c_disk (acache s)), c_trace := c_trace (acache s) @ log_writes ?l ?v\<rparr>"
    using write_log_spec [OF q] by blast
  have l1: "log s1 = ?l" using bstep_log [OF 1(2)] .
  have H: "put_head (lg_n (log s1)) (lg_block (log s1)) (c_view (acache s1) (lg_start ?l)) = ?H"
    using log_writes_other [of "lg_start ?l" ?l] wf by (simp add: a1 l1 commit_head_def)
  have lenH: "length ?H = BSIZE"
    using length_put_head [of "lg_n ?l" "?v (lg_start ?l)"] log_wf_bound [OF wf] view_length [OF ok]
    by (simp add: commit_head_def)
  obtain s2 where 2: "write_head s1 = Ok () s2" "bstep {} s1 s2" and
    a2: "acache s2 = (acache s1)\<lparr>c_view := (c_view (acache s1))(lg_start ?l := ?H),
       c_disk := (c_disk (acache s1))(lg_start ?l := ?H), c_trace := c_trace (acache s1) @ [(lg_start ?l, ?H)]\<rparr>"
    using write_head_spec [OF bstep_ok [OF 1(2)], of "lg_start ?l"] dev st nh card nl refs H lenH by (auto simp: a1 l1)
  show ?thesis
    using 1(1) 2(1) bstep_trans [OF 1(2) 2(2)] by (intro exI [of _ s2]) (simp add: a2 a1 W_def)
qed

text \<open>The second half, shared with the recovery: install, then clear the header.\<close>

lemma install_and_clear:
  assumes ok: "bio_ok s" and wf: "log_wf (log s)" and nh: "c_held (acache s) = {}"
    and refs: "c_refs (acache s) = (\<lambda>b. if b \<in> set (logged (log s)) then r else 0)" and r: "r \<le> 1"
    and clean: "\<forall>a\<in>log_area (log s). c_view (acache s) a = c_disk (acache s) a"
  defines "W \<equiv> home_writes (log s) (c_view (acache s)) @
      [(lg_start (log s), put_head 0 (lg_block (log s)) (c_view (acache s) (lg_start (log s))))]"
  shows "\<exists>s'. kseq install_trans (kseq (set_log (\<lambda>l. l\<lparr>lg_n := 0\<rparr>)) write_head) s = Ok () s' \<and>
    lstep {} s s' \<and> log s' = (log s)\<lparr>lg_n := 0\<rparr> \<and>
    acache s' = (acache s)\<lparr>c_view := replay W (c_view (acache s)),
      c_refs := (\<lambda>b. if b \<in> set (logged (log s)) then unat (of_nat r - 1 :: uint32) else 0),
      c_disk := replay W (c_disk (acache s)), c_trace := c_trace (acache s) @ W\<rparr>"
proof -
  let ?l = "log s" and ?v = "c_view (acache s)" and ?h = "put_head 0 (lg_block (log s)) (c_view (acache s) (lg_start (log s)))"
  let ?I = "home_writes ?l ?v"
  have dev: "lg_dev ?l = ROOTDEV" and st: "lg_start ?l < 2 ^ 31" and nl: "lg_start ?l \<notin> set (logged ?l)"
    using wf by (auto simp: log_wf_def log_area_def)
  obtain s3 where 3: "install_trans s = Ok () s3" "bstep {} s s3" and
    a3: "acache s3 = (acache s)\<lparr>c_view := replay ?I ?v,
      c_refs := (\<lambda>b. if b \<in> set (logged ?l) then unat (of_nat r - 1 :: uint32) else 0),
      c_disk := replay ?I (c_disk (acache s)), c_trace := c_trace (acache s) @ ?I\<rparr>"
    using install_trans_spec [OF ok wf nh refs r clean] by blast
  let ?s3 = "s3\<lparr>log := ?l\<lparr>lg_n := 0\<rparr>\<rparr>"
  have l3: "log s3 = ?l" using bstep_log [OF 3(2)] .
  have v3: "c_view (acache s3) (lg_start ?l) = ?v (lg_start ?l)"
    using nl log_wf_nth(1) [OF wf] by (simp add: a3) (rule replay_other, auto simp: home_writes_def)
  have "{c. c_refs (acache s3) c > 0} \<subseteq> set (logged ?l)" by (auto simp: a3 split: if_splits)
  then have "card {c. c_refs (acache s3) c > 0} \<le> card (set (logged ?l))" by (rule card_mono [rotated]) simp
  then have card: "card {c. c_refs (acache s3) c > 0} < NBUF" using card_logged [OF wf] log_wf_bound [OF wf] by simp
  have len: "length ?h = BSIZE" using view_length [OF ok] by (intro length_put_head) auto
  obtain s4 where 4: "write_head ?s3 = Ok () s4" "bstep {} ?s3 s4" and
    a4: "acache s4 = (acache s3)\<lparr>c_view := (c_view (acache s3))(lg_start ?l := ?h),
       c_disk := (c_disk (acache s3))(lg_start ?l := ?h), c_trace := c_trace (acache s3) @ [(lg_start ?l, ?h)]\<rparr>"
    using write_head_spec [of ?s3 "lg_start ?l"] bstep_ok [OF 3(2)] dev st nh card nl len v3 by (auto simp: a3)
  have "kseq install_trans (kseq (set_log (\<lambda>l. l\<lparr>lg_n := 0\<rparr>)) write_head) s = Ok () s4"
    using 3(1) 4(1) l3 by (simp add: set_log_def)
  moreover have "lstep {} s s4"
    using lstep_trans [OF bstep_lstep [OF 3(2)]
       lstep_trans [OF set_log_lstep [OF bstep_ok [OF 3(2)], of "{}"] bstep_lstep [OF 4(2)]]] by simp
  moreover have "log s4 = ?l\<lparr>lg_n := 0\<rparr>" using bstep_log [OF 4(2)] by simp
  ultimately show ?thesis
    unfolding W_def by (intro exI [of _ s4]) (cases "acache s", simp add: a4 a3)
qed

lemma commit_spec:
  assumes q: "log_quiet s" and n: "lg_n (log s) > 0"
  defines "T \<equiv> commit_writes (log s) (c_view (acache s))"
  shows "\<exists>s'. commit s = Ok () s' \<and> lstep {} s s' \<and> log s' = (log s)\<lparr>lg_n := 0\<rparr> \<and>
    acache s' = (acache s)\<lparr>c_view := replay T (c_view (acache s)), c_refs := (\<lambda>_. 0),
      c_disk := replay T (c_disk (acache s)), c_trace := c_trace (acache s) @ T\<rparr>"
proof -
  let ?l = "log s" and ?v = "c_view (acache s)" and ?dk = "c_disk (acache s)"
  let ?H = "commit_head ?l ?v"
  let ?W = "log_writes ?l ?v @ [(lg_start ?l, ?H)]"
  have ok: "bio_ok s" and wf: "log_wf ?l" and nh: "c_held (acache s) = {}"
    and refs: "c_refs (acache s) = (\<lambda>b. if b \<in> set (logged ?l) then 1 else 0)"
    using q by (auto simp: log_quiet_def)
  obtain s2 where 2: "kseq write_log write_head s = Ok () s2" "bstep {} s s2" and
    a2: "acache s2 = (acache s)\<lparr>c_view := replay ?W ?v, c_disk := replay ?W ?dk, c_trace := c_trace (acache s) @ ?W\<rparr>"
    using commit_log_phase [OF q] by blast
  have l2: "log s2 = ?l" using bstep_log [OF 2(2)] .
  have clean: "\<forall>a\<in>log_area (log s2). c_view (acache s2) a = c_disk (acache s2) a"
  proof
    fix a assume "a \<in> log_area (log s2)"
    then have "a \<notin> set (logged ?l)" using wf l2 by (auto simp: log_wf_def)
    then have "?v a = ?dk a" using clean_unreferenced [OF ok] refs by simp
    then show "c_view (acache s2) a = c_disk (acache s2) a" using replay_cong [of ?v a ?dk ?W] by (simp add: a2)
  qed
  have home: "home_writes ?l (c_view (acache s2)) = install_writes ?l ?v"
    by (rule home_after_log [OF wf]) (simp add: a2 log_writes_at [simplified])
  have wf2: "log_wf (log s2)" and ref2: "c_refs (acache s2) = (\<lambda>b. if b \<in> set (logged (log s2)) then 1 else 0)"
    and nh2: "c_held (acache s2) = {}"
    using refs nh wf by (simp_all add: a2 l2)
  have W: "home_writes (log s2) (c_view (acache s2)) @
      [(lg_start (log s2), put_head 0 (lg_block (log s2)) (c_view (acache s2) (lg_start (log s2))))] =
      install_writes ?l ?v @ [(lg_start ?l, put_head 0 (lg_block ?l) ?H)]"
    using home by (simp add: l2 a2)
  from install_and_clear [OF bstep_ok [OF 2(2)] wf2 nh2 ref2 _ clean, unfolded W]
  obtain s4 where 4: "kseq install_trans (kseq (set_log (\<lambda>l. l\<lparr>lg_n := 0\<rparr>)) write_head) s2 = Ok () s4"
    "lstep {} s2 s4" "log s4 = ?l\<lparr>lg_n := 0\<rparr>" and
    a4: "acache s4 = (acache s2)\<lparr>c_view := replay (install_writes ?l ?v @ [(lg_start ?l, put_head 0 (lg_block ?l) ?H)]) (c_view (acache s2)),
      c_refs := (\<lambda>_. 0), c_disk := replay (install_writes ?l ?v @ [(lg_start ?l, put_head 0 (lg_block ?l) ?H)]) (c_disk (acache s2)),
      c_trace := c_trace (acache s2) @ install_writes ?l ?v @ [(lg_start ?l, put_head 0 (lg_block ?l) ?H)]\<rparr>"
    by (auto simp: l2 cong: if_cong)
  have "commit s = Ok () s4"
    using n 2(1) 4(1) by (auto simp: commit_def kwhen_apply kseq_def kbind_assoc kbind_eq_Ok)
  moreover have "lstep {} s s4" using lstep_trans [OF bstep_lstep [OF 2(2)] 4(2)] by simp
  ultimately show ?thesis
    using 4(3) unfolding T_def commit_writes_def by (intro exI [of _ s4]) (cases "acache s", simp add: a4 a2)
qed

end
