(* ===== verification/Txn.thy ===== *)
theory Txn
  imports Log_Spec
begin

text \<open>
  Code that runs inside a transaction: between \<^verbatim>\<open>begin_op\<close> and \<^verbatim>\<open>end_op\<close>, blocks are read with
  \<^verbatim>\<open>bread\<close>, changed in the cache and put on the log with \<^verbatim>\<open>log_write\<close>. \<open>txn s v L H\<close> says that the
  state is one in which such code can run: \<open>v\<close> is the content of the blocks as the code sees it,
  \<open>L\<close> the set of blocks on the log and \<open>H\<close> the set of blocks it holds. The lemmas give each
  operation in these terms, so that the file system above reasons about \<open>v\<close>, \<open>L\<close> and \<open>H\<close> alone.
\<close>

section \<open>States inside a transaction\<close>

definition txn :: "'a log_state_scheme \<Rightarrow> (nat \<Rightarrow> bytes) \<Rightarrow> nat set \<Rightarrow> nat set \<Rightarrow> bool" where
  "txn s v L H \<longleftrightarrow>
     bio_ok s \<and> log_wf (log s) \<and> lg_outstanding (log s) \<ge> 1 \<and> c_view (acache s) = v \<and>
     set (logged (log s)) = L \<and> c_held (acache s) = H \<and>
     c_refs (acache s) = (\<lambda>b. of_bool (b \<in> L) + of_bool (b \<in> H))"

definition log_static :: "logt \<Rightarrow> nat \<times> nat \<times> int \<times> bool \<times> nat" where
  "log_static l = (lg_start l, lg_size l, lg_outstanding l, lg_committing l, lg_dev l)"

definition tstep :: "nat set \<Rightarrow> 'a log_state_scheme \<Rightarrow> 'a log_state_scheme \<Rightarrow> bool" where
  "tstep B s s' \<longleftrightarrow> lstep B s s' \<and> log_static (log s') = log_static (log s) \<and>
     c_disk (acache s') = c_disk (acache s)"

definition log_cap :: "logt \<Rightarrow> nat" where
  "log_cap l = min (NBUF - 1) (lg_size l - 1)"

lemma txnD:
  assumes "txn s v L H"
  shows "bio_ok s" and "log_wf (log s)" and "lg_outstanding (log s) \<ge> 1" and "c_view (acache s) = v"
    and "set (logged (log s)) = L" and "c_held (acache s) = H"
    and "c_refs (acache s) = (\<lambda>b. of_bool (b \<in> L) + of_bool (b \<in> H))"
  using assms by (simp_all add: txn_def)

lemma tstep_refl: "bio_ok s \<Longrightarrow> tstep B s s"
  using set_log_lstep [of s B "log s"] by (simp add: tstep_def)

lemma tstep_trans: "tstep A s t \<Longrightarrow> tstep B t u \<Longrightarrow> tstep (A \<union> B) s u"
  unfolding tstep_def using lstep_trans by auto

lemma tstep_unheld:
  assumes "tstep B s t" and "bio_ok s" and "B \<inter> c_held (acache s) = {}"
  shows "tstep {} s t"
  using assms bstep_unheld [of B "s\<lparr>log := log t\<rparr>" t] by (simp add: tstep_def lstep_def)

lemma tstep_keep: "tstep B s t \<Longrightarrow> buf_for s i b \<Longrightarrow> b \<notin> B \<Longrightarrow> buf_for t i b"
  using bstep_keep [of B "s\<lparr>log := log t\<rparr>" t i b] by (simp add: tstep_def lstep_def)

lemma tstep_trans0: "tstep {} s t \<Longrightarrow> tstep {} t u \<Longrightarrow> tstep {} s u"
  using tstep_trans [of "{}" s t "{}" u] by simp

lemma tstep_log: "tstep B s t \<Longrightarrow> log_cap (log t) = log_cap (log s) \<and> log_area (log t) = log_area (log s)"
  by (simp add: tstep_def log_static_def log_cap_def log_area_def)

lemma bstep_tstep: "bstep B s t \<Longrightarrow> c_disk (acache t) = c_disk (acache s) \<Longrightarrow> tstep B s t"
  by (simp add: tstep_def bstep_lstep bstep_log)

lemma txn_clean: "txn s v L H \<Longrightarrow> b \<notin> L \<Longrightarrow> b \<notin> H \<Longrightarrow> v b = c_disk (acache s) b"
  using clean_unreferenced [of s b] by (auto dest: txnD simp: txn_def)

lemma txn_card:
  assumes "txn s v L H"
  shows "finite L" and "card L = nat (lg_n (log s))"
  using txnD [OF assms] card_logged [of "log s"] by auto

lemma txn_refs_set: "txn s v L H \<Longrightarrow> {c. c_refs (acache s) c > 0} = L \<union> H"
  by (auto dest: txnD)

lemma txn_finite_held: "txn s v L H \<Longrightarrow> finite H"
  using finite_refs [of s] by (auto dest: txnD simp: txn_refs_set)

lemma txn_length: "txn s v L H \<Longrightarrow> length (v b) = BSIZE"
  using view_length [of s b] by (auto dest: txnD)

lemma tstep_frame:
  assumes "tstep B s t"
  obtains ps bs v dk tr lk l where "woken (procs s) ps"
    and "t = s\<lparr>log := l, procs := ps, bufs := bs, vdisk := v, disk := dk, disk_trace := tr, links := lk\<rparr>"
proof -
  have "procs (s\<lparr>log := log t\<rparr>) = procs s" by simp
  then show ?thesis using assms that unfolding tstep_def lstep_def bstep_def bframe_def by metis
qed

lemma t_bread:
  assumes t: "txn s v L H" and b: "b < 2 ^ 31" "b \<notin> H" and room: "b \<in> L \<or> card (L \<union> H) < NBUF"
  shows "\<exists>i s'. bread ROOTDEV b s = Ok i s' \<and> tstep {} s s' \<and> buf_for s' i b \<and> txn s' v L (insert b H)"
proof -
  note f = txnD [OF t]
  have "c_refs (acache s) b > 0 \<or> card {c. c_refs (acache s) c > 0} < NBUF"
    unfolding txn_refs_set [OF t] using room by (auto simp: f(7))
  moreover have "Suc (c_refs (acache s) b) < 2 ^ 32" and "b \<notin> c_held (acache s)" using b by (simp_all add: f)
  ultimately obtain i s' where r: "bread ROOTDEV b s = Ok i s'" "bstep {} s s'" "buf_for s' i b"
    and a: "acache s' = (acache s)\<lparr>c_refs := (c_refs (acache s))(b := Suc (c_refs (acache s) b)),
       c_held := insert b (c_held (acache s))\<rparr>"
    using bread_spec [OF f(1) b(1)] by blast
  have "txn s' v L (insert b H)"
    using f b(2) bstep_ok [OF r(2)] bstep_log [OF r(2)] by (auto simp: txn_def a fun_eq_iff)
  then show ?thesis using r bstep_tstep [OF r(2)] a by auto
qed

lemma t_set_data:
  assumes t: "txn s v L H" and bf: "buf_for s i b" and d: "length d = BSIZE"
  shows "\<exists>s'. set_data i d s = Ok () s' \<and> tstep {} s s' \<and> buf_for s' i b \<and> txn s' (v(b := d)) L H"
proof -
  note f = txnD [OF t]
  obtain s' where r: "set_data i d s = Ok () s'" "bstep {} s s'" "buf_for s' i b"
    and a: "acache s' = (acache s)\<lparr>c_view := (c_view (acache s))(b := d)\<rparr>"
    using set_data_spec [OF f(1) bf d] by blast
  have "txn s' (v(b := d)) L H"
    using f bstep_ok [OF r(2)] bstep_log [OF r(2)] by (auto simp: txn_def a)
  then show ?thesis using r bstep_tstep [OF r(2)] a by auto
qed

lemma t_brelse:
  assumes t: "txn s v L H" and bf: "buf_for s i b" and clean: "b \<in> L \<or> v b = c_disk (acache s) b"
  shows "\<exists>s'. brelse i s = Ok () s' \<and> tstep {b} s s' \<and> txn s' v L (H - {b})"
proof -
  note f = txnD [OF t]
  have h: "b \<in> H" using buf_for_facts(5) [OF f(1) bf] f by simp
  have "c_refs (acache s) b = 1 \<Longrightarrow> c_view (acache s) b = c_disk (acache s) b"
    using clean h by (auto simp: f)
  then obtain s' where r: "brelse i s = Ok () s'" "bstep {b} s s'"
    and a: "acache s' = (acache s)\<lparr>c_refs := (c_refs (acache s))(b := c_refs (acache s) b - 1),
      c_held := c_held (acache s) - {b}\<rparr>"
    using brelse_spec [OF f(1) bf] by blast
  have "txn s' v L (H - {b})"
    using f h bstep_ok [OF r(2)] bstep_log [OF r(2)] by (auto simp: txn_def a fun_eq_iff)
  then show ?thesis using r bstep_tstep [OF r(2)] a by auto
qed

lemma log_slot_spec:
  assumes wf: "log_wf l"
  shows "b \<in> set (logged l) \<Longrightarrow> log_slot l b < nat (lg_n l) \<and> lg_block l ! log_slot l b = b"
    and "b \<notin> set (logged l) \<Longrightarrow> log_slot l b = nat (lg_n l)"
proof -
  show "log_slot l b < nat (lg_n l) \<and> lg_block l ! log_slot l b = b" if m: "b \<in> set (logged l)"
  proof -
    obtain i where "i < nat (lg_n l)" "lg_block l ! i = b" using m unfolding logged_set [OF wf] by auto
    then obtain k where k: "find (\<lambda>i. lg_block l ! i = b) [0..<nat (lg_n l)] = Some k"
      by (cases "find (\<lambda>i. lg_block l ! i = b) [0..<nat (lg_n l)]") (auto simp: find_None_iff)
    then show ?thesis using find_SomeD [OF k] by (simp add: log_slot_def)
  qed
  show "log_slot l b = nat (lg_n l)" if "b \<notin> set (logged l)"
    using that logged_set [OF wf] find_SomeD [of "\<lambda>i. lg_block l ! i = b" "[0..<nat (lg_n l)]"]
    by (fastforce simp: log_slot_def split: option.splits)
qed

lemma logged_append:
  assumes wf: "log_wf l" and n: "lg_n l < int LOGSIZE"
  shows "logged (l\<lparr>lg_block := (lg_block l)[nat (lg_n l) := b], lg_n := lg_n l + 1\<rparr>) = logged l @ [b]"
proof -
  have "length (lg_block l) = LOGSIZE" "0 \<le> lg_n l" using wf by (simp_all add: log_wf_def)
  then have "nat (lg_n l) < length (lg_block l)" "nat (lg_n l + 1) = Suc (nat (lg_n l))" using n by auto
  then show ?thesis by (simp add: logged_def take_Suc_conv_app_nth)
qed

lemma t_log_write:
  assumes t: "txn s v L H" and bf: "buf_for s i b" and cap: "card L < log_cap (log s)"
    and b: "b \<notin> log_area (log s)"
  shows "\<exists>s'. log_write i s = Ok () s' \<and> tstep {} s s' \<and> buf_for s' i b \<and> txn s' v (insert b L) H"
proof -
  note f = txnD [OF t]
  let ?l = "log s"
  have h: "b \<in> H" and b31: "b < 2 ^ 31" using buf_for_facts(5,11) [OF f(1) bf] f by auto
  have wf0: "0 \<le> lg_n ?l" "lg_n ?l < int NBUF" "length (lg_block ?l) = LOGSIZE" using f(2) by (simp_all add: log_wf_def)
  have n: "nat (lg_n ?l) < NBUF - 1" "nat (lg_n ?l) < lg_size ?l - 1"
    using cap txn_card(2) [OF t] by (simp_all add: log_cap_def)
  have guards: "\<not> (lg_n ?l \<ge> int LOGSIZE \<or> lg_n ?l \<ge> int (lg_size ?l) - 1)" "\<not> lg_outstanding ?l < 1"
    using n wf0 f(3) by (auto simp: params)
  have blk: "b_blockno (bufs s ! i) = b" using bf by (simp add: buf_for_def names_def)
  show ?thesis
  proof (cases "b \<in> L")
    case True
    then have sl: "log_slot ?l b < nat (lg_n ?l)" "lg_block ?l ! log_slot ?l b = b"
      using log_slot_spec(1) [OF f(2)] f(5) by auto
    then have same: "(lg_block ?l)[log_slot ?l b := b] = lg_block ?l" using list_update_id by metis
    have "int (log_slot ?l b) \<noteq> lg_n ?l" using sl(1) by auto
    then have "log_write i s = Ok () s"
      using guards sl by (simp add: log_write_def blk Let_def set_log_def kwhen_apply same)
    then show ?thesis using True t bf f(1) by (auto simp: insert_absorb intro!: tstep_refl)
  next
    case False
    then have sl: "log_slot ?l b = nat (lg_n ?l)" using log_slot_spec(2) [OF f(2)] f(5) by auto
    let ?l1 = "?l\<lparr>lg_block := (lg_block ?l)[nat (lg_n ?l) := b]\<rparr>"
    let ?l2 = "?l1\<lparr>lg_n := lg_n ?l + 1\<rparr>"
    let ?s1 = "s\<lparr>log := ?l1\<rparr>"
    have "bio_ok ?s1" "buf_for ?s1 i b" using f(1) bf by simp_all
    moreover have "Suc (c_refs (acache ?s1) b) < 2 ^ 32" by (simp add: f(7))
    ultimately obtain s2 where r: "bpin i ?s1 = Ok () s2" "bstep {} ?s1 s2" "buf_for s2 i b"
      and a: "acache s2 = (acache ?s1)\<lparr>c_refs := (c_refs (acache ?s1))(b := Suc (c_refs (acache ?s1) b))\<rparr>"
      using bpin_spec by blast
    let ?s3 = "s2\<lparr>log := ?l2\<rparr>"
    have l2: "log s2 = ?l1" using bstep_log [OF r(2)] by simp
    have "log_write i s = Ok () ?s3"
      using guards wf0 by (simp add: log_write_def blk Let_def set_log_def sl kwhen_apply r(1) l2)
    moreover have "tstep {} s ?s3"
      using bstep_set_log [OF r(2), of ?l2] by (simp add: tstep_def lstep_def a log_static_def)
    moreover have lg: "logged ?l2 = logged ?l @ [b]"
      using logged_append [OF f(2), of b] guards by simp
    moreover have "log_wf ?l2"
      using f(2) n lg False b b31 f(5) by (simp add: log_wf_def log_area_def)
    ultimately show ?thesis
      using f False h r(3) bstep_ok [OF r(2)] by (auto simp: txn_def a fun_eq_iff intro!: exI [of _ ?s3])
  qed
qed

text \<open>\<^verbatim>\<open>log_write(bp); brelse(bp)\<close> after a change of the buffer.\<close>

lemma t_modify:
  assumes t: "txn s v L H" and bf: "buf_for s i b" and cap: "card L < log_cap (log s)"
    and b: "b \<notin> log_area (log s)" and d: "length d = BSIZE"
  shows "\<exists>s'. kseq (set_data i d) (kseq (log_write i) (kseq (brelse i) m)) s = m s' \<and> tstep {b} s s' \<and>
     txn s' (v(b := d)) (insert b L) (H - {b})"
proof -
  obtain s1 where 1: "set_data i d s = Ok () s1" "tstep {} s s1" "buf_for s1 i b" "txn s1 (v(b := d)) L H"
    using t_set_data [OF t bf d] by blast
  have "card L < log_cap (log s1)" "b \<notin> log_area (log s1)" using tstep_log [OF 1(2)] cap b by simp_all
  then obtain s2 where 2: "log_write i s1 = Ok () s2" "tstep {} s1 s2" "buf_for s2 i b" "txn s2 (v(b := d)) (insert b L) H"
    using t_log_write [OF 1(4,3)] by blast
  obtain s3 where 3: "brelse i s2 = Ok () s3" "tstep {b} s2 s3" "txn s3 (v(b := d)) (insert b L) (H - {b})"
    using t_brelse [OF 2(4,3)] by blast
  show ?thesis
    using 1(1) 2(1) 3 tstep_trans [OF 1(2) tstep_trans [OF 2(2) 3(2)]] by auto
qed

text \<open>A block that is read and released unchanged.\<close>

lemma t_release:
  assumes t0: "txn s v L H" and "b \<notin> H" and st: "tstep {} s s1" and t: "txn s1 v L (insert b H)" and bf: "buf_for s1 i b"
  shows "\<exists>s'. brelse i s1 = Ok () s' \<and> tstep {} s s' \<and> txn s' v L H"
proof -
  have "b \<in> L \<or> v b = c_disk (acache s1) b"
    using txn_clean [OF t0, of b] assms(2) st by (auto simp: tstep_def)
  then obtain s' where "brelse i s1 = Ok () s'" "tstep {b} s1 s'" "txn s' v L (insert b H - {b})"
    using t_brelse [OF t bf] by blast
  moreover have "tstep {} s s'"
    using tstep_unheld [OF tstep_trans [OF st calculation(2)] txnD(1) [OF t0]] assms(2) txnD(6) [OF t0] by simp
  ultimately show ?thesis using assms(2) by auto
qed

lemma t_read:
  assumes t: "txn s v L H" and b: "b < 2 ^ 31" "b \<notin> H" and room: "b \<in> L \<or> card (L \<union> H) < NBUF"
  shows "\<exists>s'. kbind (bread ROOTDEV b) (\<lambda>i. kbind (buf_data i) (\<lambda>d. kseq (brelse i) (f d))) s = f (v b) s' \<and>
     tstep {} s s' \<and> txn s' v L H"
proof -
  obtain i s1 where 1: "bread ROOTDEV b s = Ok i s1" "tstep {} s s1" "buf_for s1 i b" "txn s1 v L (insert b H)"
    using t_bread [OF t b room] by blast
  obtain s2 where 2: "brelse i s1 = Ok () s2" "tstep {} s s2" "txn s2 v L H"
    using t_release [OF t b(2) 1(2,4,3)] by blast
  show ?thesis
    using 1(1) 2 buf_data_spec [OF txnD(1) [OF 1(4)] 1(3)] txnD(4) [OF 1(4)] by auto
qed

text \<open>A block that is read, changed, logged and released.\<close>

lemma t_update:
  assumes t: "txn s v L H" and b: "b < 2 ^ 31" "b \<notin> H" "b \<notin> log_area (log s)" and cap: "card L < log_cap (log s)"
    and room: "b \<in> L \<or> card (L \<union> H) < NBUF" and d: "length (g (v b)) = BSIZE"
  shows "\<exists>s'. kbind (bread ROOTDEV b) (\<lambda>i. kbind (buf_data i) (\<lambda>d. kseq (set_data i (g d)) (kseq (log_write i) (kseq (brelse i) m)))) s = m s' \<and>
     tstep {} s s' \<and> txn s' (v(b := g (v b))) (insert b L) H"
proof -
  obtain i s1 where 1: "bread ROOTDEV b s = Ok i s1" "tstep {} s s1" "buf_for s1 i b" "txn s1 v L (insert b H)"
    using t_bread [OF t b(1,2) room] by blast
  have "card L < log_cap (log s1)" "b \<notin> log_area (log s1)" using tstep_log [OF 1(2)] cap b by simp_all
  then obtain s2 where 2: "kseq (set_data i (g (v b))) (kseq (log_write i) (kseq (brelse i) m)) s1 = m s2" "tstep {b} s1 s2"
     "txn s2 (v(b := g (v b))) (insert b L) (insert b H - {b})"
    using t_modify [OF 1(4,3) _ _ d] by blast
  have "tstep {} s s2"
    using tstep_unheld [OF tstep_trans [OF 1(2) 2(2)] txnD(1) [OF t]] b txnD(6) [OF t] by simp
  then show ?thesis
    using 1(1) 2 b(2) buf_data_spec [OF txnD(1) [OF 1(4)] 1(3)] txnD(4) [OF 1(4)] by auto
qed

section \<open>The ends of a transaction\<close>

lemma wakeup_spec:
  assumes ok: "bio_ok s"
  shows "\<exists>s'. wakeup ch s = Ok () s' \<and> bstep {} s s' \<and> acache s' = acache s"
proof -
  let ?s = "s\<lparr>procs := map (wake ch) (procs s)\<rparr>"
  have w: "woken (procs s) (map (wake ch) (procs s))" by (intro woken.intros)
  have fr: "bframe s ?s"
    unfolding bframe_def
    by (rule exI [of _ "map (wake ch) (procs s)"], rule exI [of _ "bufs s"], rule exI [of _ "vdisk s"],
        rule exI [of _ "disk s"], rule exI [of _ "disk_trace s"], rule exI [of _ "links s"]) (simp add: w)
  have "p_pid (myproc_of ?s) = p_pid (myproc_of s)"
    using bframe_myproc [OF fr] ok by (simp add: bio_ok_def)
  then have "bio_ok ?s" using ok by (simp add: bio_ok_def)
  moreover have "acache ?s = acache s" by (simp add: acache_def)
  ultimately show ?thesis using fr by (auto simp: wakeup_def bstep_def buf_for_def)
qed

lemma begin_op_spec:
  assumes q: "log_quiet s" and free: "lg_outstanding (log s) \<ge> 0" "\<not> lg_committing (log s)"
    and room: "lg_n (log s) + (lg_outstanding (log s) + 1) * int MAXOPBLOCKS \<le> int LOGSIZE"
  shows "\<exists>s'. begin_op s = Ok () s' \<and> log s' = (log s)\<lparr>lg_outstanding := lg_outstanding (log s) + 1\<rparr> \<and>
     lstep {} s s' \<and> txn s' (c_view (acache s)) (set (logged (log s))) {} \<and> c_disk (acache s') = c_disk (acache s)"
proof -
  let ?l = "(log s)\<lparr>lg_outstanding := lg_outstanding (log s) + 1\<rparr>"
  have "begin_op s = Ok () (s\<lparr>log := ?l\<rparr>)"
    using free room by (simp add: begin_op_def set_log_def)
  moreover have "lstep {} s (s\<lparr>log := ?l\<rparr>)" using q by (intro set_log_lstep) (simp add: log_quiet_def)
  moreover have "log_wf ?l" "logged ?l = logged (log s)"
    using q by (simp_all add: log_quiet_def log_wf_def logged_def log_area_def)
  ultimately show ?thesis
    using q free(1) by (auto simp: txn_def log_quiet_def fun_eq_iff)
qed

lemma commit_view:
  assumes q: "log_quiet s" and b: "b \<notin> log_area (log s)"
  shows "replay (commit_writes (log s) (c_view (acache s))) (c_disk (acache s)) b = c_view (acache s) b"
proof -
  let ?l = "log s"
  have ok: "bio_ok s" and wf: "log_wf ?l" using q by (auto simp: log_quiet_def)
  have v: "c_view (acache s) c = c_disk (acache s) c" if "c \<notin> set (logged ?l)" for c
    using clean_unreferenced [OF ok, of c] q that by (simp add: log_quiet_def)
  have "lg_start ?l \<in> log_area ?l" "lg_start ?l \<notin> set (logged ?l)"
    using wf by (auto simp: log_wf_def log_area_def)
  then show ?thesis
    using b log_writes_other [of b ?l] wf v [of b] install_writes_at [OF wf] install_writes_other [OF wf]
    unfolding commit_writes_def by (cases "b \<in> set (logged ?l)") auto
qed

lemma commit_quiet:
  assumes q: "log_quiet s"
  shows "\<exists>s'. commit s = Ok () s' \<and> lstep {} s s' \<and> log s' = (log s)\<lparr>lg_n := 0\<rparr> \<and> log_quiet s' \<and>
     (\<forall>b. b \<notin> log_area (log s) \<longrightarrow> c_view (acache s') b = c_view (acache s) b) \<and> c_disk (acache s') = c_view (acache s')"
proof (cases "lg_n (log s) > 0")
  case True
  let ?T = "commit_writes (log s) (c_view (acache s))"
  obtain s' where s': "commit s = Ok () s'" "lstep {} s s'" "log s' = (log s)\<lparr>lg_n := 0\<rparr>"
    and a: "acache s' = (acache s)\<lparr>c_view := replay ?T (c_view (acache s)), c_refs := (\<lambda>_. 0),
      c_disk := replay ?T (c_disk (acache s)), c_trace := c_trace (acache s) @ ?T\<rparr>"
    using commit_spec [OF q True] by blast
  have eq: "c_disk (acache s') = c_view (acache s')"
    using clean_unreferenced [OF lstep_ok [OF s'(2)]] by (simp add: a fun_eq_iff)
  have "log_quiet s'"
    using q lstep_ok [OF s'(2)] by (simp add: log_quiet_def s'(3) a log_wf_def logged_def)
  then show ?thesis
    using s' eq commit_view [OF q] by (auto simp: a)
next
  case False
  then have "lg_n (log s) = 0" using q by (simp add: log_quiet_def log_wf_def)
  then have "(log s)\<lparr>lg_n := 0\<rparr> = log s" "logged (log s) = []" by (simp_all add: logged_def)
  moreover have "c_disk (acache s) b = c_view (acache s) b" for b
    using q clean_unreferenced [of s b] calculation(2) by (simp add: log_quiet_def)
  moreover have "lstep {} s s" using set_log_lstep [of s "{}" "log s"] q by (simp add: log_quiet_def)
  ultimately show ?thesis using False q by (auto simp: commit_def kwhen_apply)
qed

lemma end_op_spec:
  assumes t: "txn s v L {}" and one: "lg_outstanding (log s) = 1" "\<not> lg_committing (log s)"
  shows "\<exists>s'. end_op s = Ok () s' \<and> lstep {} s s' \<and> log_quiet s' \<and>
     log s' = (log s)\<lparr>lg_outstanding := 0, lg_n := 0\<rparr> \<and>
     (\<forall>b. b \<notin> log_area (log s) \<longrightarrow> c_view (acache s') b = v b) \<and> c_disk (acache s') = c_view (acache s')"
proof -
  note f = txnD [OF t]
  let ?l = "(log s)\<lparr>lg_outstanding := 0, lg_committing := True\<rparr>"
  let ?s = "s\<lparr>log := ?l\<rparr>"
  have "log_quiet ?s"
    using f by (auto simp: log_quiet_def log_wf_def logged_def log_area_def fun_eq_iff)
  from commit_quiet [OF this] obtain s1 where s1: "commit ?s = Ok () s1" "lstep {} ?s s1" "log s1 = ?l\<lparr>lg_n := 0\<rparr>"
    "log_quiet s1" and v1: "\<forall>b. b \<notin> log_area (log s) \<longrightarrow> c_view (acache s1) b = v b" "c_disk (acache s1) = c_view (acache s1)"
    by (auto simp: log_area_def f(4))
  let ?l2 = "(log s)\<lparr>lg_outstanding := 0, lg_n := 0\<rparr>"
  have com: "(log s1)\<lparr>lg_committing := False\<rparr> = ?l2" using one(2) by (cases "log s") (simp add: s1(3))
  let ?s2 = "s1\<lparr>log := ?l2\<rparr>"
  obtain s3 where s3: "wakeup ChanLog ?s2 = Ok () s3" "bstep {} ?s2 s3" "acache s3 = acache ?s2"
    using wakeup_spec [of ?s2] lstep_ok [OF s1(2)] by auto
  have "end_op s = Ok () s3"
    using one s1(1) s3(1) com by (simp add: end_op_def set_log_def)
  moreover have l3: "log s3 = ?l2" using bstep_log [OF s3(2)] by simp
  moreover have "lstep {} s s3"
  proof -
    have a: "lstep {} s ?s" using f(1) by (rule set_log_lstep)
    have b: "lstep {} s1 ?s2" using lstep_ok [OF s1(2)] by (rule set_log_lstep)
    show ?thesis
      using lstep_trans [OF lstep_trans [OF lstep_trans [OF a s1(2)] b] bstep_lstep [OF s3(2)]] by simp
  qed
  moreover have "log_quiet s3"
    using s1(4) bstep_ok [OF s3(2)] l3 s3(3) by (auto simp: log_quiet_def log_wf_def logged_def s1(3) log_area_def)
  ultimately show ?thesis using v1 s3(3) by auto
qed

end
