(* ===== verification/Block_Alloc.thy ===== *)
theory Block_Alloc
  imports Txn
begin

text \<open>
  The lowest layer of \<^verbatim>\<open>src/kernel/fs.c\<close>: the super block and the bitmap of free blocks. The
  in-memory inodes, which the functions above share, are part of the same state record.
\<close>

unbundle bit_operations_syntax

section \<open>State\<close>

record inode =
  i_dev :: nat
  i_inum :: nat
  i_ref :: int
  i_lock :: sleeplock
  i_valid :: bool
  i_type :: ushort
  i_major :: ushort
  i_minor :: ushort
  i_nlink :: ushort
  i_size :: nat
  i_addrs :: "nat list"
  i_mode :: ushort
  i_perm :: ushort

record fs_state = log_state +
  sb :: superblock
  icache :: "inode list"

definition IBLOCK :: "nat \<Rightarrow> superblock \<Rightarrow> nat" where
  "IBLOCK i s = i div IPB + sb_inodestart s"

definition BBLOCK :: "nat \<Rightarrow> superblock \<Rightarrow> nat" where
  "BBLOCK b s = b div BPB + sb_bmapstart s"

section \<open>The super block\<close>

definition decode_sb :: "bytes \<Rightarrow> superblock" where
  "decode_sb d = \<lparr>sb_magic = get32 0 d, sb_size = unat (get32 4 d), sb_nblocks = unat (get32 8 d),
     sb_ninodes = unat (get32 12 d), sb_nlog = unat (get32 16 d), sb_logstart = unat (get32 20 d),
     sb_inodestart = unat (get32 24 d), sb_bmapstart = unat (get32 28 d)\<rparr>"

definition readsb :: "nat \<Rightarrow> ('a fs_state_scheme, superblock) kmon" where
  "readsb dev =
     kbind (bread dev 1) (\<lambda>bp.
     kbind (buf_data bp) (\<lambda>d.
     kseq (brelse bp)
          (kret (decode_sb d))))"

definition fsinit :: "nat \<Rightarrow> ('a fs_state_scheme, unit) kmon" where
  "fsinit dev =
     kbind (readsb dev) (\<lambda>x.
     kseq (kmod (\<lambda>s. s\<lparr>sb := x\<rparr>))
          (if sb_magic x \<noteq> FSMAGIC then kpanic ''invalid file system'' else initlog dev x))"

section \<open>The bitmap\<close>

definition bzero :: "nat \<Rightarrow> nat \<Rightarrow> ('a fs_state_scheme, unit) kmon" where
  "bzero dev bno =
     kbind (bread dev bno) (\<lambda>bp.
     kseq (set_data bp (replicate BSIZE 0))
    (kseq (log_write bp)
          (brelse bp)))"

definition bmask :: "nat \<Rightarrow> uchar" where
  "bmask bi = push_bit (bi mod 8) 1"

text \<open>The outer loop of \<^verbatim>\<open>balloc\<close> over the first block numbers of the bitmap blocks.\<close>

primrec balloc_loop :: "nat \<Rightarrow> nat list \<Rightarrow> ('a fs_state_scheme, nat) kmon" where
  "balloc_loop dev [] = kpanic ''balloc: out of blocks''"
| "balloc_loop dev (b # bs) =
     kbind (kget sb) (\<lambda>x.
     kbind (bread dev (BBLOCK b x)) (\<lambda>bp.
     kbind (buf_data bp) (\<lambda>d.
     case find (\<lambda>bi. b + bi < sb_size x \<and> d ! (bi div 8) AND bmask bi = 0) [0..<BPB] of
       Some bi \<Rightarrow>
         kseq (set_data bp (d[bi div 8 := d ! (bi div 8) OR bmask bi]))
        (kseq (log_write bp)
        (kseq (brelse bp)
        (kseq (bzero dev (b + bi))
              (kret (b + bi)))))
     | None \<Rightarrow>
         kseq (brelse bp)
              (balloc_loop dev bs))))"

definition balloc :: "nat \<Rightarrow> ('a fs_state_scheme, nat) kmon" where
  "balloc dev =
     kbind (kget sb) (\<lambda>x.
     balloc_loop dev (map (\<lambda>k. k * BPB) [0..<(sb_size x + BPB - 1) div BPB]))"

definition bfree :: "nat \<Rightarrow> nat \<Rightarrow> ('a fs_state_scheme, unit) kmon" where
  "bfree dev b =
     kbind (kget sb) (\<lambda>x.
     kbind (bread dev (BBLOCK b x)) (\<lambda>bp.
     kbind (buf_data bp) (\<lambda>d.
     let bi = b mod BPB in
     if d ! (bi div 8) AND bmask bi = 0 then kpanic ''freeing free block''
     else
       kseq (set_data bp (d[bi div 8 := d ! (bi div 8) AND NOT (bmask bi)]))
      (kseq (log_write bp)
            (brelse bp)))))"

section \<open>The bitmap as a set of blocks in use\<close>

definition block_used :: "superblock \<Rightarrow> (nat \<Rightarrow> bytes) \<Rightarrow> nat \<Rightarrow> bool" where
  "block_used x v b \<longleftrightarrow> v (BBLOCK b x) ! (b mod BPB div 8) AND bmask (b mod BPB) \<noteq> 0"

definition mark_used :: "superblock \<Rightarrow> nat \<Rightarrow> (nat \<Rightarrow> bytes) \<Rightarrow> bytes" where
  "mark_used x b v = (v (BBLOCK b x))[b mod BPB div 8 := v (BBLOCK b x) ! (b mod BPB div 8) OR bmask (b mod BPB)]"

definition mark_free :: "superblock \<Rightarrow> nat \<Rightarrow> (nat \<Rightarrow> bytes) \<Rightarrow> bytes" where
  "mark_free x b v = (v (BBLOCK b x))[b mod BPB div 8 := v (BBLOCK b x) ! (b mod BPB div 8) AND NOT (bmask (b mod BPB))]"

lemma bmask_mod: "bmask (b mod BPB) = push_bit (b mod 8) 1"
  by (simp add: bmask_def params mod_mod_cancel)

lemma block_used_bit: "block_used x v b \<longleftrightarrow> bit (v (BBLOCK b x) ! (b mod BPB div 8)) (b mod 8)"
  by (simp add: block_used_def bmask_mod bit_iff_and_push_bit_not_eq_0)

lemma bitmap_index: "b mod BPB div 8 < BSIZE"
proof -
  have "b mod BPB < BPB" by (simp add: params)
  then show ?thesis by (simp add: params div_less_iff_less_mult)
qed

lemma bitmap_pos:
  "BBLOCK c x = BBLOCK b x \<Longrightarrow> c mod BPB div 8 = b mod BPB div 8 \<Longrightarrow> c mod 8 = b mod 8 \<Longrightarrow> c = b"
proof -
  assume a: "BBLOCK c x = BBLOCK b x" "c mod BPB div 8 = b mod BPB div 8" "c mod 8 = b mod 8"
  have m: "d = d div BPB * BPB + (d mod BPB div 8 * 8 + d mod 8)" for d
    by (metis div_mult_mod_eq mod_mod_cancel [of 8 BPB d] dvd_triv_left BPB_def mult.commute)
  show ?thesis using a m [of b] m [of c] by (simp add: BBLOCK_def)
qed

lemma length_mark [simp]: "length (mark_used x b v) = length (v (BBLOCK b x))" "length (mark_free x b v) = length (v (BBLOCK b x))"
  by (simp_all add: mark_used_def mark_free_def)

lemma bit_set_mask: "k < 8 \<Longrightarrow> bit ((w :: uchar) OR 2 ^ k) j \<longleftrightarrow> bit w j \<or> j = k"
  by (auto simp: bit_simps)

lemma bit_clear_mask: "k < 8 \<Longrightarrow> j < 8 \<Longrightarrow> bit ((w :: uchar) AND NOT (2 ^ k)) j \<longleftrightarrow> bit w j \<and> j \<noteq> k"
  by (auto simp: bit_simps)

lemma used_mark:
  assumes "length (v (BBLOCK b x)) = BSIZE" and "\<And>d. y (BBLOCK d x) = (v(BBLOCK b x := mark_used x b v)) (BBLOCK d x)"
  shows "block_used x y c \<longleftrightarrow> c = b \<or> block_used x v c"
proof -
  have i: "b mod BPB div 8 < length (v (BBLOCK b x))" using bitmap_index assms(1) by simp
  show ?thesis
  proof (cases "BBLOCK c x = BBLOCK b x \<and> c mod BPB div 8 = b mod BPB div 8")
    case True
    then show ?thesis
      using bitmap_pos [of c x b] i by (auto simp: block_used_bit assms(2) mark_used_def bmask_mod bit_set_mask)
  next
    case False
    then have "c \<noteq> b" by auto
    with False show ?thesis by (auto simp: block_used_bit assms(2) mark_used_def)
  qed
qed

lemma free_mark:
  assumes "length (v (BBLOCK b x)) = BSIZE" and "\<And>d. y (BBLOCK d x) = (v(BBLOCK b x := mark_free x b v)) (BBLOCK d x)"
  shows "block_used x y c \<longleftrightarrow> c \<noteq> b \<and> block_used x v c"
proof -
  have i: "b mod BPB div 8 < length (v (BBLOCK b x))" using bitmap_index assms(1) by simp
  show ?thesis
  proof (cases "BBLOCK c x = BBLOCK b x \<and> c mod BPB div 8 = b mod BPB div 8")
    case True
    then show ?thesis
      using bitmap_pos [of c x b] i by (auto simp: block_used_bit assms(2) mark_free_def bmask_mod bit_clear_mask)
  next
    case False
    then have "c \<noteq> b" by auto
    with False show ?thesis by (auto simp: block_used_bit assms(2) mark_free_def)
  qed
qed


text \<open>The blocks of the bitmap and of the inodes, and what the allocator relies on: these are
  ordinary blocks outside the log, all blocks of metadata are in use, and so is block 0; a free
  block is not part of the log.\<close>

definition bitmap_blocks :: "superblock \<Rightarrow> nat set" where
  "bitmap_blocks x = (\<lambda>b. BBLOCK b x) ` {..< sb_size x}"

definition inode_blocks :: "superblock \<Rightarrow> nat set" where
  "inode_blocks x = (\<lambda>i. IBLOCK i x) ` {..< sb_ninodes x}"

definition layout_ok :: "superblock \<Rightarrow> logt \<Rightarrow> (nat \<Rightarrow> bytes) \<Rightarrow> bool" where
  "layout_ok x l v \<longleftrightarrow>
     0 < sb_size x \<and> sb_size x < 2 ^ 31 \<and> block_used x v 0 \<and> bitmap_blocks x \<inter> inode_blocks x = {} \<and>
     (\<forall>b\<in>bitmap_blocks x \<union> inode_blocks x. b < sb_size x \<and> b \<notin> log_area l \<and> block_used x v b) \<and>
     (\<forall>b < sb_size x. b \<in> log_area l \<longrightarrow> block_used x v b)"

lemma layoutD:
  assumes "layout_ok x l v"
  shows "sb_size x < 2 ^ 31" and "b \<in> bitmap_blocks x \<Longrightarrow> b < 2 ^ 31 \<and> b \<notin> log_area l"
    and "b \<in> inode_blocks x \<Longrightarrow> b < 2 ^ 31 \<and> b \<notin> log_area l \<and> b \<notin> bitmap_blocks x"
    and "b < sb_size x \<Longrightarrow> \<not> block_used x v b \<Longrightarrow>
      b \<noteq> 0 \<and> b < 2 ^ 31 \<and> b \<notin> log_area l \<and> b \<notin> bitmap_blocks x \<and> b \<notin> inode_blocks x"
proof -
  have u: "\<forall>b\<in>bitmap_blocks x \<union> inode_blocks x. b < sb_size x \<and> b \<notin> log_area l \<and> block_used x v b"
    and d: "bitmap_blocks x \<inter> inode_blocks x = {}" and sz: "sb_size x < 2 ^ 31" and z: "block_used x v 0"
    and lg: "\<forall>b < sb_size x. b \<in> log_area l \<longrightarrow> block_used x v b"
    using assms by (simp_all add: layout_ok_def)
  show "sb_size x < 2 ^ 31" by (rule sz)
  show "b \<in> bitmap_blocks x \<Longrightarrow> b < 2 ^ 31 \<and> b \<notin> log_area l"
    and "b \<in> inode_blocks x \<Longrightarrow> b < 2 ^ 31 \<and> b \<notin> log_area l \<and> b \<notin> bitmap_blocks x"
    using u d sz by (auto dest: less_trans)
  show "b < sb_size x \<Longrightarrow> \<not> block_used x v b \<Longrightarrow>
      b \<noteq> 0 \<and> b < 2 ^ 31 \<and> b \<notin> log_area l \<and> b \<notin> bitmap_blocks x \<and> b \<notin> inode_blocks x"
  proof -
    assume b: "b < sb_size x" "\<not> block_used x v b"
    then have "b < 2 ^ 31" using sz by simp
    moreover have "b \<noteq> 0" using b z by (cases "b = 0") simp_all
    ultimately show ?thesis using b u lg by auto
  qed
qed

lemma bzero_spec:
  assumes t: "txn s v L H" and b: "b < 2 ^ 31" "b \<notin> H" "b \<notin> log_area (log s)" and cap: "card L < log_cap (log s)"
    and room: "card (L \<union> H) < NBUF"
  shows "\<exists>s'. bzero ROOTDEV b s = Ok () s' \<and> tstep {} s s' \<and> txn s' (v(b := replicate BSIZE 0)) (insert b L) H"
proof -
  obtain i s1 where 1: "bread ROOTDEV b s = Ok i s1" "tstep {} s s1" "buf_for s1 i b" "txn s1 v L (insert b H)"
    using t_bread [OF t b(1,2)] room by blast
  have "card L < log_cap (log s1)" "b \<notin> log_area (log s1)" using tstep_log [OF 1(2)] cap b by simp_all
  then obtain s2 where 2: "kseq (set_data i (replicate BSIZE 0)) (kseq (log_write i) (kseq (brelse i) (kret ()))) s1 = kret () s2"
     "tstep {b} s1 s2" "txn s2 (v(b := replicate BSIZE 0)) (insert b L) (insert b H - {b})"
    using t_modify [OF 1(4,3), of "replicate BSIZE 0" "kret ()"] by auto
  have "tstep {} s s2"
    using tstep_unheld [OF tstep_trans [OF 1(2) 2(2)] txnD(1) [OF t]] b txnD(6) [OF t] by simp
  then show ?thesis using 1(1) 2 b(2) by (auto simp: bzero_def kseq_unit)
qed

lemma bfree_spec:
  assumes t: "txn s v L H" and bm: "layout_ok (sb s) (log s) v" and b: "b < sb_size (sb s)"
    and used: "block_used (sb s) v b" and nh: "BBLOCK b (sb s) \<notin> H"
    and cap: "card L < log_cap (log s)" and room: "card (L \<union> H) < NBUF"
  shows "\<exists>s'. bfree ROOTDEV b s = Ok () s' \<and> tstep {} s s' \<and>
     txn s' (v(BBLOCK b (sb s) := mark_free (sb s) b v)) (insert (BBLOCK b (sb s)) L) H"
proof -
  let ?B = "BBLOCK b (sb s)"
  have B: "?B < 2 ^ 31" "?B \<notin> log_area (log s)" using layoutD(2) [OF bm, of "BBLOCK b (sb s)"] b by (auto simp: bitmap_blocks_def)
  obtain i s1 where 1: "bread ROOTDEV ?B s = Ok i s1" "tstep {} s s1" "buf_for s1 i ?B" "txn s1 v L (insert ?B H)"
    using t_bread [OF t B(1) nh] room by blast
  have "card L < log_cap (log s1)" "?B \<notin> log_area (log s1)" using tstep_log [OF 1(2)] cap B by simp_all
  moreover have "length (mark_free (sb s) b v) = BSIZE" using txn_length [OF t] by simp
  ultimately obtain s2 where 2: "kseq (set_data i (mark_free (sb s) b v)) (kseq (log_write i) (kseq (brelse i) (kret ()))) s1 = kret () s2"
     "tstep {?B} s1 s2" "txn s2 (v(?B := mark_free (sb s) b v)) (insert ?B L) (insert ?B H - {?B})"
    using t_modify [OF 1(4,3), of "mark_free (sb s) b v" "kret ()"] by auto
  have "tstep {} s s2"
    using tstep_unheld [OF tstep_trans [OF 1(2) 2(2)] txnD(1) [OF t]] nh txnD(6) [OF t] by simp
  then show ?thesis
    using 1(1) 2 nh used buf_data_spec [OF txnD(1) [OF 1(4)] 1(3)] txnD(4) [OF 1(4)]
    by (auto simp: bfree_def kseq_unit Let_def block_used_def mark_free_def)
qed

lemma bfree_panics:
  assumes t: "txn s v L H" and bm: "layout_ok (sb s) (log s) v" and b: "b < sb_size (sb s)"
    and free: "\<not> block_used (sb s) v b" and nh: "BBLOCK b (sb s) \<notin> H" and room: "card (L \<union> H) < NBUF"
  shows "\<exists>s'. bfree ROOTDEV b s = Panic ''freeing free block'' s'"
proof -
  let ?B = "BBLOCK b (sb s)"
  have B: "?B < 2 ^ 31" using layoutD(2) [OF bm, of "BBLOCK b (sb s)"] b by (auto simp: bitmap_blocks_def)
  obtain i s1 where 1: "bread ROOTDEV ?B s = Ok i s1" "tstep {} s s1" "buf_for s1 i ?B" "txn s1 v L (insert ?B H)"
    using t_bread [OF t B nh] room by blast
  then show ?thesis
    using free buf_data_spec [OF txnD(1) [OF 1(4)] 1(3)] txnD(4) [OF 1(4)]
    by (auto simp: bfree_def Let_def block_used_def)
qed

text \<open>The search of one bitmap block.\<close>

lemma BBLOCK_chunk: "bi < BPB \<Longrightarrow> BBLOCK (k * BPB + bi) x = BBLOCK (k * BPB) x \<and> (k * BPB + bi) mod BPB = bi"
  by (simp add: BBLOCK_def params)

lemma find_chunk:
  assumes below: "\<forall>c<k * BPB. c < sb_size x \<longrightarrow> block_used x v c" and n: "n < sb_size x" "\<not> block_used x v n"
    and least: "\<forall>c<n. block_used x v c"
  shows "find (\<lambda>bi. k * BPB + bi < sb_size x \<and> v (BBLOCK (k * BPB) x) ! (bi div 8) AND bmask bi = 0) [0..<BPB] =
     (if n < Suc k * BPB then Some (n - k * BPB) else None)" (is "find ?P _ = _")
proof -
  have P: "?P bi \<longleftrightarrow> k * BPB + bi < sb_size x \<and> \<not> block_used x v (k * BPB + bi)" if "bi < BPB" for bi
    using BBLOCK_chunk [OF that, of k x] by (auto simp: block_used_def)
  have nk: "k * BPB \<le> n" using below n by (metis not_le_imp_less)
  show ?thesis
  proof (cases "n < Suc k * BPB")
    case True
    then have i: "n - k * BPB < BPB" using nk by simp
    have "?P (n - k * BPB)" using P [OF i] nk n by simp
    moreover have "\<not> ?P j" if j: "j < n - k * BPB" for j
      using P [of j] j i least by simp
    ultimately show ?thesis using True i by (simp add: find_upt_Some)
  next
    case False
    then have "\<not> ?P j" if "j < BPB" for j using P [OF that] that least by simp
    then show ?thesis using False by (simp add: find_upt_None)
  qed
qed

text \<open>What a call of \<^verbatim>\<open>balloc\<close> needs: room for two blocks on the log and for two buffers, and no
  bitmap block held.\<close>

definition balloc_room :: "'a log_state_scheme \<Rightarrow> superblock \<Rightarrow> nat set \<Rightarrow> nat set \<Rightarrow> bool" where
  "balloc_room s x L H \<longleftrightarrow>
     card L + 2 \<le> log_cap (log s) \<and> card L + card H + 2 \<le> NBUF \<and> bitmap_blocks x \<inter> H = {}"

lemma balloc_take:
  assumes t: "txn s v L H" and bm: "layout_ok (sb s) (log s) v" and room: "balloc_room s (sb s) L H"
    and n: "n < sb_size (sb s)" "\<not> block_used (sb s) v n" "n \<notin> H" and k: "k * BPB \<le> n" "n < Suc k * BPB"
    and least: "\<forall>c<n. block_used (sb s) v c"
  defines "B \<equiv> BBLOCK n (sb s)"
  shows "\<exists>s'. balloc_loop ROOTDEV (k * BPB # bs) s = Ok n s' \<and> tstep {} s s' \<and>
     txn s' (v(B := mark_used (sb s) n v, n := replicate BSIZE 0)) (insert n (insert B L)) H"
proof -
  let ?x = "sb s"
  have nk: "n - k * BPB < BPB" "k * BPB + (n - k * BPB) = n" using k by auto
  have Bk: "B = BBLOCK (k * BPB) ?x" and nm: "n mod BPB = n - k * BPB"
    using BBLOCK_chunk [OF nk(1), of k ?x] nk(2) by (auto simp: B_def)
  have B: "B < 2 ^ 31" "B \<notin> log_area (log s)" "B \<notin> H" "n \<noteq> B"
    using layoutD(2) [OF bm, of B] layoutD(4) [OF bm n(1,2)] n room
    by (auto simp: bitmap_blocks_def balloc_room_def B_def)
  have fin: "finite L" "finite H" using txn_card(1) [OF t] txn_finite_held [OF t] .
  have U: "card (L \<union> H) \<le> card L + card H" by (rule card_Un_le)
  obtain i s1 where 1: "bread ROOTDEV B s = Ok i s1" "tstep {} s s1" "buf_for s1 i B" "txn s1 v L (insert B H)"
    using t_bread [OF t B(1,3)] U room by (auto simp: balloc_room_def)
  have below: "\<forall>c<k * BPB. c < sb_size ?x \<longrightarrow> block_used ?x v c" using least k(1) by auto
  note find = find_chunk [OF below n(1,2) least]
  have cap1: "card L < log_cap (log s1)" "B \<notin> log_area (log s1)" using tstep_log [OF 1(2)] room B by (auto simp: balloc_room_def)
  have "length (mark_used ?x n v) = BSIZE" using txn_length [OF t] by simp
  then obtain s2 where 2: "kseq (set_data i (mark_used ?x n v)) (kseq (log_write i) (kseq (brelse i)
        (kseq (bzero ROOTDEV n) (kret n)))) s1 = kseq (bzero ROOTDEV n) (kret n) s2"
     "tstep {B} s1 s2" "txn s2 (v(B := mark_used ?x n v)) (insert B L) (insert B H - {B})"
    using t_modify [OF 1(4,3) cap1, of "mark_used ?x n v" "kseq (bzero ROOTDEV n) (kret n)"] by auto
  have st2: "tstep {} s s2"
    using tstep_unheld [OF tstep_trans [OF 1(2) 2(2)] txnD(1) [OF t]] B txnD(6) [OF t] by simp
  have t2: "txn s2 (v(B := mark_used ?x n v)) (insert B L) H" using 2(3) B(3) by simp
  have "n < 2 ^ 31" "n \<notin> log_area (log s2)"
    using layoutD(4) [OF bm n(1,2)] tstep_log [OF st2] by auto
  moreover have "card (insert B L) < log_cap (log s2)" "card (insert B L \<union> H) < NBUF"
    using room tstep_log [OF st2] card_Un_le [of "insert B L" H] fin B(3)
    by (auto simp: balloc_room_def card_insert_if split: if_splits)
  ultimately obtain s3 where 3: "bzero ROOTDEV n s2 = Ok () s3" "tstep {} s2 s3"
     "txn s3 (v(B := mark_used ?x n v, n := replicate BSIZE 0)) (insert n (insert B L)) H"
    using bzero_spec [OF t2] n(3) by blast
  have "balloc_loop ROOTDEV (k * BPB # bs) s = Ok n s3"
    using 1(1) 2(1) 3(1) find k nk buf_data_spec [OF txnD(1) [OF 1(4)] 1(3)] txnD(4) [OF 1(4)]
    by (simp add: Bk [symmetric] mark_used_def nm B_def [symmetric])
  then show ?thesis using 3 tstep_trans0 [OF st2 3(2)] by auto
qed

lemma balloc_skip:
  assumes t: "txn s v L H" and bm: "layout_ok (sb s) (log s) v" and room: "balloc_room s (sb s) L H"
    and k: "k * BPB < sb_size (sb s)"
    and none: "\<forall>c<Suc k * BPB. c < sb_size (sb s) \<longrightarrow> block_used (sb s) v c"
  shows "\<exists>s'. balloc_loop ROOTDEV (k * BPB # bs) s = balloc_loop ROOTDEV bs s' \<and> tstep {} s s' \<and> txn s' v L H"
proof -
  let ?x = "sb s" and ?B = "BBLOCK (k * BPB) (sb s)"
  have B: "?B < 2 ^ 31" "?B \<notin> H"
    using layoutD(2) [OF bm, of ?B] k room by (auto simp: bitmap_blocks_def balloc_room_def)
  have U: "card (L \<union> H) \<le> card L + card H" by (rule card_Un_le)
  obtain i s1 where 1: "bread ROOTDEV ?B s = Ok i s1" "tstep {} s s1" "buf_for s1 i ?B" "txn s1 v L (insert ?B H)"
    using t_bread [OF t B] U room by (auto simp: balloc_room_def)
  obtain s2 where 2: "brelse i s1 = Ok () s2" "tstep {} s s2" "txn s2 v L H"
    using t_release [OF t B(2) 1(2,4,3)] by blast
  have "find (\<lambda>bi. k * BPB + bi < sb_size ?x \<and> v ?B ! (bi div 8) AND bmask bi = 0) [0..<BPB] = None"
  proof -
    have "\<not> (k * BPB + bi < sb_size ?x \<and> v ?B ! (bi div 8) AND bmask bi = 0)" if "bi < BPB" for bi
      using BBLOCK_chunk [OF that, of k ?x] none [rule_format, of "k * BPB + bi"] that by (auto simp: block_used_def)
    then show ?thesis by (simp add: find_upt_None)
  qed
  then show ?thesis
    using 1(1) 2 buf_data_spec [OF txnD(1) [OF 1(4)] 1(3)] txnD(4) [OF 1(4)] by auto
qed

lemma tstep_sb: "tstep B s (t :: 'a fs_state_scheme) \<Longrightarrow> sb t = sb s \<and> icache t = icache s \<and> mem t = mem s"
  by (elim tstep_frame) simp

lemma balloc_loop_spec:
  assumes "txn s v L H" and "layout_ok (sb s) (log s) v" and "balloc_room s (sb s) L H"
    and n: "n < sb_size (sb s)" "\<not> block_used (sb s) v n" "n \<notin> H" "\<forall>c<n. block_used (sb s) v c"
    and k: "k * BPB \<le> n" "n < (k + j) * BPB"
  shows "\<exists>s'. balloc_loop ROOTDEV (map (\<lambda>k. k * BPB) [k..<k + j]) s = Ok n s' \<and> tstep {} s s' \<and>
     txn s' (v(BBLOCK n (sb s) := mark_used (sb s) n v, n := replicate BSIZE 0)) (insert n (insert (BBLOCK n (sb s)) L)) H"
  using assms
proof (induction j arbitrary: k s)
  case 0
  then show ?case by simp
next
  case (Suc j)
  have list: "map (\<lambda>k. k * BPB) [k..<k + Suc j] = k * BPB # map (\<lambda>k. k * BPB) [Suc k..<Suc k + j]"
    by (simp add: upt_conv_Cons)
  show ?case
  proof (cases "n < Suc k * BPB")
    case True
    then show ?thesis unfolding list using Suc.prems balloc_take [of s v L H n k] by blast
  next
    case False
    have "k * BPB < sb_size (sb s)" using Suc.prems(4,8) by simp
    moreover have "\<forall>c<Suc k * BPB. c < sb_size (sb s) \<longrightarrow> block_used (sb s) v c" using False Suc.prems(7) by auto
    ultimately obtain s1 where 1: "balloc_loop ROOTDEV (k * BPB # map (\<lambda>k. k * BPB) [Suc k..<Suc k + j]) s =
        balloc_loop ROOTDEV (map (\<lambda>k. k * BPB) [Suc k..<Suc k + j]) s1" "tstep {} s s1" "txn s1 v L H"
      using balloc_skip [OF Suc.prems(1-3)] by blast
    note fr = tstep_log [OF 1(2)] tstep_sb [OF 1(2)]
    have sb1: "sb s1 = sb s" using fr by simp
    have "\<exists>s'. balloc_loop ROOTDEV (map (\<lambda>k. k * BPB) [Suc k..<Suc k + j]) s1 = Ok n s' \<and> tstep {} s1 s' \<and>
     txn s' (v(BBLOCK n (sb s1) := mark_used (sb s1) n v, n := replicate BSIZE 0)) (insert n (insert (BBLOCK n (sb s1)) L)) H"
      using False Suc.prems fr by (intro Suc.IH [OF 1(3)]) (simp_all add: layout_ok_def balloc_room_def)
    then obtain s' where 2: "balloc_loop ROOTDEV (map (\<lambda>k. k * BPB) [Suc k..<Suc k + j]) s1 = Ok n s'" "tstep {} s1 s'"
     "txn s' (v(BBLOCK n (sb s) := mark_used (sb s) n v, n := replicate BSIZE 0)) (insert n (insert (BBLOCK n (sb s)) L)) H"
      unfolding sb1 by blast
    show ?thesis
      unfolding list 1(1) using 2 tstep_trans0 [OF 1(2) 2(2)] by blast
  qed
qed

lemma balloc_spec:
  assumes t: "txn s v L H" and bm: "layout_ok (sb s) (log s) v" and room: "balloc_room s (sb s) L H"
    and n: "n < sb_size (sb s)" "\<not> block_used (sb s) v n" "n \<notin> H" "\<forall>c<n. block_used (sb s) v c"
  defines "B \<equiv> BBLOCK n (sb s)"
  shows "\<exists>s'. balloc ROOTDEV s = Ok n s' \<and> tstep {} s s' \<and>
     txn s' (v(B := mark_used (sb s) n v, n := replicate BSIZE 0)) (insert n (insert B L)) H"
proof -
  have "n < (0 + (sb_size (sb s) + BPB - 1) div BPB) * BPB"
    using n(1) by (simp add: params)
  from balloc_loop_spec [OF t bm room n _ this] show ?thesis
    by (simp add: balloc_def B_def)
qed

lemma balloc_full:
  assumes "txn s v L H" and "layout_ok (sb s) (log s) v" and "balloc_room s (sb s) L H"
    and "\<forall>c < sb_size (sb s). block_used (sb s) v c" and "\<forall>i\<in>set ks. i * BPB < sb_size (sb s)"
  shows "\<exists>s'. balloc_loop ROOTDEV (map (\<lambda>k. k * BPB) ks) s = Panic ''balloc: out of blocks'' s'"
  using assms
proof (induction ks arbitrary: s)
  case (Cons k ks)
  obtain s1 where 1: "balloc_loop ROOTDEV (k * BPB # map (\<lambda>k. k * BPB) ks) s =
        balloc_loop ROOTDEV (map (\<lambda>k. k * BPB) ks) s1" "tstep {} s s1" "txn s1 v L H"
    using balloc_skip [OF Cons.prems(1-3), of k "map (\<lambda>k. k * BPB) ks"] Cons.prems(4,5) by auto
  note fr = tstep_log [OF 1(2)] tstep_sb [OF 1(2)]
  have "\<exists>s'. balloc_loop ROOTDEV (map (\<lambda>k. k * BPB) ks) s1 = Panic ''balloc: out of blocks'' s'"
    using Cons.prems fr by (intro Cons.IH [OF 1(3)]) (simp_all add: layout_ok_def balloc_room_def)
  then show ?case using 1(1) by simp
qed simp
text \<open>Allocation as seen from above: some free block leaves the set of free blocks, zero-filled;
  nothing else changes outside the bitmap.\<close>

definition free_blocks :: "superblock \<Rightarrow> (nat \<Rightarrow> bytes) \<Rightarrow> nat set" where
  "free_blocks x v = {b. b < sb_size x \<and> \<not> block_used x v b}"

lemma finite_free_blocks [simp]: "finite (free_blocks x v)"
  by (simp add: free_blocks_def)

definition allocated :: "superblock \<Rightarrow> nat \<Rightarrow> (nat \<Rightarrow> bytes) \<Rightarrow> (nat \<Rightarrow> bytes) \<Rightarrow> bool" where
  "allocated x n v v' \<longleftrightarrow>
     n \<in> free_blocks x v \<and> v' n = replicate BSIZE 0 \<and> (\<forall>c < sb_size x. block_used x v' c \<longleftrightarrow> c = n \<or> block_used x v c) \<and>
     (\<forall>c. c \<noteq> n \<longrightarrow> c \<notin> bitmap_blocks x \<longrightarrow> v' c = v c)"

lemma allocated_free: "allocated x n v v' \<Longrightarrow> free_blocks x v' = free_blocks x v - {n} \<and> n \<in> free_blocks x v"
  by (auto simp: allocated_def free_blocks_def)

lemma allocated_layout: "allocated x n v v' \<Longrightarrow> layout_ok x l v \<Longrightarrow> layout_ok x l v'"
  by (auto simp: allocated_def layout_ok_def)

lemma balloc_allocates:
  assumes t: "txn s v L H" and ly: "layout_ok (sb s) (log s) v" and room: "balloc_room s (sb s) L H"
    and free: "free_blocks (sb s) v \<noteq> {}" and H: "H \<inter> free_blocks (sb s) v = {}"
  shows "\<exists>n s' v' L'. balloc ROOTDEV s = Ok n s' \<and> tstep {} s s' \<and> txn s' v' L' H \<and> allocated (sb s) n v v' \<and>
     (\<forall>c<n. block_used (sb s) v c) \<and> L \<subseteq> L' \<and> card L' \<le> card L + 2"
proof -
  let ?x = "sb s"
  define n where "n = (LEAST b. b \<in> free_blocks ?x v)"
  have nf: "n \<in> free_blocks ?x v" unfolding n_def using free by (metis LeastI ex_in_conv)
  have lt: "\<forall>c<n. block_used ?x v c"
  proof (intro allI impI)
    fix c assume "c < n"
    moreover from this have "c \<notin> free_blocks ?x v" unfolding n_def by (rule not_less_Least)
    ultimately show "block_used ?x v c" using nf by (simp add: free_blocks_def)
  qed
  have n: "n < sb_size ?x" "\<not> block_used ?x v n" "n \<notin> H" using nf H by (auto simp: free_blocks_def)
  let ?B = "BBLOCK n ?x" and ?L = "insert n (insert (BBLOCK n ?x) L)"
  let ?v = "v(?B := mark_used ?x n v, n := replicate BSIZE 0)"
  obtain s' where s': "balloc ROOTDEV s = Ok n s'" "tstep {} s s'" "txn s' ?v ?L H"
    using balloc_spec [OF t ly room n lt] by blast
  have nb: "n \<notin> bitmap_blocks ?x" using layoutD(4) [OF ly n(1,2)] by simp
  have Bb: "?B \<in> bitmap_blocks ?x" using n(1) by (auto simp: bitmap_blocks_def)
  have "block_used ?x ?v c \<longleftrightarrow> c = n \<or> block_used ?x v c" if "c < sb_size ?x" for c
  proof -
    have "BBLOCK c ?x \<noteq> n" using nb that by (auto simp: bitmap_blocks_def)
    then show ?thesis
      using used_mark [of v n ?x "v(?B := mark_used ?x n v)" c] txn_length [OF t] by (simp add: block_used_def)
  qed
  then have "allocated ?x n v ?v" using nf nb Bb by (auto simp: allocated_def)
  moreover have "card ?L \<le> card L + 2"
    using card_insert_if [of "insert ?B L" n] card_insert_if [of L ?B] txn_card(1) [OF t] by auto
  ultimately show ?thesis using s' lt by blast
qed

end
