(* ===== verification/Inode.thy ===== *)
theory Inode
  imports Block_Alloc
begin

text \<open>
  Inodes, the middle layer of \<^verbatim>\<open>src/kernel/fs.c\<close>. An in-memory inode is its index in \<open>icache\<close>.
  The on-disk inode has the layout of \<^verbatim>\<open>struct dinode\<close>: \<^verbatim>\<open>size\<close> at 0, \<^verbatim>\<open>addrs[13]\<close> at 4, \<^verbatim>\<open>type\<close>,
  \<^verbatim>\<open>nlink\<close>, \<^verbatim>\<open>mode\<close> and \<^verbatim>\<open>perm\<close> at 56, 58, 60 and 62.
\<close>

definition upd_inode :: "nat \<Rightarrow> (inode \<Rightarrow> inode) \<Rightarrow> 'a fs_state_scheme \<Rightarrow> 'a fs_state_scheme" where
  "upd_inode i f s = s\<lparr>icache := (icache s)[i := f (icache s ! i)]\<rparr>"

definition set_inode :: "nat \<Rightarrow> (inode \<Rightarrow> inode) \<Rightarrow> ('a fs_state_scheme, unit) kmon" where
  "set_inode i f = kmod (upd_inode i f)"

definition get_inode :: "nat \<Rightarrow> ('a fs_state_scheme, inode) kmon" where
  "get_inode i = kget (\<lambda>s. icache s ! i)"

section \<open>On-disk inodes\<close>

definition dinode_off :: "nat \<Rightarrow> nat" where
  "dinode_off inum = (inum mod IPB) * DINODE_SIZE"

definition dinode_type :: "nat \<Rightarrow> bytes \<Rightarrow> ushort" where
  "dinode_type off d = get16 (off + 56) d"

definition get_addrs :: "nat \<Rightarrow> bytes \<Rightarrow> nat list" where
  "get_addrs off d = map (\<lambda>i. unat (get32 (off + 4 * i) d)) [0..<NDIRECT + 1]"

definition put_addrs :: "nat \<Rightarrow> nat list \<Rightarrow> bytes \<Rightarrow> bytes" where
  "put_addrs off as d = fold (\<lambda>i d. put32 (off + 4 * i) (of_nat (as ! i)) d) [0..<NDIRECT + 1] d"

text \<open>The assignments of \<^verbatim>\<open>ilock\<close> and of \<^verbatim>\<open>iupdate\<close>.\<close>

definition load_dinode :: "nat \<Rightarrow> bytes \<Rightarrow> inode \<Rightarrow> inode" where
  "load_dinode off d ip =
     ip\<lparr>i_type := dinode_type off d, i_nlink := get16 (off + 58) d, i_size := unat (get32 off d),
        i_mode := get16 (off + 60) d, i_perm := get16 (off + 62) d, i_addrs := get_addrs (off + 4) d\<rparr>"

definition store_dinode :: "nat \<Rightarrow> inode \<Rightarrow> bytes \<Rightarrow> bytes" where
  "store_dinode off ip d =
     put_addrs (off + 4) (i_addrs ip)
       (put16 (off + 62) (i_perm ip)
       (put16 (off + 60) (i_mode ip)
       (put32 off (of_nat (i_size ip))
       (put16 (off + 58) (i_nlink ip)
       (put16 (off + 56) (i_type ip) d)))))"

section \<open>The inode cache\<close>

definition iinit :: "('a fs_state_scheme, unit) kmon" where
  "iinit = kfor [0..<NINODE] (\<lambda>i. set_inode i (\<lambda>x. x\<lparr>i_lock := initsleeplock\<rparr>))"

definition iget :: "nat \<Rightarrow> nat \<Rightarrow> ('a fs_state_scheme, nat) kmon" where
  "iget dev inum =
     kbind (kget icache) (\<lambda>ic.
     case find (\<lambda>i. i_ref (ic ! i) > 0 \<and> i_dev (ic ! i) = dev \<and> i_inum (ic ! i) = inum) [0..<NINODE] of
       Some i \<Rightarrow>
         kseq (set_inode i (\<lambda>x. x\<lparr>i_ref := i_ref x + 1\<rparr>))
              (kret i)
     | None \<Rightarrow>
         (case find (\<lambda>i. i_ref (ic ! i) = 0) [0..<NINODE] of
            None \<Rightarrow> kpanic ''iget: no inodes''
          | Some i \<Rightarrow>
              kseq (set_inode i (\<lambda>x. x\<lparr>i_dev := dev, i_inum := inum, i_ref := 1, i_valid := False\<rparr>))
                   (kret i)))"

definition idup :: "nat \<Rightarrow> ('a fs_state_scheme, nat) kmon" where
  "idup ip = kseq (set_inode ip (\<lambda>x. x\<lparr>i_ref := i_ref x + 1\<rparr>)) (kret ip)"

primrec ialloc_loop :: "nat \<Rightarrow> ushort \<Rightarrow> nat list \<Rightarrow> ('a fs_state_scheme, nat) kmon" where
  "ialloc_loop dev type [] = kpanic ''ialloc: no inodes''"
| "ialloc_loop dev type (inum # is) =
     kbind (kget sb) (\<lambda>x.
     kbind (bread dev (IBLOCK inum x)) (\<lambda>bp.
     kbind (buf_data bp) (\<lambda>d.
     let off = dinode_off inum in
     if dinode_type off d = 0 then
       kseq (set_data bp
              (put16 (off + 62) (M_READ OR M_WRITE)
              (put16 (off + 60) M_ALL
              (put16 (off + 56) type
              (put_bytes off (replicate DINODE_SIZE 0) d)))))
      (kseq (log_write bp)
      (kseq (brelse bp)
            (iget dev inum)))
     else
       kseq (brelse bp)
            (ialloc_loop dev type is))))"

definition ialloc :: "nat \<Rightarrow> ushort \<Rightarrow> ('a fs_state_scheme, nat) kmon" where
  "ialloc dev type = kbind (kget sb) (\<lambda>x. ialloc_loop dev type [1..<sb_ninodes x])"

definition iupdate :: "nat \<Rightarrow> ('a fs_state_scheme, unit) kmon" where
  "iupdate ip =
     kbind (get_inode ip) (\<lambda>x.
     kbind (kget sb) (\<lambda>y.
     kbind (bread (i_dev x) (IBLOCK (i_inum x) y)) (\<lambda>bp.
     kbind (buf_data bp) (\<lambda>d.
     kseq (set_data bp (store_dinode (dinode_off (i_inum x)) x d))
    (kseq (log_write bp)
          (brelse bp))))))"

text \<open>\<^verbatim>\<open>acquiresleep(&ip->lock)\<close>, \<^verbatim>\<open>releasesleep(&ip->lock)\<close>, \<^verbatim>\<open>holdingsleep(&ip->lock)\<close>.\<close>

definition lock_inode :: "nat \<Rightarrow> ('a fs_state_scheme, unit) kmon" where
  "lock_inode i =
     acquiresleep (\<lambda>s. i_lock (icache s ! i)) (\<lambda>f. upd_inode i (\<lambda>x. x\<lparr>i_lock := f (i_lock x)\<rparr>))
       (ChanInodeLock i)"

definition unlock_inode :: "nat \<Rightarrow> ('a fs_state_scheme, unit) kmon" where
  "unlock_inode i =
     releasesleep (\<lambda>f. upd_inode i (\<lambda>x. x\<lparr>i_lock := f (i_lock x)\<rparr>)) (ChanInodeLock i)"

definition holding_inode :: "nat \<Rightarrow> ('a fs_state_scheme, bool) kmon" where
  "holding_inode i = holdingsleep (\<lambda>s. i_lock (icache s ! i))"

definition ilock :: "nat \<Rightarrow> ('a fs_state_scheme, unit) kmon" where
  "ilock ip =
     kbind (get_inode ip) (\<lambda>x.
     if i_ref x < 1 then kpanic ''ilock''
     else
       kseq (lock_inode ip)
      (kbind (get_inode ip) (\<lambda>x.
       kwhen (\<not> i_valid x)
        (kbind (kget sb) (\<lambda>y.
         kbind (bread (i_dev x) (IBLOCK (i_inum x) y)) (\<lambda>bp.
         kbind (buf_data bp) (\<lambda>d.
         kseq (set_inode ip (load_dinode (dinode_off (i_inum x)) d))
        (kseq (brelse bp)
        (kseq (set_inode ip (\<lambda>x. x\<lparr>i_valid := True\<rparr>))
        (kbind (get_inode ip) (\<lambda>x.
         kwhen (i_type x = 0) (kpanic ''ilock: no type''))))))))))))"

definition iunlock :: "nat \<Rightarrow> ('a fs_state_scheme, unit) kmon" where
  "iunlock ip =
     kbind (holding_inode ip) (\<lambda>h.
     kbind (get_inode ip) (\<lambda>x.
     if \<not> h \<or> i_ref x < 1 then kpanic ''iunlock'' else unlock_inode ip))"

section \<open>Inode content\<close>

definition bmap_entry :: "nat \<Rightarrow> nat \<Rightarrow> nat \<Rightarrow> ('a fs_state_scheme, nat) kmon" where
  "bmap_entry dev addr bn =
     kbind (bread dev addr) (\<lambda>bp.
     kbind (buf_data bp) (\<lambda>d.
     kbind
       (let target_addr = unat (get32 (4 * bn) d) in
        if target_addr = 0 then
          kbind (balloc dev) (\<lambda>target_addr.
          if target_addr = 0 then kpanic ''bmap: balloc failed for data block via indirect''
          else
            kbind (buf_data bp) (\<lambda>d.
            kseq (set_data bp (put32 (4 * bn) (of_nat target_addr) d))
           (kseq (log_write bp)
                 (kret target_addr))))
        else kret target_addr) (\<lambda>target_addr.
     kseq (brelse bp)
          (kret target_addr))))"

definition bmap :: "nat \<Rightarrow> nat \<Rightarrow> ('a fs_state_scheme, nat) kmon" where
  "bmap ip bn =
     kbind (get_inode ip) (\<lambda>x.
     if bn < NDIRECT then
       (if i_addrs x ! bn = 0 then
          kbind (balloc (i_dev x)) (\<lambda>addr.
          if addr = 0 then kpanic ''bmap: balloc failed''
          else
            kseq (set_inode ip (\<lambda>x. x\<lparr>i_addrs := (i_addrs x)[bn := addr]\<rparr>))
                 (kret addr))
        else kret (i_addrs x ! bn))
     else if bn - NDIRECT < NINDIRECT then
       kbind
         (if i_addrs x ! NDIRECT = 0 then
            kbind (balloc (i_dev x)) (\<lambda>addr.
            if addr = 0 then kpanic ''bmap: balloc failed for indirect block''
            else
              kseq (set_inode ip (\<lambda>x. x\<lparr>i_addrs := (i_addrs x)[NDIRECT := addr]\<rparr>))
                   (kret addr))
          else kret (i_addrs x ! NDIRECT)) (\<lambda>addr.
       bmap_entry (i_dev x) addr (bn - NDIRECT))
     else kpanic ''bmap: out of range'')"

definition itrunc_direct :: "nat \<Rightarrow> nat \<Rightarrow> ('a fs_state_scheme, unit) kmon" where
  "itrunc_direct ip i =
     kbind (get_inode ip) (\<lambda>x.
     kwhen (i_addrs x ! i \<noteq> 0)
       (kseq (bfree (i_dev x) (i_addrs x ! i))
             (set_inode ip (\<lambda>x. x\<lparr>i_addrs := (i_addrs x)[i := 0]\<rparr>))))"

definition itrunc_indirect :: "nat \<Rightarrow> ('a fs_state_scheme, unit) kmon" where
  "itrunc_indirect ip =
     kbind (get_inode ip) (\<lambda>x.
     kwhen (i_addrs x ! NDIRECT \<noteq> 0)
       (kbind (bread (i_dev x) (i_addrs x ! NDIRECT)) (\<lambda>bp.
        kseq (kfor [0..<NINDIRECT] (\<lambda>j.
               kbind (buf_data bp) (\<lambda>d.
               kwhen (get32 (4 * j) d \<noteq> 0) (bfree (i_dev x) (unat (get32 (4 * j) d))))))
       (kseq (brelse bp)
       (kseq (bfree (i_dev x) (i_addrs x ! NDIRECT))
             (set_inode ip (\<lambda>x. x\<lparr>i_addrs := (i_addrs x)[NDIRECT := 0]\<rparr>)))))))"

definition itrunc :: "nat \<Rightarrow> ('a fs_state_scheme, unit) kmon" where
  "itrunc ip =
     kseq (kfor [0..<NDIRECT] (itrunc_direct ip))
    (kseq (itrunc_indirect ip)
    (kseq (set_inode ip (\<lambda>x. x\<lparr>i_size := 0\<rparr>))
          (iupdate ip)))"

definition iput :: "nat \<Rightarrow> ('a fs_state_scheme, unit) kmon" where
  "iput ip =
     kbind (get_inode ip) (\<lambda>x.
     kseq (kwhen (i_ref x = 1 \<and> i_valid x \<and> i_nlink x = 0)
            (kseq (lock_inode ip)
            (kseq (itrunc ip)
            (kseq (set_inode ip (\<lambda>x. x\<lparr>i_type := 0\<rparr>))
            (kseq (iupdate ip)
            (kseq (set_inode ip (\<lambda>x. x\<lparr>i_valid := False\<rparr>))
                  (unlock_inode ip)))))))
          (set_inode ip (\<lambda>x. x\<lparr>i_ref := i_ref x - 1\<rparr>)))"

definition iunlockput :: "nat \<Rightarrow> ('a fs_state_scheme, unit) kmon" where
  "iunlockput ip = kseq (iunlock ip) (iput ip)"

record stat =
  st_dev :: nat
  st_ino :: nat
  st_type :: ushort
  st_nlink :: ushort
  st_size :: nat
  st_mode :: ushort
  st_perm :: ushort

definition stati :: "nat \<Rightarrow> ('a fs_state_scheme, stat) kmon" where
  "stati ip =
     kbind (get_inode ip) (\<lambda>x.
     kret \<lparr>st_dev = i_dev x, st_ino = i_inum x, st_type = i_type x, st_nlink = i_nlink x,
           st_size = i_size x, st_mode = i_mode x, st_perm = i_perm x\<rparr>)"

section \<open>The layout of on-disk inodes\<close>

definition inode_fits :: "inode \<Rightarrow> bool" where
  "inode_fits x \<longleftrightarrow> i_size x < 2 ^ 32 \<and> length (i_addrs x) = NDIRECT + 1 \<and> (\<forall>a\<in>set (i_addrs x). a < 2 ^ 32)"

lemma dinode_off_bound: "dinode_off i + DINODE_SIZE \<le> BSIZE"
proof -
  have "i mod IPB < IPB" by (simp add: params)
  then show ?thesis by (simp add: dinode_off_def params)
qed

lemma dinode_off_disjoint:
  assumes "i mod IPB \<noteq> j mod IPB"
  shows "dinode_off i + DINODE_SIZE \<le> dinode_off j \<or> dinode_off j + DINODE_SIZE \<le> dinode_off i"
  using assms by (auto simp: dinode_off_def params neq_iff)

lemma length_put_addrs:
  assumes "off + 4 * 13 \<le> length d" and "set xs \<subseteq> {..<13}"
  shows "length (fold (\<lambda>i d. put32 (off + 4 * i) (of_nat (as ! i)) d) xs d) = length d"
  using assms
proof (induction xs arbitrary: d)
  case (Cons k xs)
  have "length (put32 (off + 4 * k) (of_nat (as ! k)) d) = length d" using Cons.prems by (intro length_put32) auto
  then show ?case using Cons by simp
qed simp

lemma put_addrs_other:
  assumes "o2 + w \<le> off \<or> off + 4 * 13 \<le> o2" and "off + 4 * 13 \<le> length d" and "set xs \<subseteq> {..<13}"
  shows "get_bytes o2 w (fold (\<lambda>i d. put32 (off + 4 * i) (of_nat (as ! i)) d) xs d) = get_bytes o2 w d"
  using assms
proof (induction xs arbitrary: d)
  case (Cons k xs)
  have k: "k < 13" using Cons.prems by simp
  have "length (put32 (off + 4 * k) (of_nat (as ! k)) d) = length d" using Cons.prems k by (intro length_put32) auto
  then have "get_bytes o2 w (fold (\<lambda>i d. put32 (off + 4 * i) (of_nat (as ! i)) d) xs (put32 (off + 4 * k) (of_nat (as ! k)) d)) =
     get_bytes o2 w (put32 (off + 4 * k) (of_nat (as ! k)) d)"
    using Cons.prems by (intro Cons.IH) auto
  also have "\<dots> = get_bytes o2 w d"
    using Cons.prems k unfolding put32_def by (intro get_put_disjoint) auto
  finally show ?case by simp
qed simp

lemma put_addrs_same:
  assumes "k \<in> set xs" and "distinct xs" and "off + 4 * 13 \<le> length d" and "set xs \<subseteq> {..<13}"
  shows "get32 (off + 4 * k) (fold (\<lambda>i d. put32 (off + 4 * i) (of_nat (as ! i)) d) xs d) = of_nat (as ! k)"
  using assms
proof (induction xs arbitrary: d)
  case (Cons j xs)
  let ?d = "put32 (off + 4 * j) (of_nat (as ! j)) d"
  have j: "j < 13" "k < 13" using Cons.prems by auto
  have len: "length ?d = length d" using Cons.prems j by (intro length_put32) auto
  show ?case
  proof (cases "j = k")
    case False
    then show ?thesis using Cons len by simp
  next
    case True
    have *: "k \<notin> set ys \<Longrightarrow> set ys \<subseteq> {..<13} \<Longrightarrow> off + 4 * 13 \<le> length e \<Longrightarrow>
      get32 (off + 4 * k) (fold (\<lambda>i d. put32 (off + 4 * i) (of_nat (as ! i)) d) ys e) = get32 (off + 4 * k) e" for ys e
    proof (induction ys arbitrary: e)
      case (Cons y ys)
      have y: "y < 13" "y \<noteq> k" using Cons.prems by auto
      then have "length (put32 (off + 4 * y) (of_nat (as ! y)) e) = length e"
        "get32 (off + 4 * k) (put32 (off + 4 * y) (of_nat (as ! y)) e) = get32 (off + 4 * k) e"
        using Cons.prems by (auto intro!: length_put32 get32_put32_disjoint)
      then show ?case using Cons by simp
    qed simp
    have "get32 (off + 4 * k) ?d = of_nat (as ! k)" using True Cons.prems j by (simp add: get32_put32)
    then show ?thesis using * [of xs ?d] True Cons.prems len by simp
  qed
qed simp

lemma length_store_dinode [simp]:
  assumes "off + DINODE_SIZE \<le> length d"
  shows "length (store_dinode off x d) = length d"
proof -
  have "length (put16 (off + 62) p (put16 (off + 60) q (put32 off r (put16 (off + 58) t (put16 (off + 56) u d))))) = length d" for p q r t u
    using assms by (simp add: params)
  then show ?thesis
    unfolding store_dinode_def put_addrs_def using assms by (subst length_put_addrs) (auto simp: params)
qed

lemma store_dinode_other:
  assumes "off + DINODE_SIZE \<le> length d" and "o2 + w \<le> off \<or> off + DINODE_SIZE \<le> o2"
  shows "get_bytes o2 w (store_dinode off x d) = get_bytes o2 w d"
proof -
  have len: "length (put16 (off + 62) p (put16 (off + 60) q (put32 off r (put16 (off + 58) t (put16 (off + 56) u d))))) = length d" for p q r t u
    using assms by (simp add: params)
  show ?thesis
    unfolding store_dinode_def put_addrs_def
    using assms len by (subst put_addrs_other) (auto simp: params put16_def put32_def get_put_disjoint)
qed


text \<open>What \<^verbatim>\<open>ilock\<close> reads back after \<^verbatim>\<open>iupdate\<close>: every field but the device numbers, which the
  on-disk inode does not have.\<close>

definition same_on_disk :: "inode \<Rightarrow> inode \<Rightarrow> bool" where
  "same_on_disk x y \<longleftrightarrow> i_type x = i_type y \<and> i_nlink x = i_nlink y \<and> i_size x = i_size y \<and>
     i_mode x = i_mode y \<and> i_perm x = i_perm y \<and> i_addrs x = i_addrs y"

lemma store_dinode_fields:
  assumes off: "off + DINODE_SIZE \<le> length d"
  shows "get16 (off + 56) (store_dinode off x d) = i_type x" and "get16 (off + 58) (store_dinode off x d) = i_nlink x"
    and "get16 (off + 60) (store_dinode off x d) = i_mode x" and "get16 (off + 62) (store_dinode off x d) = i_perm x"
    and "get32 off (store_dinode off x d) = of_nat (i_size x)"
proof -
  let ?e = "put16 (off + 62) (i_perm x) (put16 (off + 60) (i_mode x) (put32 off (of_nat (i_size x))
     (put16 (off + 58) (i_nlink x) (put16 (off + 56) (i_type x) d))))"
  have len: "length ?e = length d" using off by (simp add: params)
  have g: "get_bytes o2 w (store_dinode off x d) = get_bytes o2 w ?e" if "o2 + w \<le> off + 4 \<or> off + 56 \<le> o2" for o2 w
    unfolding store_dinode_def put_addrs_def using off len that by (subst put_addrs_other) (auto simp: params)
  show "get16 (off + 56) (store_dinode off x d) = i_type x" and "get16 (off + 58) (store_dinode off x d) = i_nlink x"
    and "get16 (off + 60) (store_dinode off x d) = i_mode x" and "get16 (off + 62) (store_dinode off x d) = i_perm x"
    using off g [of "off + 56" 2] g [of "off + 58" 2] g [of "off + 60" 2] g [of "off + 62" 2]
    by (simp_all add: get16_def params byte_simps put16_def put32_def le_word_le_bytes)
  show "get32 off (store_dinode off x d) = of_nat (i_size x)"
    using off g [of off 4] by (simp add: get32_def params byte_simps put16_def put32_def le_word_le_bytes)
qed

lemma store_dinode_addrs:
  assumes off: "off + DINODE_SIZE \<le> length d" and fits: "inode_fits x"
  shows "get_addrs (off + 4) (store_dinode off x d) = i_addrs x"
proof (rule nth_equalityI)
  show "length (get_addrs (off + 4) (store_dinode off x d)) = length (i_addrs x)"
    using fits by (simp add: get_addrs_def inode_fits_def)
  fix k assume "k < length (get_addrs (off + 4) (store_dinode off x d))"
  then have k: "k < 13" by (simp add: get_addrs_def params)
  let ?e = "put16 (off + 62) (i_perm x) (put16 (off + 60) (i_mode x) (put32 off (of_nat (i_size x))
     (put16 (off + 58) (i_nlink x) (put16 (off + 56) (i_type x) d))))"
  have len: "length ?e = length d" using off by (simp add: params)
  have "get32 (off + 4 + 4 * k) (store_dinode off x d) = of_nat (i_addrs x ! k)"
    unfolding store_dinode_def put_addrs_def using off len k by (intro put_addrs_same) (auto simp: params)
  moreover have "i_addrs x ! k < 2 ^ 32" using fits k by (simp add: inode_fits_def params)
  ultimately show "get_addrs (off + 4) (store_dinode off x d) ! k = i_addrs x ! k"
    using k by (simp add: get_addrs_def params unat_of_nat_small)
qed

lemma load_store_dinode:
  assumes "off + DINODE_SIZE \<le> length d" and "inode_fits x"
  shows "same_on_disk (load_dinode off (store_dinode off x d) y) x"
  using assms store_dinode_fields [OF assms(1), of x] store_dinode_addrs [OF assms]
  by (simp add: same_on_disk_def load_dinode_def dinode_type_def inode_fits_def unat_of_nat_small)

lemma load_dinode_other:
  assumes off: "off + DINODE_SIZE \<le> length d" and dis: "o2 + DINODE_SIZE \<le> off \<or> off + DINODE_SIZE \<le> o2"
  shows "load_dinode o2 (store_dinode off x d) y = load_dinode o2 d y"
proof -
  have g: "get_bytes p w (store_dinode off x d) = get_bytes p w d" if "o2 \<le> p" "p + w \<le> o2 + DINODE_SIZE" for p w
    using dis that by (intro store_dinode_other [OF off]) auto
  have "get_addrs (o2 + 4) (store_dinode off x d) = get_addrs (o2 + 4) d"
    using g by (auto simp: get_addrs_def get32_def params)
  then show ?thesis
    using g by (simp add: load_dinode_def dinode_type_def get16_def get32_def params)
qed

section \<open>Inode operations inside a transaction\<close>

lemma icache_upd_simps [simp]:
  "acache (s\<lparr>icache := ic\<rparr>) = acache s"
  "bio_ok (s\<lparr>icache := ic\<rparr>) = bio_ok s"
  "buf_for (s\<lparr>icache := ic\<rparr>) i b = buf_for s i b"
  "txn (s\<lparr>icache := ic\<rparr>) v L H = txn s v L H"
  by (simp_all add: acache_def bio_ok_def myproc_of_def buf_for_def txn_def)

text \<open>\<open>fstep B s s'\<close>: \<open>tstep\<close>, but the inode cache may change.\<close>

definition fstep :: "nat set \<Rightarrow> 'a fs_state_scheme \<Rightarrow> 'a fs_state_scheme \<Rightarrow> bool" where
  "fstep B s s' \<longleftrightarrow> tstep B (s\<lparr>icache := icache s'\<rparr>) s'"

lemma tstep_set_icache:
  assumes "tstep B s t"
  shows "tstep B (s\<lparr>icache := ic\<rparr>) (t\<lparr>icache := ic\<rparr>)"
proof -
  have f: "bframe (s\<lparr>log := log t\<rparr>) t" using assms by (simp add: tstep_def lstep_def bstep_def)
  then obtain ps bs v dk tr lk where *: "woken (procs s) ps"
    "t = s\<lparr>log := log t, procs := ps, bufs := bs, vdisk := v, disk := dk, disk_trace := tr, links := lk\<rparr>"
    by (auto simp: bframe_def)
  have "t\<lparr>icache := ic\<rparr> = s\<lparr>log := log t, procs := ps, bufs := bs, vdisk := v, disk := dk, disk_trace := tr, links := lk\<rparr>\<lparr>icache := ic\<rparr>"
    by (rule arg_cong [OF *(2)])
  also have "\<dots> = s\<lparr>icache := ic, log := log t, procs := ps, bufs := bs, vdisk := v, disk := dk, disk_trace := tr, links := lk\<rparr>"
    by (cases s) simp
  finally have "bframe (s\<lparr>icache := ic, log := log t\<rparr>) (t\<lparr>icache := ic\<rparr>)"
    using *(1) unfolding bframe_def by (intro exI [of _ ps] exI [of _ bs] exI [of _ v] exI [of _ dk] exI [of _ tr] exI [of _ lk]) simp
  then show ?thesis
    using assms by (auto simp: tstep_def lstep_def bstep_def)
qed
lemma tstep_fstep: "tstep B s (t :: 'a fs_state_scheme) \<Longrightarrow> fstep B s t"
  using tstep_sb [of B s t] by (simp add: fstep_def)

lemma fstep_trans:
  assumes "fstep A s t" and "fstep B t u"
  shows "fstep (A \<union> B) s u"
proof -
  have "tstep A (s\<lparr>icache := icache u\<rparr>) (t\<lparr>icache := icache u\<rparr>)"
    using tstep_set_icache [OF assms(1) [unfolded fstep_def], of "icache u"] by simp
  from tstep_trans [OF this assms(2) [unfolded fstep_def]] show ?thesis by (simp add: fstep_def)
qed

lemma fstep_trans0: "fstep {} s t \<Longrightarrow> fstep {} t u \<Longrightarrow> fstep {} s u"
  using fstep_trans [of "{}" s t "{}" u] by simp

lemma fstep_icache: "bio_ok s \<Longrightarrow> fstep B s (s\<lparr>icache := ic\<rparr>)"
  by (simp add: fstep_def tstep_refl)

lemma fstep_keep: "fstep B s t \<Longrightarrow> buf_for s i b \<Longrightarrow> b \<notin> B \<Longrightarrow> buf_for t i b"
  using tstep_keep [of B "s\<lparr>icache := icache t\<rparr>" t i b] by (simp add: fstep_def)

lemma fstep_unheld: "fstep B s t \<Longrightarrow> bio_ok s \<Longrightarrow> B \<inter> c_held (acache s) = {} \<Longrightarrow> fstep {} s t"
  using tstep_unheld [of B "s\<lparr>icache := icache t\<rparr>" t] by (simp add: fstep_def)

lemma fstep_log: "fstep B s t \<Longrightarrow> log_cap (log t) = log_cap (log s) \<and> log_area (log t) = log_area (log s)"
  using tstep_log [of B "s\<lparr>icache := icache t\<rparr>" t] by (simp add: fstep_def)

lemma fstep_sb: "fstep B s t \<Longrightarrow> sb t = sb s \<and> mem t = mem s"
  using tstep_sb [of B "s\<lparr>icache := icache t\<rparr>" t] by (simp add: fstep_def)

lemma fstep_frame:
  assumes "fstep B s t"
  obtains ps bs v dk tr lk l ic where "woken (procs s) ps"
    and "t = s\<lparr>icache := ic, log := l, procs := ps, bufs := bs, vdisk := v, disk := dk, disk_trace := tr, links := lk\<rparr>"
proof -
  have "procs (s\<lparr>icache := icache t\<rparr>) = procs s" by simp
  then show ?thesis using assms that unfolding fstep_def by (metis tstep_frame)
qed

lemma fstep_proc:
  assumes "fstep B s t"
  shows "cur t = cur s" and "woken (procs s) (procs t)"
  using assms by (elim fstep_frame, simp)+

lemma woken_myproc:
  assumes "fstep B s t" and "cur s < length (procs s)"
  shows "p_pagetable (myproc_of t) = p_pagetable (myproc_of s)" and "p_pid (myproc_of t) = p_pid (myproc_of s)"
    and "p_cwd (myproc_of t) = p_cwd (myproc_of s)"
  using woken_nth [OF fstep_proc(2) [OF assms(1)] assms(2)] fstep_proc(1) [OF assms(1)]
  by (simp_all add: myproc_of_def)

lemma iupdate_spec:
  assumes t: "txn s v L H" and x: "x = icache s ! ip" "i_dev x = ROOTDEV"
  defines "b \<equiv> IBLOCK (i_inum x) (sb s)"
  assumes b: "b < 2 ^ 31" "b \<notin> H" "b \<notin> log_area (log s)" and cap: "card L < log_cap (log s)" and room: "card (L \<union> H) < NBUF"
  shows "\<exists>s'. iupdate ip s = Ok () s' \<and> tstep {} s s' \<and>
     txn s' (v(b := store_dinode (dinode_off (i_inum x)) x (v b))) (insert b L) H"
proof -
  have "length (store_dinode (dinode_off (i_inum x)) x (v b)) = BSIZE"
    using dinode_off_bound txn_length [OF t] by simp
  from t_update [OF t b cap, where m = "kret ()" and g = "store_dinode (dinode_off (i_inum x)) x", OF _ this]
  show ?thesis using room x by (auto simp: iupdate_def get_inode_def kseq_unit b_def)
qed

lemma lock_inode_run:
  assumes "ip < length (icache s)" and "\<not> slk_locked (i_lock (icache s ! ip))"
  shows "lock_inode ip s = Ok () (s\<lparr>icache := (icache s)[ip := (icache s ! ip)
     \<lparr>i_lock := \<lparr>slk_locked = True, slk_pid = p_pid (myproc_of s)\<rparr>\<rparr>]\<rparr>)"
  using assms by (cases "i_lock (icache s ! ip)") (simp add: lock_inode_def acquiresleep_def myproc_def upd_inode_def)

lemma load_dinode_simps [simp]:
  "load_dinode off d (x\<lparr>i_lock := k\<rparr>) = (load_dinode off d x)\<lparr>i_lock := k\<rparr>"
  "i_type (load_dinode off d x) = dinode_type off d" "i_inum (load_dinode off d x) = i_inum x"
  "i_dev (load_dinode off d x) = i_dev x" "i_ref (load_dinode off d x) = i_ref x"
  "i_major (load_dinode off d x) = i_major x" "i_minor (load_dinode off d x) = i_minor x"
  by (cases x, simp add: load_dinode_def)+

text \<open>An inode that the running process has locked: what the code between \<^verbatim>\<open>ilock\<close> and \<^verbatim>\<open>iunlock\<close>
  works on.\<close>

definition inode_locked :: "'a fs_state_scheme \<Rightarrow> nat \<Rightarrow> bool" where
  "inode_locked s ip \<longleftrightarrow>
     ip < length (icache s) \<and> i_ref (icache s ! ip) \<ge> 1 \<and> i_valid (icache s ! ip) \<and> i_dev (icache s ! ip) = ROOTDEV \<and>
     i_lock (icache s ! ip) = \<lparr>slk_locked = True, slk_pid = p_pid (myproc_of s)\<rparr>"

lemma ilock_cached:
  assumes "ip < length (icache s)" and "\<not> slk_locked (i_lock (icache s ! ip))" and "i_ref (icache s ! ip) \<ge> 1"
    and "i_valid (icache s ! ip)"
  shows "ilock ip s = Ok () (s\<lparr>icache := (icache s)[ip := (icache s ! ip)
     \<lparr>i_lock := \<lparr>slk_locked = True, slk_pid = p_pid (myproc_of s)\<rparr>\<rparr>]\<rparr>)"
  using assms lock_inode_run [of ip s] by (simp add: ilock_def get_inode_def kwhen_apply)

lemma ilock_load:
  assumes t: "txn s v L H" and ip: "ip < length (icache s)" "x = icache s ! ip" "\<not> slk_locked (i_lock x)" "i_ref x \<ge> 1"
    "\<not> i_valid x" "i_dev x = ROOTDEV"
  defines "b \<equiv> IBLOCK (i_inum x) (sb s)" and "off \<equiv> dinode_off (i_inum x)"
  assumes b: "b < 2 ^ 31" "b \<notin> H" and room: "card (L \<union> H) < NBUF" and type: "dinode_type off (v b) \<noteq> 0"
  shows "\<exists>s'. ilock ip s = Ok () s' \<and> fstep {} s s' \<and> txn s' v L H \<and>
     icache s' = (icache s)[ip := (load_dinode off (v b) x)
       \<lparr>i_lock := \<lparr>slk_locked = True, slk_pid = p_pid (myproc_of s)\<rparr>, i_valid := True\<rparr>]"
proof -
  let ?k = "\<lparr>slk_locked = True, slk_pid = p_pid (myproc_of s)\<rparr>"
  let ?s = "s\<lparr>icache := (icache s)[ip := x\<lparr>i_lock := ?k\<rparr>]\<rparr>"
  have lock: "lock_inode ip s = Ok () ?s" using lock_inode_run [of ip s] ip by simp
  have "txn ?s v L H" using t by simp
  from t_bread [OF this b] room obtain i s1 where 1: "bread ROOTDEV b ?s = Ok i s1" "tstep {} ?s s1" "buf_for s1 i b"
    "txn s1 v L (insert b H)" by blast
  let ?y = "(load_dinode off (v b) x)\<lparr>i_lock := ?k\<rparr>"
  have ic1: "icache s1 = (icache s)[ip := x\<lparr>i_lock := ?k\<rparr>]" using tstep_sb [OF 1(2)] by simp
  let ?s1 = "s1\<lparr>icache := (icache s)[ip := ?y]\<rparr>"
  have set1: "set_inode ip (load_dinode off (v b)) s1 = Ok () ?s1"
    using ip(1) by (simp add: set_inode_def upd_inode_def ic1)
  have u1: "tstep {} (s\<lparr>icache := (icache s)[ip := ?y]\<rparr>) ?s1"
    using tstep_set_icache [OF 1(2), of "(icache s)[ip := ?y]"] by simp
  have "txn (s\<lparr>icache := (icache s)[ip := ?y]\<rparr>) v L H" "txn ?s1 v L (insert b H)" "buf_for ?s1 i b" using t 1 by simp_all
  then obtain s2 where 2: "brelse i ?s1 = Ok () s2" "tstep {} (s\<lparr>icache := (icache s)[ip := ?y]\<rparr>) s2" "txn s2 v L H"
    using t_release [OF _ b(2) u1] by blast
  have ic2: "icache s2 = (icache s)[ip := ?y]" using tstep_sb [OF 2(2)] by simp
  let ?s3 = "s2\<lparr>icache := (icache s)[ip := ?y\<lparr>i_valid := True\<rparr>]\<rparr>"
  have "ilock ip s = Ok () ?s3"
    using ip(1,3-) lock 1(1) set1 2(1) type buf_data_spec [OF txnD(1) [OF 1(4)] 1(3)] txnD(4) [OF 1(4)]
    by (simp add: ilock_def get_inode_def kwhen_apply ip(2) [symmetric] b_def [symmetric] off_def [symmetric] ic2
       set_inode_def upd_inode_def)
  moreover have "fstep {} s ?s3"
    using tstep_set_icache [OF 2(2)] by (simp add: fstep_def)
  ultimately show ?thesis using 2(3) by auto
qed

end
