(* ===== verification/Fs.thy ===== *)
theory Fs
  imports Inode
begin

text \<open>
  The upper layer of \<^verbatim>\<open>src/kernel/fs.c\<close>: reading and writing file contents, directories, path
  names, and the permission change of \<^verbatim>\<open>chperm\<close>. Where the source passes the address of a local
  variable as destination or source of a copy, the model passes the bytes themselves.
\<close>

section \<open>Copies\<close>

datatype dest = UserDst uint64 | KernelDst uint64 | LocalDst
datatype source = UserSrc uint64 | KernelSrc uint64 | LocalSrc bytes

text \<open>\<^verbatim>\<open>either_copyout(user_dst, dst, src, m)\<close> and \<^verbatim>\<open>either_copyin(dst, user_src, src, m)\<close>, and the
  advance \<^verbatim>\<open>dst += m\<close>, \<^verbatim>\<open>src += m\<close>.\<close>

definition copy_to :: "dest \<Rightarrow> bytes \<Rightarrow> ('a fs_state_scheme, int) kmon" where
  "copy_to dst bs =
     (case dst of
        UserDst a \<Rightarrow> either_copyout True a bs
      | KernelDst a \<Rightarrow> either_copyout False a bs
      | LocalDst \<Rightarrow> kret 0)"

definition copy_from :: "source \<Rightarrow> nat \<Rightarrow> ('a fs_state_scheme, int \<times> bytes) kmon" where
  "copy_from src m =
     (case src of
        UserSrc a \<Rightarrow> either_copyin True a m
      | KernelSrc a \<Rightarrow> either_copyin False a m
      | LocalSrc bs \<Rightarrow> kret (0, take m bs))"

definition adv_dest :: "dest \<Rightarrow> nat \<Rightarrow> dest" where
  "adv_dest dst m =
     (case dst of
        UserDst a \<Rightarrow> UserDst (a + of_nat m)
      | KernelDst a \<Rightarrow> KernelDst (a + of_nat m)
      | LocalDst \<Rightarrow> LocalDst)"

definition adv_source :: "source \<Rightarrow> nat \<Rightarrow> source" where
  "adv_source src m =
     (case src of
        UserSrc a \<Rightarrow> UserSrc (a + of_nat m)
      | KernelSrc a \<Rightarrow> KernelSrc (a + of_nat m)
      | LocalSrc bs \<Rightarrow> LocalSrc (drop m bs))"

section \<open>Reading and writing\<close>

text \<open>How many bytes one iteration moves: \<^verbatim>\<open>min(n - tot, BSIZE - off % BSIZE)\<close>, where \<open>rem\<close> is
  \<^verbatim>\<open>n - tot\<close>.\<close>

definition block_chunk :: "nat \<Rightarrow> nat \<Rightarrow> nat" where
  "block_chunk off rem = min rem (BSIZE - off mod BSIZE)"

lemma block_chunk_pos: "0 < rem \<Longrightarrow> 0 < block_chunk off rem"
  by (simp add: block_chunk_def BSIZE_def)

text \<open>The loop of \<^verbatim>\<open>readi\<close>: its result is the number of bytes and the bytes delivered. The
  guards of \<^verbatim>\<open>readi\<close> rule out wrap-around of the counters, which are naturals here.\<close>

function readi_loop :: "nat \<Rightarrow> dest \<Rightarrow> nat \<Rightarrow> nat \<Rightarrow> ('a fs_state_scheme, nat \<times> bytes) kmon" where
  "readi_loop ip dst off rem =
     (if rem = 0 then kret (0, [])
      else
        kbind (get_inode ip) (\<lambda>x.
        kbind (bmap ip (off div BSIZE)) (\<lambda>addr.
        kbind (bread (i_dev x) addr) (\<lambda>bp.
        kbind (buf_data bp) (\<lambda>d.
        let m = block_chunk off rem; bs = get_bytes (off mod BSIZE) m d in
        kbind (copy_to dst bs) (\<lambda>r.
        if r = -1 then kseq (brelse bp) (kret (0, []))
        else
          kseq (brelse bp)
         (kbind (readi_loop ip (adv_dest dst m) (off + m) (rem - m)) (\<lambda>(tot, rest).
          kret (m + tot, bs @ rest)))))))))"
  by pat_completeness auto
termination
  by (relation "measure (\<lambda>(ip, dst, off, rem). rem)") (auto simp: block_chunk_pos)

declare readi_loop.simps [simp del]

definition readi :: "nat \<Rightarrow> dest \<Rightarrow> uint32 \<Rightarrow> uint32 \<Rightarrow> ('a fs_state_scheme, nat \<times> bytes) kmon" where
  "readi ip dst off n =
     kbind (get_inode ip) (\<lambda>x.
     if unat off > i_size x \<or> off + n < off then kret (0, [])
     else readi_loop ip dst (unat off)
       (if unat (off + n) > i_size x then i_size x - unat off else unat n))"

text \<open>The loop of \<^verbatim>\<open>writei\<close>: its result is the final \<^verbatim>\<open>off\<close>. A copy that fails leaves the bytes
  it moved in the buffer.\<close>

function writei_loop :: "nat \<Rightarrow> source \<Rightarrow> nat \<Rightarrow> nat \<Rightarrow> ('a fs_state_scheme, nat) kmon" where
  "writei_loop ip src off rem =
     (if rem = 0 then kret off
      else
        kbind (get_inode ip) (\<lambda>x.
        kbind (bmap ip (off div BSIZE)) (\<lambda>addr.
        kbind (bread (i_dev x) addr) (\<lambda>bp.
        let m = block_chunk off rem in
        kbind (copy_from src m) (\<lambda>(r, bs).
        kbind (buf_data bp) (\<lambda>d.
        kseq (set_data bp (put_bytes (off mod BSIZE) bs d))
        (if r = -1 then kseq (brelse bp) (kret off)
         else
           kseq (log_write bp)
          (kseq (brelse bp)
                (writei_loop ip (adv_source src m) (off + m) (rem - m)))))))))) "
  by pat_completeness auto
termination
  by (relation "measure (\<lambda>(ip, src, off, rem). rem)") (auto simp: block_chunk_pos)

declare writei_loop.simps [simp del]

definition writei :: "nat \<Rightarrow> source \<Rightarrow> uint32 \<Rightarrow> uint32 \<Rightarrow> ('a fs_state_scheme, int) kmon" where
  "writei ip src off n =
     kbind (get_inode ip) (\<lambda>x.
     if unat off > i_size x \<or> off + n < off then kret (-1)
     else if unat (off + n) > MAXFILE * BSIZE then kret (-1)
     else
       kbind (writei_loop ip src (unat off) (unat n)) (\<lambda>off'.
       kseq (kwhen (n > 0)
              (kseq (set_inode ip (\<lambda>x. if off' > i_size x then x\<lparr>i_size := off'\<rparr> else x))
                    (iupdate ip)))
            (kret (int (unat n)))))"

section \<open>Directories\<close>

definition namecmp :: "bytes \<Rightarrow> bytes \<Rightarrow> int" where
  "namecmp s t = strncmp s t DIRSIZ"

definition de_inum :: "bytes \<Rightarrow> nat" where
  "de_inum de = unat (get16 0 de)"

definition de_name :: "bytes \<Rightarrow> bytes" where
  "de_name de = get_bytes 2 DIRSIZ de"

definition dirent_offs :: "nat \<Rightarrow> nat list" where
  "dirent_offs sz = map (\<lambda>k. k * DIRENT_SIZE) [0..<(sz + DIRENT_SIZE - 1) div DIRENT_SIZE]"

primrec dirlookup_loop :: "nat \<Rightarrow> bytes \<Rightarrow> nat list \<Rightarrow> ('a fs_state_scheme, (nat \<times> nat) option) kmon" where
  "dirlookup_loop dp name [] = kret None"
| "dirlookup_loop dp name (off # offs) =
     kbind (readi dp LocalDst (of_nat off) (of_nat DIRENT_SIZE)) (\<lambda>(n, de).
     if n \<noteq> DIRENT_SIZE then kpanic ''dirlookup read''
     else if de_inum de = 0 then dirlookup_loop dp name offs
     else if namecmp name (de_name de) = 0 then
       kbind (get_inode dp) (\<lambda>x.
       kbind (iget (i_dev x) (de_inum de)) (\<lambda>ip.
       kret (Some (ip, off))))
     else dirlookup_loop dp name offs)"

text \<open>The result is the inode and the byte offset of the entry (\<^verbatim>\<open>*poff\<close>).\<close>

definition dirlookup :: "nat \<Rightarrow> bytes \<Rightarrow> ('a fs_state_scheme, (nat \<times> nat) option) kmon" where
  "dirlookup dp name =
     kbind (get_inode dp) (\<lambda>x.
     if i_type x \<noteq> T_DIR then kpanic ''dirlookup not DIR''
     else dirlookup_loop dp name (dirent_offs (i_size x)))"

text \<open>The offset of the first free entry, or the one after the last.\<close>

primrec dirlink_loop :: "nat \<Rightarrow> nat list \<Rightarrow> nat \<Rightarrow> ('a fs_state_scheme, nat) kmon" where
  "dirlink_loop dp [] end_off = kret end_off"
| "dirlink_loop dp (off # offs) end_off =
     kbind (readi dp LocalDst (of_nat off) (of_nat DIRENT_SIZE)) (\<lambda>(n, de).
     if n \<noteq> DIRENT_SIZE then kpanic ''dirlink read''
     else if de_inum de = 0 then kret off
     else dirlink_loop dp offs end_off)"

definition dirent :: "bytes \<Rightarrow> nat \<Rightarrow> bytes" where
  "dirent name inum = put16 0 (of_nat inum) (put_bytes 2 (strncpy name DIRSIZ) (replicate DIRENT_SIZE 0))"

definition dirlink :: "nat \<Rightarrow> bytes \<Rightarrow> nat \<Rightarrow> ('a fs_state_scheme, int) kmon" where
  "dirlink dp name inum =
     kbind (dirlookup dp name) (\<lambda>r.
     case r of
       Some (ip, _) \<Rightarrow> kseq (iput ip) (kret (-1))
     | None \<Rightarrow>
         kbind (get_inode dp) (\<lambda>x.
         kbind (dirlink_loop dp (dirent_offs (i_size x)) (length (dirent_offs (i_size x)) * DIRENT_SIZE)) (\<lambda>off.
         kbind (writei dp (LocalSrc (dirent name inum)) (of_nat off) (of_nat DIRENT_SIZE)) (\<lambda>r.
         if r \<noteq> int DIRENT_SIZE then kpanic ''dirlink'' else kret 0))))"

section \<open>Paths\<close>

definition slash :: uchar where
  "slash = 47"

text \<open>A path is a NUL-terminated array; \<^verbatim>\<open>*path\<close> at its end reads the NUL. \<open>skipelem\<close> returns the
  rest of the path and what it stores in \<^verbatim>\<open>name\<close>: \<open>DIRSIZ\<close> bytes, or the element and its NUL.\<close>

definition path_char :: "uchar \<Rightarrow> bool" where
  "path_char c \<longleftrightarrow> c \<noteq> slash \<and> c \<noteq> 0"

definition skipelem :: "bytes \<Rightarrow> (bytes \<times> bytes) option" where
  "skipelem path =
     (let p = dropWhile (\<lambda>c. c = slash) path in
      if at0 p = 0 then None
      else
        (let s = takeWhile path_char p;
             name = (if length s \<ge> DIRSIZ then take DIRSIZ s else s @ [0]) in
         Some (dropWhile (\<lambda>c. c = slash) (dropWhile path_char p), name)))"

lemma skipelem_shorter: "skipelem path = Some (rest, name) \<Longrightarrow> length rest < length path"
proof -
  assume a: "skipelem path = Some (rest, name)"
  let ?p = "dropWhile (\<lambda>c. c = slash) path"
  have p: "at0 ?p \<noteq> 0" and rest: "rest = dropWhile (\<lambda>c. c = slash) (dropWhile path_char ?p)"
    using a by (auto simp: skipelem_def Let_def split: if_splits)
  obtain c cs where c: "?p = c # cs" using p by (cases ?p) (auto simp: at0_def)
  then have "c \<noteq> slash" using hd_dropWhile [of "\<lambda>c. c = slash" path] by auto
  then have "path_char c" using p c by (simp add: path_char_def at0_def)
  then have "length rest \<le> length cs"
    using c rest by (metis dropWhile.simps(2) length_dropWhile_le order_trans)
  moreover have "length ?p \<le> length path" by (rule length_dropWhile_le)
  ultimately show ?thesis using c by simp
qed

function namex_loop :: "nat \<Rightarrow> bytes \<Rightarrow> bool \<Rightarrow> bytes \<Rightarrow> ('a fs_state_scheme, (nat \<times> bytes) option) kmon" where
  "namex_loop ip path nameiparent name =
     (case skipelem path of
        None \<Rightarrow> if nameiparent then kseq (iput ip) (kret None) else kret (Some (ip, name))
      | Some (path', name') \<Rightarrow>
          kseq (ilock ip)
         (kbind (get_inode ip) (\<lambda>x.
          if i_type x \<noteq> T_DIR then kseq (iunlockput ip) (kret None)
          else if nameiparent \<and> at0 path' = 0 then kseq (iunlock ip) (kret (Some (ip, name')))
          else
            kbind (dirlookup ip name') (\<lambda>r.
            case r of
              None \<Rightarrow> kseq (iunlockput ip) (kret None)
            | Some (nxt, _) \<Rightarrow>
                kseq (iunlockput ip)
                     (namex_loop nxt path' nameiparent name')))))"
  by pat_completeness auto
termination
  by (relation "measure (\<lambda>(ip, path, np, name). length path)") (auto dest: skipelem_shorter)

declare namex_loop.simps [simp del]

definition namex :: "bytes \<Rightarrow> bool \<Rightarrow> ('a fs_state_scheme, (nat \<times> bytes) option) kmon" where
  "namex path nameiparent =
     kbind (if at0 path = slash then iget ROOTDEV ROOTINO
            else
              kbind myproc (\<lambda>p.
              case p_cwd p of
                None \<Rightarrow> kpanic ''kerneltrap''
              | Some cwd \<Rightarrow> idup cwd)) (\<lambda>ip.
     namex_loop ip path nameiparent [])"

definition namei :: "bytes \<Rightarrow> ('a fs_state_scheme, nat option) kmon" where
  "namei path = kbind (namex path False) (\<lambda>r. kret (map_option fst r))"

definition nameiparent :: "bytes \<Rightarrow> ('a fs_state_scheme, (nat \<times> bytes) option) kmon" where
  "nameiparent path = namex path True"

section \<open>Permissions\<close>

text \<open>The path of a directory entry. For an empty \<open>path\<close> the source reads the byte before
  \<^verbatim>\<open>child_path\<close>; the model takes it to differ from a slash.\<close>

definition child_path :: "bytes \<Rightarrow> bytes \<Rightarrow> bytes" where
  "child_path path name =
     (let cp = safestrcpy (replicate MAXPATH 0) path (int MAXPATH);
          len = strlen cp;
          (cp, len) = (if len = 0 \<or> cp ! (len - 1) \<noteq> slash then (cp[len := slash], len + 1) else (cp, len)) in
      take len cp @ safestrcpy (drop len cp) name (int MAXPATH - int len))"

definition set_perm :: "uint32 \<Rightarrow> bool \<Rightarrow> ushort \<Rightarrow> ushort" where
  "set_perm mode is_add perm = (if is_add then perm OR ucast mode else perm AND NOT (ucast mode))"

text \<open>\<open>chperm\<close> calls itself for the entries of a directory, inside its own transaction. The fuel
  bounds the depth of the calls: every level has reserved log space for its transaction, and
  \<^verbatim>\<open>begin_op\<close> sleeps at the fourth.\<close>

primrec chperm :: "nat \<Rightarrow> bytes \<Rightarrow> uint32 \<Rightarrow> bool \<Rightarrow> bool \<Rightarrow> ('a fs_state_scheme, int) kmon" where
  "chperm 0 path mode is_add recursive = kpanic ''out of fuel''"
| "chperm (Suc k) path mode is_add recursive =
     kseq begin_op
    (kbind (namei path) (\<lambda>r.
     case r of
       None \<Rightarrow> kseq end_op (kret (-1))
     | Some ip \<Rightarrow>
         kseq (ilock ip)
        (kseq (set_inode ip (\<lambda>x. x\<lparr>i_perm := set_perm mode is_add (i_perm x)\<rparr>))
        (kseq (iupdate ip)
        (kbind (get_inode ip) (\<lambda>x.
         kseq (kwhen (recursive \<and> i_type x = T_DIR)
                (kfor (dirent_offs (i_size x)) (\<lambda>off.
                 kbind (readi ip LocalDst (of_nat off) (of_nat DIRENT_SIZE)) (\<lambda>(n, de).
                 if n \<noteq> DIRENT_SIZE then kret ()
                 else if de_inum de = 0 \<or> strncmp (de_name de) [46] DIRSIZ = 0 \<or>
                         strncmp (de_name de) [46, 46] DIRSIZ = 0 then kret ()
                 else
                   kseq (iunlock ip)
                  (kbind (chperm k (child_path path (de_name de)) mode is_add recursive) (\<lambda>_.
                   ilock ip))))))
        (kseq (iunlockput ip)
        (kseq end_op
              (kret 0)))))))))"

end
