(* ===== verification/Console.thy ===== *)
theory Console
  imports Fs
begin

text \<open>
  The UART driver \<^verbatim>\<open>src/kernel/uart.c\<close> and the console \<^verbatim>\<open>src/kernel/console.c\<close> above it. The
  device is the part of the state that the driver sees through its registers: the bytes that
  wait in \<^verbatim>\<open>RHR\<close>, the bytes written to \<^verbatim>\<open>THR\<close> so far, and how many more reads of \<^verbatim>\<open>LSR\<close> will
  find the transmitter busy. After each byte the transmitter is busy for \<open>u_busy k\<close> reads, a
  parameter of the device. \<^verbatim>\<open>char\<close> is unsigned on RISC-V.
\<close>

section \<open>State\<close>

definition INPUT_BUF :: nat where [params]: "INPUT_BUF = 128"
definition UART_TX_BUF_SIZE :: nat where [params]: "UART_TX_BUF_SIZE = 32"
definition BACKSPACE :: int where [params]: "BACKSPACE = 0x100"

record uart =
  u_tx_buf :: bytes
  u_tx_w :: nat
  u_tx_r :: nat
  u_rhr :: bytes
  u_sent :: bytes
  u_wait :: nat
  u_busy :: "nat \<Rightarrow> nat"

record console =
  c_buf :: bytes
  c_r :: uint32
  c_w :: uint32
  c_e :: uint32

record cons_state = fs_state +
  uart :: uart
  cons :: console

definition upd_uart :: "(uart \<Rightarrow> uart) \<Rightarrow> ('a cons_state_scheme, unit) kmon" where
  "upd_uart f = kmod (\<lambda>s. s\<lparr>uart := f (uart s)\<rparr>)"

definition upd_cons :: "(console \<Rightarrow> console) \<Rightarrow> ('a cons_state_scheme, unit) kmon" where
  "upd_cons f = kmod (\<lambda>s. s\<lparr>cons := f (cons s)\<rparr>)"

section \<open>The UART\<close>

text \<open>\<^verbatim>\<open>ReadReg(LSR) & LSR_TX_IDLE\<close> and \<^verbatim>\<open>WriteReg(THR, c)\<close>.\<close>

definition tx_idle :: "('a cons_state_scheme, bool) kmon" where
  "tx_idle =
     kbind (kget (\<lambda>s. u_wait (uart s))) (\<lambda>k.
     kseq (upd_uart (\<lambda>u. u\<lparr>u_wait := k - 1\<rparr>))
          (kret (k = 0)))"

definition write_thr :: "uchar \<Rightarrow> ('a cons_state_scheme, unit) kmon" where
  "write_thr c =
     upd_uart (\<lambda>u. u\<lparr>u_sent := u_sent u @ [c], u_wait := u_busy u (length (u_sent u))\<rparr>)"

text \<open>\<^verbatim>\<open>uart_tx_buf[uart_tx_w] = c; uart_tx_w = (uart_tx_w + 1) % UART_TX_BUF_SIZE\<close>, and the two
  statements of \<^verbatim>\<open>uartstart\<close> that take a byte out.\<close>

definition uart_put :: "uchar \<Rightarrow> uart \<Rightarrow> uart" where
  "uart_put c u = u\<lparr>u_tx_buf := (u_tx_buf u)[u_tx_w u := c], u_tx_w := (u_tx_w u + 1) mod UART_TX_BUF_SIZE\<rparr>"

definition uart_front :: "uart \<Rightarrow> uchar" where
  "uart_front u = u_tx_buf u ! u_tx_r u"

definition uart_drop :: "uart \<Rightarrow> uart" where
  "uart_drop u = u\<lparr>u_tx_r := (u_tx_r u + 1) mod UART_TX_BUF_SIZE\<rparr>"

text \<open>\<^verbatim>\<open>uartstart\<close> sends at most the bytes of the transmit buffer, fewer than
  \<open>UART_TX_BUF_SIZE\<close>; the counter bounds its loop.\<close>

primrec uartstart_loop :: "nat \<Rightarrow> ('a cons_state_scheme, unit) kmon" where
  "uartstart_loop 0 = kret ()"
| "uartstart_loop (Suc k) =
     kbind (kget uart) (\<lambda>u.
     if u_tx_w u = u_tx_r u then kret ()
     else
       kbind tx_idle (\<lambda>idle.
       if \<not> idle then kret ()
       else
         kseq (upd_uart uart_drop)
        (kseq (wakeup ChanUart)
        (kseq (write_thr (uart_front u))
              (uartstart_loop k)))))"

definition uartstart :: "('a cons_state_scheme, unit) kmon" where
  "uartstart = uartstart_loop UART_TX_BUF_SIZE"

definition uartputc :: "uchar \<Rightarrow> ('a cons_state_scheme, unit) kmon" where
  "uartputc c =
     kbind (kget uart) (\<lambda>u.
     if (u_tx_w u + 1) mod UART_TX_BUF_SIZE = u_tx_r u then sleep ChanUart
     else
       kseq (upd_uart (uart_put c))
            uartstart)"

text \<open>\<^verbatim>\<open>while ((ReadReg(LSR) & LSR_TX_IDLE) == 0) ;\<close> reads the register once more than the
  transmitter is busy.\<close>

primrec spin_tx :: "nat \<Rightarrow> ('a cons_state_scheme, unit) kmon" where
  "spin_tx 0 = kseq tx_idle (kret ())"
| "spin_tx (Suc k) = kseq tx_idle (spin_tx k)"

definition uartputc_sync :: "uchar \<Rightarrow> ('a cons_state_scheme, unit) kmon" where
  "uartputc_sync c =
     kbind (kget (\<lambda>s. u_wait (uart s))) (\<lambda>k.
     kseq (spin_tx k)
          (write_thr c))"

definition uartgetc :: "('a cons_state_scheme, int) kmon" where
  "uartgetc =
     kbind (kget (\<lambda>s. u_rhr (uart s))) (\<lambda>q.
     case q of
       [] \<Rightarrow> kret (-1)
     | c # cs \<Rightarrow> kseq (upd_uart (\<lambda>u. u\<lparr>u_rhr := cs\<rparr>)) (kret (uint c)))"

section \<open>The console\<close>

definition consputc :: "int \<Rightarrow> ('a cons_state_scheme, unit) kmon" where
  "consputc c =
     (if c = BACKSPACE then
        kseq (uartputc_sync 8)
       (kseq (uartputc_sync 32)
             (uartputc_sync 8))
      else uartputc_sync (word_of_int c))"

text \<open>\<^verbatim>\<open>cons.buf[cons.e++ % INPUT_BUF] = c\<close> and \<^verbatim>\<open>c = cons.buf[cons.r++ % INPUT_BUF]\<close>.\<close>

definition cons_put :: "uchar \<Rightarrow> console \<Rightarrow> console" where
  "cons_put c q = q\<lparr>c_buf := (c_buf q)[unat (c_e q) mod INPUT_BUF := c], c_e := c_e q + 1\<rparr>"

definition cons_front :: "console \<Rightarrow> uchar" where
  "cons_front q = c_buf q ! (unat (c_r q) mod INPUT_BUF)"

definition cons_drop :: "console \<Rightarrow> console" where
  "cons_drop q = q\<lparr>c_r := c_r q + 1\<rparr>"

primrec consolewrite_loop :: "bool \<Rightarrow> uint64 \<Rightarrow> nat \<Rightarrow> nat \<Rightarrow> ('a cons_state_scheme, int) kmon" where
  "consolewrite_loop user_src src i 0 = kret (int i)"
| "consolewrite_loop user_src src i (Suc k) =
     kbind (either_copyin user_src (src + of_nat i) 1) (\<lambda>(r, bs).
     if r = -1 then kret (int i)
     else
       kseq (uartputc (hd bs))
            (consolewrite_loop user_src src (Suc i) k))"

definition consolewrite :: "bool \<Rightarrow> uint64 \<Rightarrow> int \<Rightarrow> ('a cons_state_scheme, int) kmon" where
  "consolewrite user_src src n = consolewrite_loop user_src src 0 (nat n)"

text \<open>\<open>k\<close> is the source's \<^verbatim>\<open>n\<close>, the number of bytes still wanted; the result is the value of
  \<^verbatim>\<open>n\<close> at the end of the loop, or \<open>None\<close> for the return of a killed process.\<close>

primrec consoleread_loop :: "bool \<Rightarrow> uint64 \<Rightarrow> nat \<Rightarrow> nat \<Rightarrow> ('a cons_state_scheme, nat option) kmon" where
  "consoleread_loop user_dst dst target 0 = kret (Some 0)"
| "consoleread_loop user_dst dst target (Suc k) =
     kbind (kget cons) (\<lambda>q.
     if c_r q = c_w q then
       kbind myproc (\<lambda>p. if p_killed p then kret None else sleep ChanCons)
     else
       (let c = cons_front q in
        kseq (upd_cons cons_drop)
        (if c = 4 then
           kseq (kwhen (Suc k < target) (upd_cons (\<lambda>q. q\<lparr>c_r := c_r q - 1\<rparr>)))
                (kret (Some (Suc k)))
         else
           kbind (either_copyout user_dst dst [c]) (\<lambda>r.
           if r = -1 then kret (Some (Suc k))
           else if c = 10 then kret (Some k)
           else consoleread_loop user_dst (dst + 1) target k))))"

definition consoleread :: "bool \<Rightarrow> uint64 \<Rightarrow> int \<Rightarrow> ('a cons_state_scheme, int) kmon" where
  "consoleread user_dst dst n =
     kbind (consoleread_loop user_dst dst (nat n) (nat n)) (\<lambda>r.
     case r of
       None \<Rightarrow> kret (-1)
     | Some k \<Rightarrow> kret (int (nat n) - int k))"

text \<open>The loop of control-U: it removes at most the bytes between \<^verbatim>\<open>cons.w\<close> and \<^verbatim>\<open>cons.e\<close>, whose
  number is the counter.\<close>

primrec kill_line :: "nat \<Rightarrow> ('a cons_state_scheme, unit) kmon" where
  "kill_line 0 = kret ()"
| "kill_line (Suc k) =
     kbind (kget cons) (\<lambda>q.
     if c_e q \<noteq> c_w q \<and> c_buf q ! (unat (c_e q - 1) mod INPUT_BUF) \<noteq> 10 then
       kseq (upd_cons (\<lambda>q. q\<lparr>c_e := c_e q - 1\<rparr>))
      (kseq (consputc BACKSPACE)
            (kill_line k))
     else kret ())"

text \<open>Control-P only prints (\<^verbatim>\<open>procdump\<close>).\<close>

definition consoleintr :: "int \<Rightarrow> ('a cons_state_scheme, unit) kmon" where
  "consoleintr c =
     kbind (kget cons) (\<lambda>q.
     if c = 16 then kret ()
     else if c = 21 then kill_line (unat (c_e q - c_w q))
     else if c = 8 \<or> c = 0x7f then
       kwhen (c_e q \<noteq> c_w q)
         (kseq (upd_cons (\<lambda>q. q\<lparr>c_e := c_e q - 1\<rparr>))
               (consputc BACKSPACE))
     else
       kwhen (c \<noteq> 0 \<and> unat (c_e q - c_r q) < INPUT_BUF)
         (let c = (if c = 13 then 10 else c) in
          kseq (consputc c)
         (kseq (upd_cons (cons_put (word_of_int c)))
         (kbind (kget cons) (\<lambda>q.
          kwhen (c = 10 \<or> c = 4 \<or> c_e q = c_r q + of_nat INPUT_BUF)
            (kseq (upd_cons (\<lambda>q. q\<lparr>c_w := c_e q\<rparr>))
                  (wakeup ChanCons)))))))"

text \<open>The loop of \<^verbatim>\<open>uartintr\<close> handles the bytes that wait in the device.\<close>

primrec uartintr_loop :: "nat \<Rightarrow> ('a cons_state_scheme, unit) kmon" where
  "uartintr_loop 0 = kret ()"
| "uartintr_loop (Suc k) =
     kbind uartgetc (\<lambda>c.
     if c = -1 then kret ()
     else
       kseq (consoleintr c)
            (uartintr_loop k))"

definition uartintr :: "('a cons_state_scheme, unit) kmon" where
  "uartintr =
     kbind (kget (\<lambda>s. length (u_rhr (uart s)))) (\<lambda>k.
     kseq (uartintr_loop (Suc k))
          uartstart)"

end
