(* ===== verification/Ring.thy ===== *)
theory Ring
  imports Prelude
begin

text \<open>
  Circular buffers: the list that an array, the index of its first element and a count stand for, the
  contract that the clients of such a buffer rely on, and what follows from it for every sequence
  of operations. The buffer of a pipe and the transmit buffer of the UART meet it.
\<close>

section \<open>Arrays as rings\<close>

definition ring_list :: "nat \<Rightarrow> 'a list \<Rightarrow> nat \<Rightarrow> nat \<Rightarrow> 'a list" where
  "ring_list n d r k = map (\<lambda>i. d ! ((r + i) mod n)) [0..<k]"

lemma length_ring_list [simp]: "length (ring_list n d r k) = k"
  by (simp add: ring_list_def)

lemma ring_list_put:
  assumes "length d = n" and "k < n"
  shows "ring_list n (d[(r + k) mod n := x]) r (Suc k) = ring_list n d r k @ [x]"
proof -
  have "(r + i) mod n \<noteq> (r + k) mod n" if "i < k" for i
  proof
    assume "(r + i) mod n = (r + k) mod n"
    then have "n dvd (r + k) - (r + i)" by (metis mod_eq_dvd_iff_nat nat_add_left_cancel_le less_imp_le that)
    then show False using that assms(2) by (simp add: nat_dvd_not_less)
  qed
  then have "d[(r + k) mod n := x] ! ((r + i) mod n) = d ! ((r + i) mod n)" if "i < k" for i
    using that by (metis nth_list_update_neq)
  then show ?thesis using assms by (simp add: ring_list_def)
qed

lemma ring_list_drop: "ring_list n d (Suc r) k = tl (ring_list n d r (Suc k))"
  by (simp add: ring_list_def upt_conv_Cons del: upt_Suc flip: map_Suc_upt)

lemma ring_list_hd: "hd (ring_list n d r (Suc k)) = d ! (r mod n)"
  by (simp add: ring_list_def upt_conv_Cons del: upt_Suc)

lemma ring_list_mod: "ring_list n d (r mod n) k = ring_list n d r k"
  by (simp add: ring_list_def mod_add_left_eq)

section \<open>The contract\<close>

datatype 'e ring_op = Put 'e | Take

text \<open>A producer that gives up when the buffer is full and a consumer that gives up when it is empty:
  the elements accepted, the elements delivered, and the buffer at the end.\<close>

fun ring_run :: "nat \<Rightarrow> ('s \<Rightarrow> nat) \<Rightarrow> ('e \<Rightarrow> 's \<Rightarrow> 's) \<Rightarrow> ('s \<Rightarrow> 'e) \<Rightarrow> ('s \<Rightarrow> 's) \<Rightarrow> 'e ring_op list \<Rightarrow> 's \<Rightarrow> 'e list \<times> 'e list \<times> 's" where
  "ring_run cap len put front rest [] s = ([], [], s)"
| "ring_run cap len put front rest (Put e # ops) s =
     (if len s < cap then (let (i, out, s') = ring_run cap len put front rest ops (put e s) in (e # i, out, s'))
      else ring_run cap len put front rest ops s)"
| "ring_run cap len put front rest (Take # ops) s =
     (if 0 < len s then (let (i, out, s') = ring_run cap len put front rest ops (rest s) in (i, front s # out, s'))
      else ring_run cap len put front rest ops s)"

locale ring_buffer =
  fixes cap :: nat
    and ok :: "'s \<Rightarrow> bool"
    and queue :: "'s \<Rightarrow> 'e list"
    and put :: "'e \<Rightarrow> 's \<Rightarrow> 's"
    and front :: "'s \<Rightarrow> 'e"
    and rest :: "'s \<Rightarrow> 's"
  assumes bound: "ok s \<Longrightarrow> length (queue s) \<le> cap"
    and put_ok: "ok s \<Longrightarrow> length (queue s) < cap \<Longrightarrow> ok (put e s)"
    and put_queue: "ok s \<Longrightarrow> length (queue s) < cap \<Longrightarrow> queue (put e s) = queue s @ [e]"
    and rest_ok: "ok s \<Longrightarrow> queue s \<noteq> [] \<Longrightarrow> ok (rest s)"
    and rest_queue: "ok s \<Longrightarrow> queue s \<noteq> [] \<Longrightarrow> queue (rest s) = tl (queue s)"
    and front_queue: "ok s \<Longrightarrow> queue s \<noteq> [] \<Longrightarrow> front s = hd (queue s)"
begin

text \<open>First in, first out: what was in the buffer and what was accepted is what was delivered and what
  is left, in order.\<close>

lemma fifo:
  assumes "ok s" and "ring_run cap (\<lambda>s. length (queue s)) put front rest ops s = (i, out, s')"
  shows "ok s' \<and> queue s @ i = out @ queue s'"
  using assms
proof (induction ops arbitrary: s i out)
  case (Cons op ops)
  show ?case
  proof (cases op)
    case (Put e)
    show ?thesis
    proof (cases "length (queue s) < cap")
      case True
      then obtain j where "ring_run cap (\<lambda>s. length (queue s)) put front rest ops (put e s) = (j, out, s')" "i = e # j"
        using Cons.prems(2) Put by (auto split: prod.splits)
      then show ?thesis using Cons.IH [OF put_ok [OF Cons.prems(1) True]] put_queue [OF Cons.prems(1) True] by auto
    next
      case False
      then show ?thesis using Cons.IH [OF Cons.prems(1)] Cons.prems(2) Put by simp
    qed
  next
    case Take
    show ?thesis
    proof (cases "queue s = []")
      case False
      then obtain o' where "ring_run cap (\<lambda>s. length (queue s)) put front rest ops (rest s) = (i, o', s')" "out = front s # o'"
        using Cons.prems(2) Take by (auto split: prod.splits)
      then have "ok s' \<and> tl (queue s) @ i = o' @ queue s'" "out = hd (queue s) # o'"
        using Cons.IH [OF rest_ok [OF Cons.prems(1) False]] rest_queue [OF Cons.prems(1) False] front_queue [OF Cons.prems(1) False] by auto
      then show ?thesis using False by (cases "queue s") auto
    next
      case True
      then show ?thesis using Cons.IH [OF Cons.prems(1)] Cons.prems(2) Take by simp
    qed
  qed
qed simp

text \<open>Taking several.\<close>

lemma rest_all:
  assumes "ok s" and "k \<le> length (queue s)"
  shows "ok ((rest ^^ k) s) \<and> queue ((rest ^^ k) s) = drop k (queue s)"
  using assms
proof (induction k)
  case (Suc k)
  then have "ok ((rest ^^ k) s)" "queue ((rest ^^ k) s) = drop k (queue s)" "drop k (queue s) \<noteq> []" by auto
  then show ?case using rest_ok rest_queue by (simp add: drop_Suc tl_drop)
qed simp

text \<open>Putting a whole list.\<close>

lemma put_all:
  assumes "ok s" and "length (queue s) + length xs \<le> cap"
  shows "ok (fold put xs s) \<and> queue (fold put xs s) = queue s @ xs"
  using assms
proof (induction xs arbitrary: s)
  case (Cons x xs)
  then have "length (queue s) < cap" by simp
  then show ?case
    using Cons.IH [of "put x s"] Cons.prems put_ok [OF Cons.prems(1)] put_queue [OF Cons.prems(1)] by simp
qed simp

end

lemma ring_list_Suc_word:
  assumes "n dvd 2 ^ LENGTH('a :: len)"
  shows "ring_list n d (unat (r + 1 :: 'a word)) k = ring_list n d (Suc (unat r)) k"
  using ring_list_mod [of n d "unat (r + 1)" k] ring_list_mod [of n d "Suc (unat r)" k] unat_add_mod [OF assms, of r 1] by simp

end
