(* ===== verification/Vm_Spec.thy ===== *)
theory Vm_Spec
  imports Vm
begin

text \<open>
  What the walks and copies of \<^verbatim>\<open>src/kernel/vm.c\<close> compute, as functions of the contents of memory.
\<close>

unbundle bit_operations_syntax

section \<open>Address translation as a function of memory\<close>

text \<open>Without \<^verbatim>\<open>alloc\<close> a walk only reads: \<open>walk_ro\<close> is the address of the entry (0 if a table is
  missing), \<open>walkaddr_ro\<close> the physical page of a user address (0 if it has none).\<close>

primrec walk_ro :: "nat \<Rightarrow> (uint64 \<Rightarrow> uchar) \<Rightarrow> uint64 \<Rightarrow> uint64 \<Rightarrow> uint64" where
  "walk_ro 0 m pt va = pt + 8 * PX 0 va"
| "walk_ro (Suc l) m pt va =
     (let v = ld64 (pt + 8 * PX (Suc l) va) m in
      if v AND PTE_V \<noteq> 0 then walk_ro l m (PTE2PA v) va else 0)"

definition walkaddr_ro :: "(uint64 \<Rightarrow> uchar) \<Rightarrow> uint64 \<Rightarrow> uint64 \<Rightarrow> uint64" where
  "walkaddr_ro m pt va =
     (if va \<ge> MAXVA then 0
      else
        let pte = walk_ro 2 m pt va in
        if pte = 0 \<or> ld64 pte m AND PTE_V = 0 \<or> ld64 pte m AND PTE_U = 0 then 0
        else PTE2PA (ld64 pte m))"

lemma walk_loop_ro: "walk_loop l pt va False s = Ok (walk_ro l (mem s) pt va) s"
  by (induction l arbitrary: pt) (simp_all add: Let_def)

lemma walkaddr_run: "walkaddr pt va s = Ok (walkaddr_ro (mem s) pt va) s"
proof (cases "va \<ge> MAXVA")
  case False
  then have "walk pt va False s = Ok (walk_ro 2 (mem s) pt va) s" by (simp add: walk_def walk_loop_ro)
  then show ?thesis using False by (simp add: walkaddr_def walkaddr_ro_def Let_def)
qed (simp add: walkaddr_def walkaddr_ro_def)

lemma copyin_reads: "mem s' = mem s \<Longrightarrow> \<exists>r. copyin pt va n s = Ok r s \<and> copyin pt va n s' = Ok r s'"
proof (induction pt va n rule: copyin.induct)
  case (1 pt va n)
  let ?p = "walkaddr_ro (mem s) pt (PGROUNDDOWN va)"
  show ?case
  proof (cases "n = 0 \<or> ?p = 0")
    case True
    then show ?thesis using 1(2) by (auto simp: copyin.simps [of pt va n] Let_def walkaddr_run)
  next
    case False
    then obtain r where "copyin pt (PGROUNDDOWN va + 4096) (n - page_chunk va n) s = Ok r s"
      "copyin pt (PGROUNDDOWN va + 4096) (n - page_chunk va n) s' = Ok r s'"
      using 1 by metis
    then show ?thesis
      using False 1(2) by (simp add: copyin.simps [of pt va n] Let_def walkaddr_run split: prod.split)
  qed
qed

section \<open>Page arithmetic\<close>

lemma unat64: "unat (a :: uint64) < 2 ^ 64"
  using unsigned_less [of a, where ?'a = nat] by simp

lemma unat_PGROUNDDOWN: "unat (PGROUNDDOWN va) = unat va div 4096 * 4096"
proof -
  have "push_bit 12 (drop_bit 12 va) = va div 4096 * 4096"
    by (simp add: push_bit_eq_mult drop_bit_eq_div)
  moreover have "unat va div 4096 * 4096 < 2 ^ 64"
    using unat64 [of va] div_times_less_eq_dividend [of "unat va" 4096] by linarith
  ultimately show ?thesis by (simp add: PGROUNDDOWN_eq unat_word_ariths unat_div)
qed

lemma unat_pgoff: "unat (va - PGROUNDDOWN va) = unat va mod 4096"
proof -
  have "PGROUNDDOWN va \<le> va" by (simp add: word_le_nat_alt unat_PGROUNDDOWN)
  then show ?thesis by (simp add: unat_sub unat_PGROUNDDOWN minus_div_mult_eq_mod)
qed

lemma unat_page_add:
  assumes "unat va mod 4096 + i < 4096"
  shows "unat (va + of_nat i :: uint64) = unat va + i"
proof -
  have "unat va div 4096 < 4503599627370496" using unat64 [of va] by (simp add: div_less_iff_less_mult)
  then have "unat va + i < 18446744073709551616"
    using assms div_mult_mod_eq [of "unat va" 4096] by linarith
  moreover from this have "unat (of_nat i :: uint64) = i" by (intro unat_of_nat_small) simp
  ultimately show ?thesis using unat_add_lem [of va "of_nat i"] by simp
qed

lemma page_add:
  assumes "unat va mod 4096 + i < 4096"
  shows "PGROUNDDOWN (va + of_nat i) = PGROUNDDOWN va" and "va + of_nat i - PGROUNDDOWN (va + of_nat i) = (va - PGROUNDDOWN va) + of_nat i"
proof -
  have "unat va = 4096 * (unat va div 4096) + unat va mod 4096" by simp
  then have "4096 * (unat va div 4096) \<le> unat va + i" "unat va + i < 4096 * Suc (unat va div 4096)"
    using assms unfolding mult_Suc_right by linarith+
  then have "(unat va + i) div 4096 = unat va div 4096" by (rule div_nat_eqI)
  then show e: "PGROUNDDOWN (va + of_nat i) = PGROUNDDOWN va"
    using unat_page_add [OF assms] by (intro unat_eqI) (simp add: unat_PGROUNDDOWN)
  show "va + of_nat i - PGROUNDDOWN (va + of_nat i) = (va - PGROUNDDOWN va) + of_nat i" unfolding e by simp
qed

lemma page_chunk_nat: "page_chunk va n = min (4096 - unat va mod 4096) n"
  by (simp add: page_chunk_def unat_pgoff PGSIZE_def)

lemma next_page:
  assumes "page_chunk va n < n"
  shows "PGROUNDDOWN va + 4096 = va + of_nat (page_chunk va n)"
proof -
  have c: "page_chunk va n = 4096 - unat va mod 4096" using assms by (simp add: page_chunk_nat)
  have "unat va mod 4096 < 4096" by simp
  then have "(of_nat (unat va mod 4096 + (4096 - unat va mod 4096)) :: uint64) = 4096" by (simp del: of_nat_add)
  then have "(of_nat (unat va mod 4096) :: uint64) + of_nat (4096 - unat va mod 4096) = 4096" by (simp only: of_nat_add)
  moreover have "va = PGROUNDDOWN va + of_nat (unat va mod 4096)"
    by (metis add.commute diff_add_cancel of_nat_unat ucast_id unat_pgoff)
  ultimately show ?thesis unfolding c by (metis add.assoc)
qed

section \<open>Copies\<close>

text \<open>The physical address of a user byte.\<close>

definition upa :: "(uint64 \<Rightarrow> uchar) \<Rightarrow> uint64 \<Rightarrow> uint64 \<Rightarrow> uint64 option" where
  "upa m pt va =
     (let pa0 = walkaddr_ro m pt (PGROUNDDOWN va) in
      if pa0 = 0 then None else Some (pa0 + (va - PGROUNDDOWN va)))"

lemma upa_page:
  assumes "unat va mod 4096 + i < 4096" and "upa m pt va = Some a"
  shows "upa m pt (va + of_nat i) = Some (a + of_nat i)"
  using assms(2) page_add [OF assms(1)] by (auto simp: upa_def Let_def split: if_splits)

lemma copyin_spec:
  assumes "\<And>i. i < n \<Longrightarrow> upa (mem s) pt (va + of_nat i) \<noteq> None"
  shows "copyin pt va n s = Ok (0, map (\<lambda>i. mem s (the (upa (mem s) pt (va + of_nat i)))) [0..<n]) s"
  using assms
proof (induction pt va n rule: copyin.induct)
  case (1 pt va n)
  show ?case
  proof (cases "n = 0")
    case True
    then show ?thesis by (simp add: copyin.simps)
  next
    case False
    let ?c = "page_chunk va n"
    have c: "?c \<le> n" "unat va mod 4096 + ?c \<le> 4096" "0 < ?c" using False by (auto simp: page_chunk_nat)
    obtain a where a: "upa (mem s) pt va = Some a" using 1(2) [of 0] False by auto
    let ?pa0 = "walkaddr_ro (mem s) pt (PGROUNDDOWN va)"
    have pa0: "?pa0 \<noteq> 0" "a = ?pa0 + (va - PGROUNDDOWN va)" using a by (auto simp: upa_def Let_def split: if_splits)
    have first: "load_bytes a ?c (mem s) = map (\<lambda>i. mem s (the (upa (mem s) pt (va + of_nat i)))) [0..<?c]"
      unfolding load_bytes_def using upa_page [OF _ a] c by auto
    have rest: "copyin pt (PGROUNDDOWN va + 4096) (n - ?c) s =
       Ok (0, map (\<lambda>i. mem s (the (upa (mem s) pt (va + of_nat (?c + i))))) [0..<n - ?c]) s"
    proof (cases "?c < n")
      case True
      have e: "PGROUNDDOWN va + 4096 + of_nat i = va + of_nat (?c + i)" for i using next_page [OF True] by (simp add: algebra_simps)
      have "upa (mem s) pt (PGROUNDDOWN va + 4096 + of_nat i) \<noteq> None" if "i < n - ?c" for i
        unfolding e using 1(2) [of "?c + i"] that by auto
      then show ?thesis using 1(1) [OF False refl] pa0(1) unfolding e by simp
    next
      case F: False
      then show ?thesis using c by (simp add: copyin.simps)
    qed
    note split = map_upt_split [OF c(1)]
    show ?thesis
      unfolding split using False first rest pa0 by (simp add: copyin.simps [of pt va n] Let_def walkaddr_run)
  qed
qed

section \<open>Copies out\<close>

text \<open>The addresses a walk reads.\<close>

definition word_bytes :: "uint64 \<Rightarrow> uint64 set" where
  "word_bytes a = (\<lambda>i. a + of_nat i) ` {..<8}"

primrec walk_bytes :: "nat \<Rightarrow> (uint64 \<Rightarrow> uchar) \<Rightarrow> uint64 \<Rightarrow> uint64 \<Rightarrow> uint64 set" where
  "walk_bytes 0 m pt va = word_bytes (pt + 8 * PX 0 va)"
| "walk_bytes (Suc l) m pt va =
     (let v = ld64 (pt + 8 * PX (Suc l) va) m in
      word_bytes (pt + 8 * PX (Suc l) va) \<union> (if v AND PTE_V \<noteq> 0 then walk_bytes l m (PTE2PA v) va else {}))"

lemma ld64_cong: "(\<And>x. x \<in> word_bytes a \<Longrightarrow> m' x = m x) \<Longrightarrow> ld64 a m' = ld64 a m"
  unfolding ld64_def load_bytes_def word_bytes_def by (rule arg_cong [where f = le_word]) auto

lemma walk_ro_cong:
  assumes "\<And>x. x \<in> walk_bytes l m pt va \<Longrightarrow> m' x = m x"
  shows "walk_ro l m' pt va = walk_ro l m pt va \<and> walk_bytes l m' pt va = walk_bytes l m pt va \<and>
    (walk_ro l m pt va \<noteq> 0 \<longrightarrow> ld64 (walk_ro l m pt va) m' = ld64 (walk_ro l m pt va) m)"
  using assms
proof (induction l arbitrary: pt)
  case 0
  then show ?case using ld64_cong [of "pt + 8 * PX 0 va" m' m] by simp
next
  case (Suc l)
  then have "ld64 (pt + 8 * PX (Suc l) va) m' = ld64 (pt + 8 * PX (Suc l) va) m"
    by (intro ld64_cong) (auto simp: Let_def)
  then show ?case using Suc.IH [of "PTE2PA (ld64 (pt + 8 * PX (Suc l) va) m)"] Suc.prems by (simp add: Let_def)
qed

lemma walkaddr_ro_cong:
  assumes "\<And>x. x \<in> walk_bytes 2 m pt va \<Longrightarrow> m' x = m x"
  shows "walkaddr_ro m' pt va = walkaddr_ro m pt va"
  using walk_ro_cong [of 2 m pt va m', OF assms] by (cases "walk_ro 2 m pt va = 0") (simp_all add: walkaddr_ro_def Let_def)

lemma upa_cong:
  assumes "\<And>x. x \<in> walk_bytes 2 m pt (PGROUNDDOWN va) \<Longrightarrow> m' x = m x"
  shows "upa m' pt va = upa m pt va"
  using walkaddr_ro_cong [OF assms] by (simp add: upa_def)

text \<open>A range of \<open>n\<close> user bytes that a copy can fill: every address is mapped, distinct addresses to distinct
  bytes, and none of them is part of the page tables that translate the range.\<close>

definition user_range :: "(uint64 \<Rightarrow> uchar) \<Rightarrow> uint64 \<Rightarrow> uint64 \<Rightarrow> nat \<Rightarrow> bool" where
  "user_range m pt va n \<longleftrightarrow>
     (\<forall>i<n. upa m pt (va + of_nat i) \<noteq> None) \<and>
     (\<forall>i<n. \<forall>j<n. upa m pt (va + of_nat i) = upa m pt (va + of_nat j) \<longrightarrow> i = j) \<and>
     (\<forall>i<n. \<forall>j<n. the (upa m pt (va + of_nat i)) \<notin> walk_bytes 2 m pt (PGROUNDDOWN (va + of_nat j)))"

text \<open>Memory after the bytes are stored at their user addresses.\<close>

definition user_store :: "(uint64 \<Rightarrow> uchar) \<Rightarrow> uint64 \<Rightarrow> uint64 \<Rightarrow> bytes \<Rightarrow> (uint64 \<Rightarrow> uchar)" where
  "user_store m pt va bs = fold (\<lambda>i m'. m'(the (upa m pt (va + of_nat i)) := bs ! i)) [0..<length bs] m"

lemma fold_upd_other:
  "(\<And>i. i \<in> set is \<Longrightarrow> f i \<noteq> x) \<Longrightarrow> fold (\<lambda>i m'. m'(f i := g i)) is m x = m x"
  by (induction "is" arbitrary: m) auto

lemma fold_upd_nth:
  assumes "i \<in> set is" and "inj_on f (set is)"
  shows "fold (\<lambda>i m'. m'(f i := g i)) is m (f i) = g i"
  using assms
proof (induction "is" rule: rev_induct)
  case (snoc j js)
  then show ?case by (cases "i = j") (auto simp: inj_on_def)
qed simp

lemma user_rangeD:
  assumes "user_range m pt va n"
  shows "i < n \<Longrightarrow> upa m pt (va + of_nat i) \<noteq> None"
    and "i < n \<Longrightarrow> j < n \<Longrightarrow> upa m pt (va + of_nat i) = upa m pt (va + of_nat j) \<Longrightarrow> i = j"
    and "i < n \<Longrightarrow> j < n \<Longrightarrow> the (upa m pt (va + of_nat i)) \<notin> walk_bytes 2 m pt (PGROUNDDOWN (va + of_nat j))"
  using assms unfolding user_range_def by blast+

lemma user_range_inj:
  assumes "user_range m pt va n"
  shows "inj_on (\<lambda>i. the (upa m pt (va + of_nat i))) (set [0..<n])"
proof (rule inj_onI)
  fix i j assume ij: "i \<in> set [0..<n]" "j \<in> set [0..<n]" and "the (upa m pt (va + of_nat i)) = the (upa m pt (va + of_nat j))"
  then have "upa m pt (va + of_nat i) = upa m pt (va + of_nat j)"
    using user_rangeD(1) [OF assms, of i] user_rangeD(1) [OF assms, of j] by auto
  then show "i = j" using user_rangeD(2) [OF assms] ij by simp
qed

lemma user_store_other:
  "(\<And>i. i < length bs \<Longrightarrow> the (upa m pt (va + of_nat i)) \<noteq> x) \<Longrightarrow> user_store m pt va bs x = m x"
  unfolding user_store_def by (rule fold_upd_other) auto

lemma user_store_at:
  "user_range m pt va (length bs) \<Longrightarrow> i < length bs \<Longrightarrow>
     user_store m pt va bs (the (upa m pt (va + of_nat i))) = bs ! i"
  unfolding user_store_def using fold_upd_nth [OF _ user_range_inj, of i] by simp

lemma user_store_upa:
  assumes "user_range m pt va (length bs)" and "i < length bs"
  shows "upa (user_store m pt va bs) pt (va + of_nat i) = upa m pt (va + of_nat i)"
  by (rule upa_cong, rule user_store_other) (use user_rangeD(3) [OF assms(1) _ assms(2)] in blast)

text \<open>Storing a list piecewise.\<close>

lemma user_store_append:
  assumes "user_range m pt va (length (bs @ cs))"
  shows "user_store m pt va (bs @ cs) = user_store (user_store m pt va bs) pt (va + of_nat (length bs)) cs"
proof -
  let ?m = "user_store m pt va bs"
  have u: "upa ?m pt (va + of_nat (length bs) + of_nat i) = upa m pt (va + of_nat (length bs + i))" if "i < length cs" for i
  proof -
    have e: "va + of_nat (length bs) + of_nat i = va + of_nat (length bs + i)" by (simp add: algebra_simps)
    show ?thesis
      unfolding e
      by (rule upa_cong, rule user_store_other)
        (use user_rangeD(3) [OF assms, of _ "length bs + i"] that in force)
  qed
  have "[0..<length (bs @ cs)] = [0..<length bs] @ map (\<lambda>i. length bs + i) [0..<length cs]"
    using map_upt_split [of "length bs" "length (bs @ cs)" "\<lambda>i. i"] by simp
  then have "user_store m pt va (bs @ cs) =
      fold (\<lambda>i m'. m'(the (upa m pt (va + of_nat (length bs + i))) := cs ! i)) [0..<length cs]
       (fold (\<lambda>i m'. m'(the (upa m pt (va + of_nat i)) := (bs @ cs) ! i)) [0..<length bs] m)"
    by (simp add: user_store_def fold_map comp_def)
  also have "fold (\<lambda>i m'. m'(the (upa m pt (va + of_nat i)) := (bs @ cs) ! i)) [0..<length bs] m = ?m"
    unfolding user_store_def by (rule fold_cong) (auto simp: nth_append)
  also have "fold (\<lambda>i m'. m'(the (upa m pt (va + of_nat (length bs + i))) := cs ! i)) [0..<length cs] ?m = user_store ?m pt (va + of_nat (length bs)) cs"
    unfolding user_store_def [of ?m] by (rule fold_cong) (use u in auto)
  finally show ?thesis .
qed

lemma user_range_after:
  assumes "user_range m pt va (length (bs @ cs))"
  shows "user_range (user_store m pt va bs) pt (va + of_nat (length bs)) (length cs)"
proof -
  let ?m = "user_store m pt va bs"
  have e: "va + of_nat (length bs) + of_nat i = va + of_nat (length bs + i)" for i by (simp add: algebra_simps)
  have 1: "\<forall>x \<in> walk_bytes 2 m pt (PGROUNDDOWN (va + of_nat (length bs + i))). ?m x = m x" if "i < length cs" for i
    using user_rangeD(3) [OF assms, of _ "length bs + i"] that by (intro ballI user_store_other) force
  have u: "upa ?m pt (va + of_nat (length bs + i)) = upa m pt (va + of_nat (length bs + i))"
    "walk_bytes 2 ?m pt (PGROUNDDOWN (va + of_nat (length bs + i))) = walk_bytes 2 m pt (PGROUNDDOWN (va + of_nat (length bs + i)))"
    if "i < length cs" for i
    using upa_cong walk_ro_cong 1 [OF that] by blast+
  show ?thesis
    unfolding user_range_def e
    using user_rangeD(1) [OF assms] user_rangeD(2) [OF assms, of "length bs + _" "length bs + _"]
      user_rangeD(3) [OF assms, of "length bs + _" "length bs + _"] u by (simp del: of_nat_add)
qed


text \<open>One page of a copy.\<close>

lemma store_page:
  assumes "user_range m pt va (length bs)" and "unat va mod 4096 + length bs \<le> 4096" and "upa m pt va = Some a"
  shows "store_bytes a bs m = user_store m pt va bs"
proof
  fix x
  have p: "the (upa m pt (va + of_nat i)) = a + of_nat i" if "i < length bs" for i
    using upa_page [OF _ assms(3), of i] that assms(2) by simp
  show "store_bytes a bs m x = user_store m pt va bs x"
  proof (cases "unat (x - a) < length bs")
    case True
    have "x = a + of_nat (unat (x - a))" by simp
    then show ?thesis
      using user_store_at [OF assms(1) True] p [OF True] True by (simp add: store_bytes_def)
  next
    case False
    have "the (upa m pt (va + of_nat i)) \<noteq> x" if "i < length bs" for i
    proof
      assume "the (upa m pt (va + of_nat i)) = x"
      then have "x - a = of_nat i" using p [OF that] by (metis add_diff_cancel_left')
      moreover have "unat (of_nat i :: uint64) = i" using that assms(2) by (intro unat_of_nat_small) simp
      ultimately show False using False that by simp
    qed
    then show ?thesis using False user_store_other by (simp add: store_bytes_def)
  qed
qed

lemma user_range_take: "user_range m pt va n \<Longrightarrow> k \<le> n \<Longrightarrow> user_range m pt va k"
  unfolding user_range_def by auto

lemma copyout_spec:
  assumes "user_range (mem s) pt va (length bs)"
  shows "copyout pt va bs s = Ok 0 (s\<lparr>mem := user_store (mem s) pt va bs\<rparr>)"
  using assms
proof (induction pt va bs arbitrary: s rule: copyout.induct)
  case (1 pt va bs)
  show ?case
  proof (cases "bs = []")
    case True
    then show ?thesis by (simp add: copyout.simps user_store_def)
  next
    case False
    let ?c = "page_chunk va (length bs)"
    have c: "?c \<le> length bs" "unat va mod 4096 + ?c \<le> 4096" using False by (auto simp: page_chunk_nat)
    obtain a where a: "upa (mem s) pt va = Some a" using user_rangeD(1) [OF 1(2), of 0] False by auto
    let ?pa0 = "walkaddr_ro (mem s) pt (PGROUNDDOWN va)"
    have pa0: "?pa0 \<noteq> 0" "a = ?pa0 + (va - PGROUNDDOWN va)" using a by (auto simp: upa_def Let_def split: if_splits)
    let ?s = "s\<lparr>mem := user_store (mem s) pt va (take ?c bs)\<rparr>"
    have l: "length (take ?c bs) = ?c" using c by simp
    have "user_range (mem s) pt va ?c" by (rule user_range_take [OF 1(2) c(1)])
    then have first: "store_bytes a (take ?c bs) (mem s) = user_store (mem s) pt va (take ?c bs)"
      using store_page [of "mem s" pt va "take ?c bs"] l c(2) a by simp
    have rest: "copyout pt (PGROUNDDOWN va + 4096) (drop ?c bs) ?s = Ok 0 (s\<lparr>mem := user_store (mem s) pt va bs\<rparr>)"
    proof (cases "?c < length bs")
      case True
      note n = next_page [OF True]
      have sp: "user_range (mem s) pt va (length (take ?c bs @ drop ?c bs))" using 1(2) by simp
      have "copyout pt (PGROUNDDOWN va + 4096) (drop ?c bs) ?s =
          Ok 0 (?s\<lparr>mem := user_store (mem ?s) pt (PGROUNDDOWN va + 4096) (drop ?c bs)\<rparr>)"
        using user_range_after [OF sp] l n by (intro 1(1) [OF False refl pa0(1) refl]) simp
      then show ?thesis using user_store_append [OF sp] l n by simp
    next
      case F: False
      then show ?thesis using c by (simp add: copyout.simps)
    qed
    show ?thesis
      using False first rest pa0 by (simp add: copyout.simps [of pt va bs] Let_def walkaddr_run set_mem_def)
  qed
qed

lemma copyin_user_store:
  assumes "user_range (mem s) pt va (length bs)" and "mem s' = user_store (mem s) pt va bs"
  shows "copyin pt va (length bs) s' = Ok (0, bs) s'"
proof -
  have u: "upa (mem s') pt (va + of_nat i) = upa (mem s) pt (va + of_nat i)" if "i < length bs" for i
    unfolding assms(2) by (rule user_store_upa [OF assms(1) that])
  have "map (\<lambda>i. mem s' (the (upa (mem s') pt (va + of_nat i)))) [0..<length bs] = bs"
    unfolding assms(2) by (rule nth_equalityI) (simp_all add: user_store_at [OF assms(1)] user_store_upa [OF assms(1)])
  then show ?thesis using copyin_spec [of "length bs" s' pt va] u user_rangeD(1) [OF assms(1)] by simp
qed

lemma ld64_st64_other:
  assumes "8 \<le> unat (b - a)" and "8 \<le> unat (a - b)"
  shows "ld64 b (st64 a w m) = ld64 b m"
proof -
  have "8 \<le> unat (b + of_nat i - a)" if i: "i < 8" for i
  proof (rule ccontr)
    assume "\<not> ?thesis"
    then obtain k where k: "k < 8" "b + of_nat i - a = of_nat k" by (metis not_le of_nat_unat ucast_id)
    have s: "unat (of_nat j :: uint64) = j" if "j < 8" for j using that by (intro unat_of_nat_small) simp
    show False
    proof (cases "k \<le> i")
      case True
      then have "a - b = of_nat (i - k)" using k(2) by (simp add: of_nat_diff algebra_simps)
      then show False using assms(2) s [of "i - k"] i by simp
    next
      case False
      then have "b - a = of_nat (k - i)" using k(2) by (simp add: of_nat_diff algebra_simps)
      then show False using assms(1) s [of "k - i"] k(1) by simp
    qed
  qed
  then show ?thesis by (simp add: ld64_def st64_def load_store_disjoint)
qed

lemma walk_bytes_2:
  "walk_bytes 2 m pt va = word_bytes (pt + 8 * PX 2 va) \<union>
     (let v2 = ld64 (pt + 8 * PX 2 va) m in
      if v2 AND PTE_V = 0 then {}
      else word_bytes (PTE2PA v2 + 8 * PX 1 va) \<union>
        (let v1 = ld64 (PTE2PA v2 + 8 * PX 1 va) m in
         if v1 AND PTE_V = 0 then {} else word_bytes (PTE2PA v1 + 8 * PX 0 va)))"
  by (simp add: numeral_2_eq_2 Let_def)

lemma walk_ro_2:
  "walk_ro 2 m pt va =
     (let v2 = ld64 (pt + 8 * PX 2 va) m in
      if v2 AND PTE_V = 0 then 0
      else
        let v1 = ld64 (PTE2PA v2 + 8 * PX 1 va) m in
        if v1 AND PTE_V = 0 then 0 else PTE2PA v1 + 8 * PX 0 va)"
  by (simp add: numeral_2_eq_2 Let_def)

lemma notin_word_bytes: "x \<notin> word_bytes a \<longleftrightarrow> 8 \<le> unat (x - a)"
proof -
  have "x \<in> word_bytes a" if "unat (x - a) < 8"
    using that unfolding word_bytes_def by (intro image_eqI [of _ _ "unat (x - a)"]) simp_all
  moreover have "unat (x - a) < 8" if m: "x \<in> word_bytes a"
  proof -
    obtain i where "i < 8" "x = a + of_nat i" using m by (auto simp: word_bytes_def)
    moreover from this(1) have "unat (of_nat i :: uint64) = i" by (intro unat_of_nat_small) simp
    ultimately show ?thesis by simp
  qed
  ultimately show ?thesis by (meson not_le)
qed

end
