(* ===== verification/Pipe.thy ===== *)
theory Pipe
  imports Console Ring Vm_Spec
begin

text \<open>
  \<^verbatim>\<open>src/kernel/pipe.c\<close>. A pipe lives in a page from \<^verbatim>\<open>kalloc\<close>; \<open>pipes\<close> gives the structure at a
  page's address. The loops take the index they continue from, so that what a process does
  after it is woken in the middle of a call is the same loop from where it slept.
\<close>

section \<open>State\<close>

definition PIPESIZE :: nat where [params]: "PIPESIZE = 512"

record pipe =
  pi_data :: bytes
  pi_nread :: uint32
  pi_nwrite :: uint32
  pi_readopen :: bool
  pi_writeopen :: bool

record pipe_state = cons_state +
  pipes :: "uint64 \<Rightarrow> pipe option"

definition get_pipe :: "uint64 \<Rightarrow> ('a pipe_state_scheme, pipe) kmon" where
  "get_pipe pi = kget (\<lambda>s. the (pipes s pi))"

definition upd_pipe :: "uint64 \<Rightarrow> (pipe \<Rightarrow> pipe) \<Rightarrow> ('a pipe_state_scheme, unit) kmon" where
  "upd_pipe pi f = kmod (\<lambda>s. s\<lparr>pipes := (pipes s)(pi := map_option f (pipes s pi))\<rparr>)"

section \<open>Operations\<close>

definition pipe_full :: "pipe \<Rightarrow> bool" where
  "pipe_full p \<longleftrightarrow> pi_nwrite p = pi_nread p + of_nat PIPESIZE"

text \<open>\<^verbatim>\<open>pi->data[pi->nwrite++ % PIPESIZE] = ch\<close> and \<^verbatim>\<open>ch = pi->data[pi->nread++ % PIPESIZE]\<close>.\<close>

definition pipe_put :: "uchar \<Rightarrow> pipe \<Rightarrow> pipe" where
  "pipe_put ch p =
     p\<lparr>pi_data := (pi_data p)[unat (pi_nwrite p) mod PIPESIZE := ch], pi_nwrite := pi_nwrite p + 1\<rparr>"

definition pipe_front :: "pipe \<Rightarrow> uchar" where
  "pipe_front p = pi_data p ! (unat (pi_nread p) mod PIPESIZE)"

definition pipe_drop :: "pipe \<Rightarrow> pipe" where
  "pipe_drop p = p\<lparr>pi_nread := pi_nread p + 1\<rparr>"

text \<open>The bytes in a pipe. The counters run freely and wrap around.\<close>

definition pipe_ok :: "pipe \<Rightarrow> bool" where
  "pipe_ok p \<longleftrightarrow> length (pi_data p) = PIPESIZE \<and> unat (pi_nwrite p - pi_nread p) \<le> PIPESIZE"

definition pipe_queue :: "pipe \<Rightarrow> bytes" where
  "pipe_queue p = ring_list PIPESIZE (pi_data p) (unat (pi_nread p)) (unat (pi_nwrite p - pi_nread p))"

lemma length_pipe_queue: "length (pipe_queue p) = unat (pi_nwrite p - pi_nread p)"
  by (simp add: pipe_queue_def)

lemma PIPESIZE_dvd: "PIPESIZE dvd 2 ^ LENGTH(32)"
  by (simp add: params)

lemma pipe_slot: "unat (pi_nwrite p) mod PIPESIZE = (unat (pi_nread p) + unat (pi_nwrite p - pi_nread p)) mod PIPESIZE"
  using unat_add_mod [OF PIPESIZE_dvd, of "pi_nread p" "unat (pi_nwrite p - pi_nread p)"] by simp

interpretation pipe_ring: ring_buffer PIPESIZE pipe_ok pipe_queue pipe_put pipe_front pipe_drop
proof
  fix s :: pipe and e
  assume ok: "pipe_ok s"
  show "length (pipe_queue s) \<le> PIPESIZE" using ok by (simp add: pipe_ok_def length_pipe_queue)
  show "pipe_ok (pipe_put e s)" "pipe_queue (pipe_put e s) = pipe_queue s @ [e]" if "length (pipe_queue s) < PIPESIZE"
  proof -
    have k: "unat (pi_nwrite s - pi_nread s) < PIPESIZE" using that by (simp add: length_pipe_queue)
    then have u: "unat (pi_nwrite s + 1 - pi_nread s) = Suc (unat (pi_nwrite s - pi_nread s))"
      by (intro unat_Suc_diff) (simp add: params)
    show "pipe_ok (pipe_put e s)" using ok k u by (simp add: pipe_ok_def pipe_put_def)
    show "pipe_queue (pipe_put e s) = pipe_queue s @ [e]"
      using ok k u by (simp add: pipe_queue_def pipe_put_def pipe_slot ring_list_put pipe_ok_def)
  qed
  assume ne: "pipe_queue s \<noteq> []"
  have "pi_nwrite s \<noteq> pi_nread s"
  proof
    assume "pi_nwrite s = pi_nread s"
    then have "length (pipe_queue s) = 0" by (simp add: length_pipe_queue)
    then show False using ne by simp
  qed
  note u = unat_pred_diff [OF this]
  show "pipe_ok (pipe_drop s)" using ok u by (simp add: pipe_ok_def pipe_drop_def)
  show "pipe_queue (pipe_drop s) = tl (pipe_queue s)"
    unfolding pipe_queue_def u by (simp add: pipe_drop_def ring_list_Suc_word [OF PIPESIZE_dvd] ring_list_drop)
  show "pipe_front s = hd (pipe_queue s)" unfolding pipe_queue_def u by (simp add: pipe_front_def ring_list_hd)
qed

lemma pipe_full_iff: "pipe_ok p \<Longrightarrow> pipe_full p \<longleftrightarrow> length (pipe_queue p) = PIPESIZE"
proof -
  assume "pipe_ok p"
  have "pipe_full p \<longleftrightarrow> pi_nwrite p - pi_nread p = of_nat PIPESIZE" by (auto simp: pipe_full_def algebra_simps)
  also have "\<dots> \<longleftrightarrow> unat (pi_nwrite p - pi_nread p) = PIPESIZE"
    by (rule eq_of_nat_iff) (simp add: params)
  finally show ?thesis by (simp add: length_pipe_queue)
qed

definition pipeclose :: "uint64 \<Rightarrow> bool \<Rightarrow> ('a pipe_state_scheme, unit) kmon" where
  "pipeclose pi writable =
     kseq (if writable then
             kseq (upd_pipe pi (\<lambda>p. p\<lparr>pi_writeopen := False\<rparr>))
                  (wakeup (ChanPipeRead (unat pi)))
           else
             kseq (upd_pipe pi (\<lambda>p. p\<lparr>pi_readopen := False\<rparr>))
                  (wakeup (ChanPipeWrite (unat pi))))
    (kbind (get_pipe pi) (\<lambda>p.
     kwhen (\<not> pi_readopen p \<and> \<not> pi_writeopen p)
       (kseq (kmod (\<lambda>s. s\<lparr>pipes := (pipes s)(pi := None)\<rparr>))
             (kfree pi))))"

text \<open>\<^verbatim>\<open>pipewrite\<close> from index \<open>i\<close>, with \<open>k\<close> bytes to go: \<open>None\<close> is the early return of -1.\<close>

primrec pipewrite_loop :: "uint64 \<Rightarrow> uint64 \<Rightarrow> nat \<Rightarrow> nat \<Rightarrow> ('a pipe_state_scheme, nat option) kmon" where
  "pipewrite_loop pi addr i 0 = kret (Some i)"
| "pipewrite_loop pi addr i (Suc k) =
     kbind myproc (\<lambda>pr.
     kbind (get_pipe pi) (\<lambda>p.
     if pipe_full p then
       (if \<not> pi_readopen p \<or> p_killed pr then kret None
        else
          kseq (wakeup (ChanPipeRead (unat pi)))
               (sleep (ChanPipeWrite (unat pi))))
     else
       kbind (copyin (p_pagetable pr) (addr + of_nat i) 1) (\<lambda>(r, bs).
       if r = -1 then kret (Some i)
       else
         kseq (upd_pipe pi (pipe_put (hd bs)))
              (pipewrite_loop pi addr (Suc i) k))))"

definition pipewrite :: "uint64 \<Rightarrow> uint64 \<Rightarrow> int \<Rightarrow> ('a pipe_state_scheme, int) kmon" where
  "pipewrite pi addr n =
     kbind (pipewrite_loop pi addr 0 (nat n)) (\<lambda>r.
     case r of
       None \<Rightarrow> kret (-1)
     | Some i \<Rightarrow>
         kseq (wakeup (ChanPipeRead (unat pi)))
              (kret (int i)))"

primrec piperead_loop :: "uint64 \<Rightarrow> uint64 \<Rightarrow> nat \<Rightarrow> nat \<Rightarrow> ('a pipe_state_scheme, nat) kmon" where
  "piperead_loop pi addr i 0 = kret i"
| "piperead_loop pi addr i (Suc k) =
     kbind myproc (\<lambda>pr.
     kbind (get_pipe pi) (\<lambda>p.
     if pi_nread p = pi_nwrite p then kret i
     else
       kseq (upd_pipe pi pipe_drop)
      (kbind (copyout (p_pagetable pr) (addr + of_nat i) [pipe_front p]) (\<lambda>r.
       if r = -1 then kret i
       else piperead_loop pi addr (Suc i) k))))"

definition piperead :: "uint64 \<Rightarrow> uint64 \<Rightarrow> int \<Rightarrow> ('a pipe_state_scheme, int) kmon" where
  "piperead pi addr n =
     kbind myproc (\<lambda>pr.
     kbind (get_pipe pi) (\<lambda>p.
     if pi_nread p = pi_nwrite p \<and> pi_writeopen p then
       (if p_killed pr then kret (-1) else sleep (ChanPipeRead (unat pi)))
     else
       kbind (piperead_loop pi addr 0 (nat n)) (\<lambda>i.
       kseq (wakeup (ChanPipeWrite (unat pi)))
            (kret (int i)))))"


section \<open>What is written is what is read\<close>

lemma wakeup_run: "wakeup ch s = Ok () (s\<lparr>procs := map (wake ch) (procs s)\<rparr>)"
  by (simp add: wakeup_def)

lemma upd_pipe_run: "pipes s pi = Some p \<Longrightarrow> upd_pipe pi f s = Ok () (s\<lparr>pipes := (pipes s)(pi \<mapsto> f p)\<rparr>)"
  by (simp add: upd_pipe_def)

text \<open>The bytes \<open>bs\<close> lie at the user address \<open>addr\<close> of the running process.\<close>

definition user_bytes :: "'a proc_state_scheme \<Rightarrow> uint64 \<Rightarrow> bytes \<Rightarrow> bool" where
  "user_bytes s addr bs \<longleftrightarrow>
     (\<forall>i<length bs. copyin (p_pagetable (myproc_of s)) (addr + of_nat i) 1 s = Ok (0, [bs ! i]) s)"

lemma pipewrite_loop_spec:
  assumes "pipes s pi = Some p" and "pipe_ok p" and "length (pipe_queue p) + length cs \<le> PIPESIZE"
    and "\<And>i. i < length cs \<Longrightarrow> user_bytes s (addr + of_nat (j + i)) [cs ! i]"
  shows "pipewrite_loop pi addr j (length cs) s = Ok (Some (j + length cs)) (s\<lparr>pipes := (pipes s)(pi \<mapsto> fold pipe_put cs p)\<rparr>)"
  using assms
proof (induction cs arbitrary: s p j)
  case Nil
  then show ?case by (simp add: fun_upd_idem)
next
  case (Cons c cs)
  have nf: "\<not> pipe_full p" using Cons.prems(2,3) by (simp add: pipe_full_iff)
  have "copyin (p_pagetable (myproc_of s)) (addr + of_nat j) 1 s = Ok (0, [c]) s"
    using Cons.prems(4) [of 0] by (simp add: user_bytes_def)
  moreover let ?s = "s\<lparr>pipes := (pipes s)(pi \<mapsto> pipe_put c p)\<rparr>"
  have "pipewrite_loop pi addr (Suc j) (length cs) ?s = Ok (Some (Suc j + length cs)) (?s\<lparr>pipes := (pipes ?s)(pi \<mapsto> fold pipe_put cs (pipe_put c p))\<rparr>)"
  proof (rule Cons.IH)
    show "pipes ?s pi = Some (pipe_put c p)" by simp
    show "pipe_ok (pipe_put c p)" "length (pipe_queue (pipe_put c p)) + length cs \<le> PIPESIZE"
      using Cons.prems(2,3) pipe_ring.put_ok [of p c] pipe_ring.put_queue [of p c] by simp_all
    fix i assume "i < length cs"
    then have "user_bytes s (addr + of_nat (j + Suc i)) [cs ! i]" using Cons.prems(4) [of "Suc i"] by simp
    then obtain "copyin (p_pagetable (myproc_of s)) (addr + of_nat (j + Suc i)) 1 s = Ok (0, [cs ! i]) s"
      by (simp add: user_bytes_def)
    then show "user_bytes ?s (addr + of_nat (Suc j + i)) [cs ! i]"
      using copyin_reads [of ?s s "p_pagetable (myproc_of s)" "addr + of_nat (j + Suc i)" 1]
      by (auto simp: user_bytes_def myproc_of_def algebra_simps)
  qed
  ultimately show ?case
    using nf Cons.prems(1) by (simp add: myproc_def get_pipe_def upd_pipe_run fun_upd_def cong: if_cong)
qed

end
