(* ===== verification/File.thy ===== *)
theory File
  imports Pipe
begin

text \<open>
  The file table of \<^verbatim>\<open>src/kernel/file.c\<close>, with \<^verbatim>\<open>pipealloc\<close> of \<^verbatim>\<open>src/kernel/pipe.c\<close>, which builds
  two of its entries. A pointer to a file is its index in \<open>ftable\<close>. The functions that a
  device switch entry points to are the console's.
\<close>

section \<open>State\<close>

datatype ftype = FD_NONE | FD_PIPE | FD_INODE | FD_DEVICE

record file_t =
  f_type :: ftype
  f_ref :: int
  f_readable :: bool
  f_writable :: bool
  f_pipe :: uint64
  f_ip :: "nat option"
  f_off :: uint32
  f_major :: ushort

datatype devfn = Consoleread | Consolewrite

record devsw =
  dv_read :: "devfn option"
  dv_write :: "devfn option"

text \<open>\<open>stack_junk\<close> is what the uninitialised bytes of a local variable hold.\<close>

record file_state = pipe_state +
  ftable :: "file_t list"
  devsw :: "devsw list"
  stack_junk :: bytes

definition get_file :: "nat \<Rightarrow> ('a file_state_scheme, file_t) kmon" where
  "get_file f = kget (\<lambda>s. ftable s ! f)"

definition set_file :: "nat \<Rightarrow> (file_t \<Rightarrow> file_t) \<Rightarrow> ('a file_state_scheme, unit) kmon" where
  "set_file f g = kmod (\<lambda>s. s\<lparr>ftable := (ftable s)[f := g (ftable s ! f)]\<rparr>)"

text \<open>Following a null inode pointer is a fault in the kernel, which \<^verbatim>\<open>kerneltrap\<close> turns into a
  panic.\<close>

definition file_ip :: "file_t \<Rightarrow> ('a file_state_scheme, nat) kmon" where
  "file_ip f = (case f_ip f of None \<Rightarrow> kpanic ''kerneltrap'' | Some ip \<Rightarrow> kret ip)"

section \<open>Operations\<close>

definition filealloc :: "('a file_state_scheme, nat option) kmon" where
  "filealloc =
     kbind (kget ftable) (\<lambda>ft.
     case find (\<lambda>f. f_ref (ft ! f) = 0) [0..<NFILE] of
       None \<Rightarrow> kret None
     | Some f \<Rightarrow> kseq (set_file f (\<lambda>x. x\<lparr>f_ref := 1\<rparr>)) (kret (Some f)))"

definition filedup :: "nat \<Rightarrow> ('a file_state_scheme, nat) kmon" where
  "filedup f =
     kbind (get_file f) (\<lambda>x.
     if f_ref x < 1 then kpanic ''filedup''
     else kseq (set_file f (\<lambda>x. x\<lparr>f_ref := f_ref x + 1\<rparr>)) (kret f))"

definition fileclose :: "nat \<Rightarrow> ('a file_state_scheme, unit) kmon" where
  "fileclose f =
     kbind (get_file f) (\<lambda>ff.
     if f_ref ff < 1 then kpanic ''fileclose''
     else if f_ref ff - 1 > 0 then set_file f (\<lambda>x. x\<lparr>f_ref := f_ref x - 1\<rparr>)
     else
       kseq (set_file f (\<lambda>x. x\<lparr>f_ref := 0, f_type := FD_NONE\<rparr>))
       (case f_type ff of
          FD_PIPE \<Rightarrow> pipeclose (f_pipe ff) (f_writable ff)
        | FD_NONE \<Rightarrow> kret ()
        | _ \<Rightarrow>
            kseq begin_op
           (kbind (file_ip ff) (\<lambda>ip.
            kseq (iput ip)
                 end_op))))"

definition new_pipe :: pipe where
  "new_pipe = \<lparr>pi_data = replicate PIPESIZE 5, pi_nread = 0, pi_nwrite = 0, pi_readopen = True, pi_writeopen = True\<rparr>"

definition pipealloc :: "('a file_state_scheme, (nat \<times> nat) option) kmon" where
  "pipealloc =
     kbind filealloc (\<lambda>r0.
     case r0 of
       None \<Rightarrow> kret None
     | Some f0 \<Rightarrow>
         kbind filealloc (\<lambda>r1.
         case r1 of
           None \<Rightarrow> kseq (fileclose f0) (kret None)
         | Some f1 \<Rightarrow>
             kbind kalloc (\<lambda>pi.
             if pi = 0 then kseq (fileclose f0) (kseq (fileclose f1) (kret None))
             else
               kseq (kmod (\<lambda>s. s\<lparr>pipes := (pipes s)(pi \<mapsto> new_pipe)\<rparr>))
              (kseq (set_file f0 (\<lambda>x. x\<lparr>f_type := FD_PIPE, f_readable := True, f_writable := False, f_pipe := pi\<rparr>))
              (kseq (set_file f1 (\<lambda>x. x\<lparr>f_type := FD_PIPE, f_readable := False, f_writable := True, f_pipe := pi\<rparr>))
                    (kret (Some (f0, f1))))))))"

text \<open>\<^verbatim>\<open>struct stat\<close> in memory: \<^verbatim>\<open>dev\<close> 0, \<^verbatim>\<open>ino\<close> 4, \<^verbatim>\<open>type\<close> 8, \<^verbatim>\<open>nlink\<close> 10, \<^verbatim>\<open>size\<close> 16, \<^verbatim>\<open>mode\<close> 24, \<^verbatim>\<open>perm\<close> 26;
  12 to 15 and 28 to 31 are padding, which \<^verbatim>\<open>stati\<close> leaves as it found it.\<close>

definition stat_bytes :: "stat \<Rightarrow> bytes \<Rightarrow> bytes" where
  "stat_bytes st junk =
     put16 26 (st_perm st)
    (put16 24 (st_mode st)
    (put_bytes 16 (le_bytes 8 (of_nat (st_size st) :: uint64))
    (put16 10 (st_nlink st)
    (put16 8 (st_type st)
    (put32 4 (of_nat (st_ino st))
    (put32 0 (of_nat (st_dev st)) (take 32 (junk @ replicate 32 0))))))))"

definition filestat :: "nat \<Rightarrow> uint64 \<Rightarrow> ('a file_state_scheme, int) kmon" where
  "filestat f addr =
     kbind myproc (\<lambda>p.
     kbind (get_file f) (\<lambda>x.
     if f_type x = FD_INODE \<or> f_type x = FD_DEVICE then
       kbind (file_ip x) (\<lambda>ip.
       kseq (ilock ip)
      (kbind (stati ip) (\<lambda>st.
       kseq (iunlock ip)
      (kbind (kget stack_junk) (\<lambda>junk.
       kbind (copyout (p_pagetable p) addr (stat_bytes st junk)) (\<lambda>r.
       if r < 0 then kret (-1) else kret 0))))))
     else kret (-1)))"

text \<open>\<^verbatim>\<open>f->major < 0 || f->major >= NDEV || !devsw[f->major].read\<close>: the entry, if there is one.\<close>

definition dev_entry :: "ushort \<Rightarrow> (devsw \<Rightarrow> devfn option) \<Rightarrow> ('a file_state_scheme, devfn option) kmon" where
  "dev_entry major sel =
     kget (\<lambda>s. if sint major < 0 \<or> sint major \<ge> NDEV then None else sel (devsw s ! unat major))"

definition call_dev :: "devfn \<Rightarrow> uint64 \<Rightarrow> int \<Rightarrow> ('a file_state_scheme, int) kmon" where
  "call_dev fn addr n =
     (case fn of
        Consoleread \<Rightarrow> consoleread True addr n
      | Consolewrite \<Rightarrow> consolewrite True addr n)"

definition fileread :: "nat \<Rightarrow> uint64 \<Rightarrow> int \<Rightarrow> ('a file_state_scheme, int) kmon" where
  "fileread f addr n =
     kbind (get_file f) (\<lambda>x.
     if \<not> f_readable x then kret (-1)
     else
       (case f_type x of
          FD_PIPE \<Rightarrow> piperead (f_pipe x) addr n
        | FD_DEVICE \<Rightarrow>
            kbind (dev_entry (f_major x) dv_read) (\<lambda>fn.
            case fn of None \<Rightarrow> kret (-1) | Some fn \<Rightarrow> call_dev fn addr n)
        | FD_INODE \<Rightarrow>
            kbind (file_ip x) (\<lambda>ip.
            kseq (ilock ip)
           (kbind (readi ip (UserDst addr) (f_off x) (word_of_int n)) (\<lambda>(r, _).
            kseq (kwhen (r > 0) (set_file f (\<lambda>x. x\<lparr>f_off := f_off x + of_nat r\<rparr>)))
           (kseq (iunlock ip)
                 (kret (int r))))))
        | FD_NONE \<Rightarrow> kpanic ''fileread''))"

definition max_write :: nat where
  "max_write = (MAXOPBLOCKS - 1 - 1 - 2) div 2 * BSIZE"

text \<open>One transaction of the loop of \<^verbatim>\<open>filewrite\<close>: the result of \<^verbatim>\<open>writei\<close>.\<close>

definition write_some :: "nat \<Rightarrow> nat \<Rightarrow> uint64 \<Rightarrow> nat \<Rightarrow> ('a file_state_scheme, int) kmon" where
  "write_some f ip addr n1 =
     kseq begin_op
    (kseq (ilock ip)
    (kbind (get_file f) (\<lambda>x.
     kbind (writei ip (UserSrc addr) (f_off x) (of_nat n1)) (\<lambda>r.
     kseq (kwhen (r > 0) (set_file f (\<lambda>x. x\<lparr>f_off := f_off x + word_of_int r\<rparr>)))
    (kseq (iunlock ip)
    (kseq end_op
          (kret r)))))))"

lemma max_write_pos [simp]: "0 < max_write"
  by (simp add: max_write_def params)

text \<open>The loop of \<^verbatim>\<open>filewrite\<close> with \<open>rem\<close> bytes left; the result is how many were written.\<close>

function filewrite_loop :: "nat \<Rightarrow> nat \<Rightarrow> uint64 \<Rightarrow> nat \<Rightarrow> nat \<Rightarrow> ('a file_state_scheme, nat) kmon" where
  "filewrite_loop f ip addr i rem =
     (if rem = 0 then kret i
      else
        (let n1 = min rem max_write in
         kbind (write_some f ip (addr + of_nat i) n1) (\<lambda>r.
         if r < 0 then kret i
         else if r \<noteq> int n1 then kpanic ''short filewrite''
         else filewrite_loop f ip addr (i + n1) (rem - n1))))"
  by pat_completeness auto
termination
  by (relation "measure (\<lambda>(f, ip, addr, i, rem). rem)") auto

declare filewrite_loop.simps [simp del]

definition filewrite :: "nat \<Rightarrow> uint64 \<Rightarrow> int \<Rightarrow> ('a file_state_scheme, int) kmon" where
  "filewrite f addr n =
     kbind (get_file f) (\<lambda>x.
     if \<not> f_writable x then kret (-1)
     else
       (case f_type x of
          FD_PIPE \<Rightarrow> pipewrite (f_pipe x) addr n
        | FD_DEVICE \<Rightarrow>
            kbind (dev_entry (f_major x) dv_write) (\<lambda>fn.
            case fn of None \<Rightarrow> kret (-1) | Some fn \<Rightarrow> call_dev fn addr n)
        | FD_INODE \<Rightarrow>
            kbind (file_ip x) (\<lambda>ip.
            kbind (filewrite_loop f ip addr 0 (nat n)) (\<lambda>i.
            kret (if int i = n then n else -1)))
        | FD_NONE \<Rightarrow> kpanic ''filewrite''))"

text \<open>\<^verbatim>\<open>consoleinit\<close> connects the console; the device registers that \<^verbatim>\<open>uartinit\<close> sets are outside
  the model.\<close>

definition consoleinit :: "('a file_state_scheme, unit) kmon" where
  "consoleinit =
     kmod (\<lambda>s. s\<lparr>devsw := (devsw s)[CONSOLE := \<lparr>dv_read = Some Consoleread, dv_write = Some Consolewrite\<rparr>]\<rparr>)"

end
