(* ===== verification/Sysfile.thy ===== *)
theory Sysfile
  imports File
begin

text \<open>
  Fetching system call arguments (\<^verbatim>\<open>src/kernel/syscall.c\<close>) and the file system calls of
  \<^verbatim>\<open>src/kernel/sysfile.c\<close>, \<^verbatim>\<open>sys_exec\<close> apart. A call returns an integer, which \<^verbatim>\<open>syscall\<close> stores in
  the 64-bit register a0. Results that a function returns through pointers are part of its
  value; an inode or file pointer that may be null is an option.
\<close>

section \<open>Arguments\<close>

definition fetchaddr :: "uint64 \<Rightarrow> ('a proc_state_scheme, int \<times> uint64) kmon" where
  "fetchaddr addr =
     kbind myproc (\<lambda>p.
     if addr \<ge> p_sz p \<or> addr + 8 > p_sz p then kret (-1, 0)
     else
       kbind (copyin (p_pagetable p) addr 8) (\<lambda>(r, bs).
       if r \<noteq> 0 then kret (-1, 0) else kret (0, le_word bs)))"

text \<open>The length or -1, and what is in \<^verbatim>\<open>buf\<close>.\<close>

definition fetchstr :: "uint64 \<Rightarrow> nat \<Rightarrow> ('a proc_state_scheme, int \<times> bytes) kmon" where
  "fetchstr addr mx =
     kbind myproc (\<lambda>p.
     kbind (copyinstr (p_pagetable p) addr mx) (\<lambda>(err, buf).
     if err < 0 then kret (err, buf) else kret (int (strlen buf), buf)))"

definition arg_reg :: "nat \<Rightarrow> tfreg option" where
  "arg_reg n =
     (if n = 0 then Some Tf_a0 else if n = 1 then Some Tf_a1 else if n = 2 then Some Tf_a2
      else if n = 3 then Some Tf_a3 else if n = 4 then Some Tf_a4 else if n = 5 then Some Tf_a5
      else None)"

definition argraw :: "nat \<Rightarrow> ('a proc_state_scheme, uint64) kmon" where
  "argraw n =
     kbind myproc (\<lambda>p.
     case arg_reg n of None \<Rightarrow> kpanic ''argraw'' | Some r \<Rightarrow> kret (p_tf p r))"

text \<open>\<^verbatim>\<open>argint\<close> and \<^verbatim>\<open>argaddr\<close> always return 0; their value here is what they store.\<close>

definition argint :: "nat \<Rightarrow> ('a proc_state_scheme, uint32) kmon" where
  "argint n = kbind (argraw n) (\<lambda>v. kret (ucast v))"

definition argaddr :: "nat \<Rightarrow> ('a proc_state_scheme, uint64) kmon" where
  "argaddr n = argraw n"

definition argstr :: "nat \<Rightarrow> nat \<Rightarrow> ('a proc_state_scheme, int \<times> bytes) kmon" where
  "argstr n mx = kbind (argaddr n) (\<lambda>addr. fetchstr addr mx)"

section \<open>File descriptors\<close>

text \<open>The descriptor and its file, \<open>None\<close> for -1.\<close>

definition argfd :: "nat \<Rightarrow> ('a file_state_scheme, (nat \<times> nat) option) kmon" where
  "argfd n =
     kbind (argint n) (\<lambda>fd.
     kbind myproc (\<lambda>p.
     kret (if sint fd < 0 \<or> sint fd \<ge> int NOFILE then None
           else map_option (\<lambda>f. (unat fd, f)) (p_ofile p ! unat fd))))"

definition set_ofile :: "nat \<Rightarrow> nat option \<Rightarrow> ('a file_state_scheme, unit) kmon" where
  "set_ofile fd x =
     kbind (kget cur) (\<lambda>i. kmod (upd_proc i (\<lambda>p. p\<lparr>p_ofile := (p_ofile p)[fd := x]\<rparr>)))"

definition fdalloc :: "nat \<Rightarrow> ('a file_state_scheme, nat option) kmon" where
  "fdalloc f =
     kbind myproc (\<lambda>p.
     case find (\<lambda>fd. p_ofile p ! fd = None) [0..<NOFILE] of
       None \<Rightarrow> kret None
     | Some fd \<Rightarrow> kseq (set_ofile fd (Some f)) (kret (Some fd)))"

definition sys_dup :: "('a file_state_scheme, int) kmon" where
  "sys_dup =
     kbind (argfd 0) (\<lambda>r.
     case r of
       None \<Rightarrow> kret (-1)
     | Some (_, f) \<Rightarrow>
         kbind (fdalloc f) (\<lambda>r.
         case r of
           None \<Rightarrow> kret (-1)
         | Some fd \<Rightarrow> kseq (filedup f) (kret (int fd))))"

text \<open>\<^verbatim>\<open>f->ip->perm & bit\<close>\<close>

definition file_perm :: "nat \<Rightarrow> ushort \<Rightarrow> ('a file_state_scheme, bool) kmon" where
  "file_perm f b =
     kbind (get_file f) (\<lambda>x.
     kbind (file_ip x) (\<lambda>ip.
     kbind (get_inode ip) (\<lambda>y.
     kret (i_perm y AND b \<noteq> 0))))"

definition sys_read :: "('a file_state_scheme, int) kmon" where
  "sys_read =
     kbind (argfd 0) (\<lambda>r.
     case r of
       None \<Rightarrow> kret (-1)
     | Some (_, f) \<Rightarrow>
         kbind (argint 2) (\<lambda>n.
         kbind (argaddr 1) (\<lambda>p.
         kbind (file_perm f M_READ) (\<lambda>ok.
         if \<not> ok then kret (-1) else fileread f p (sint n)))))"

definition sys_write :: "('a file_state_scheme, int) kmon" where
  "sys_write =
     kbind (argfd 0) (\<lambda>r.
     case r of
       None \<Rightarrow> kret (-1)
     | Some (_, f) \<Rightarrow>
         kbind (argint 2) (\<lambda>n.
         kbind (argaddr 1) (\<lambda>p.
         kbind (file_perm f M_WRITE) (\<lambda>ok.
         if \<not> ok then kret (-1) else filewrite f p (sint n)))))"

definition sys_close :: "('a file_state_scheme, int) kmon" where
  "sys_close =
     kbind (argfd 0) (\<lambda>r.
     case r of
       None \<Rightarrow> kret (-1)
     | Some (fd, f) \<Rightarrow>
         kseq (set_ofile fd None)
        (kseq (fileclose f)
              (kret 0)))"

definition sys_fstat :: "('a file_state_scheme, int) kmon" where
  "sys_fstat =
     kbind (argfd 0) (\<lambda>r.
     case r of
       None \<Rightarrow> kret (-1)
     | Some (_, f) \<Rightarrow> kbind (argaddr 1) (\<lambda>st. filestat f st))"

section \<open>Links\<close>

definition set_nlink :: "nat \<Rightarrow> (ushort \<Rightarrow> ushort) \<Rightarrow> ('a fs_state_scheme, unit) kmon" where
  "set_nlink ip f =
     kseq (set_inode ip (\<lambda>x. x\<lparr>i_nlink := f (i_nlink x)\<rparr>))
          (iupdate ip)"

text \<open>The part of \<^verbatim>\<open>sys_link\<close> after the label \<^verbatim>\<open>bad\<close>.\<close>

definition link_bad :: "nat \<Rightarrow> ('a file_state_scheme, int) kmon" where
  "link_bad ip =
     kseq (ilock ip)
    (kseq (set_nlink ip (\<lambda>n. n - 1))
    (kseq (iunlockput ip)
    (kseq end_op
          (kret (-1)))))"

definition sys_link :: "('a file_state_scheme, int) kmon" where
  "sys_link =
     kbind (argstr 0 MAXPATH) (\<lambda>(r, old).
     if r < 0 then kret (-1)
     else
     kbind (argstr 1 MAXPATH) (\<lambda>(r, new).
     if r < 0 then kret (-1)
     else
       kseq begin_op
      (kbind (namei old) (\<lambda>r.
       case r of
         None \<Rightarrow> kseq end_op (kret (-1))
       | Some ip \<Rightarrow>
           kseq (ilock ip)
          (kbind (get_inode ip) (\<lambda>x.
           if i_type x = T_DIR then kseq (iunlockput ip) (kseq end_op (kret (-1)))
           else
             kseq (set_nlink ip (\<lambda>n. n + 1))
            (kseq (iunlock ip)
            (kbind (nameiparent new) (\<lambda>r.
             case r of
               None \<Rightarrow> link_bad ip
             | Some (dp, name) \<Rightarrow>
                 kseq (ilock dp)
                (kbind (get_inode dp) (\<lambda>y.
                 kbind (get_inode ip) (\<lambda>x.
                 kbind (if i_dev y \<noteq> i_dev x then kret (-1) else dirlink dp name (i_inum x)) (\<lambda>r.
                 if r < 0 then kseq (iunlockput dp) (link_bad ip)
                 else
                   kseq (iunlockput dp)
                  (kseq (iput ip)
                  (kseq end_op
                        (kret 0))))))))))))))))"

primrec isdirempty_loop :: "nat \<Rightarrow> nat list \<Rightarrow> ('a fs_state_scheme, bool) kmon" where
  "isdirempty_loop dp [] = kret True"
| "isdirempty_loop dp (off # offs) =
     kbind (readi dp LocalDst (of_nat off) (of_nat DIRENT_SIZE)) (\<lambda>(n, de).
     if n \<noteq> DIRENT_SIZE then kpanic ''isdirempty: readi''
     else if de_inum de \<noteq> 0 then kret False
     else isdirempty_loop dp offs)"

definition isdirempty :: "nat \<Rightarrow> ('a fs_state_scheme, bool) kmon" where
  "isdirempty dp = kbind (get_inode dp) (\<lambda>x. isdirempty_loop dp (drop 2 (dirent_offs (i_size x))))"

definition unlink_bad :: "nat \<Rightarrow> ('a file_state_scheme, int) kmon" where
  "unlink_bad dp = kseq (iunlockput dp) (kseq end_op (kret (-1)))"

text \<open>The part of \<^verbatim>\<open>sys_unlink\<close> after the checks: clear the entry, drop the links.\<close>

definition unlink_entry :: "nat \<Rightarrow> nat \<Rightarrow> nat \<Rightarrow> ('a file_state_scheme, int) kmon" where
  "unlink_entry dp ip off =
     kbind (writei dp (LocalSrc (replicate DIRENT_SIZE 0)) (of_nat off) (of_nat DIRENT_SIZE)) (\<lambda>r.
     if r \<noteq> int DIRENT_SIZE then kpanic ''unlink: writei''
     else
       kbind (get_inode ip) (\<lambda>x.
       kseq (kwhen (i_type x = T_DIR) (set_nlink dp (\<lambda>n. n - 1)))
      (kseq (iunlockput dp)
      (kseq (set_nlink ip (\<lambda>n. n - 1))
      (kseq (iunlockput ip)
      (kseq end_op
            (kret 0)))))))"

definition sys_unlink :: "('a file_state_scheme, int) kmon" where
  "sys_unlink =
     kbind (argstr 0 MAXPATH) (\<lambda>(r, path).
     if r < 0 then kret (-1)
     else
       kseq begin_op
      (kbind (nameiparent path) (\<lambda>r.
       case r of
         None \<Rightarrow> kseq end_op (kret (-1))
       | Some (dp, name) \<Rightarrow>
           kseq (ilock dp)
           (if namecmp name [46, 0] = 0 \<or> namecmp name [46, 46, 0] = 0 then unlink_bad dp
            else
              kbind (dirlookup dp name) (\<lambda>r.
              case r of
                None \<Rightarrow> unlink_bad dp
              | Some (ip, off) \<Rightarrow>
                  kseq (ilock ip)
                 (kbind (get_inode ip) (\<lambda>x.
                  if sint (i_nlink x) < 1 then kpanic ''unlink: nlink < 1''
                  else
                    kbind (if i_type x = T_DIR then isdirempty ip else kret True) (\<lambda>ok.
                    if \<not> ok then kseq (iunlockput ip) (unlink_bad dp)
                    else unlink_entry dp ip off))))))))"

section \<open>Creating and opening\<close>

definition create_dots :: "nat \<Rightarrow> nat \<Rightarrow> ('a fs_state_scheme, unit) kmon" where
  "create_dots dp ip =
     kseq (set_nlink dp (\<lambda>n. n + 1))
    (kbind (get_inode ip) (\<lambda>x.
     kbind (dirlink ip [46, 0] (i_inum x)) (\<lambda>r.
     if r < 0 then kpanic ''create dots''
     else
       kbind (get_inode dp) (\<lambda>y.
       kbind (dirlink ip [46, 46, 0] (i_inum y)) (\<lambda>r.
       kwhen (r < 0) (kpanic ''create dots''))))))"

definition create :: "bytes \<Rightarrow> ushort \<Rightarrow> ushort \<Rightarrow> ushort \<Rightarrow> ('a fs_state_scheme, nat option) kmon" where
  "create path type major minor =
     kbind (nameiparent path) (\<lambda>r.
     case r of
       None \<Rightarrow> kret None
     | Some (dp, name) \<Rightarrow>
         kseq (ilock dp)
        (kbind (dirlookup dp name) (\<lambda>r.
         case r of
           Some (ip, _) \<Rightarrow>
             kseq (iunlockput dp)
            (kseq (ilock ip)
            (kbind (get_inode ip) (\<lambda>x.
             if type = T_FILE \<and> (i_type x = T_FILE \<or> i_type x = T_DEVICE) then kret (Some ip)
             else kseq (iunlockput ip) (kret None))))
         | None \<Rightarrow>
             kbind (get_inode dp) (\<lambda>y.
             kbind (ialloc (i_dev y) type) (\<lambda>ip.
             kseq (ilock ip)
            (kseq (set_inode ip (\<lambda>x. x\<lparr>i_major := major, i_minor := minor, i_nlink := 1\<rparr>))
            (kseq (iupdate ip)
            (kseq (kwhen (type = T_DIR) (create_dots dp ip))
            (kbind (get_inode ip) (\<lambda>x.
             kbind (dirlink dp name (i_inum x)) (\<lambda>r.
             if r < 0 then kpanic ''create: dirlink''
             else
               kseq (iunlockput dp)
                    (kret (Some ip)))))))))))))"

text \<open>The part of \<^verbatim>\<open>sys_open\<close> from the test of the device number on.\<close>

definition open_inode :: "nat \<Rightarrow> uint32 \<Rightarrow> ('a file_state_scheme, int) kmon" where
  "open_inode ip omode =
     kbind (get_inode ip) (\<lambda>x.
     let fail = kseq (iunlockput ip) (kseq end_op (kret (-1))) in
     if i_type x = T_DEVICE \<and> (sint (i_major x) < 0 \<or> sint (i_major x) \<ge> NDEV) then fail
     else
       kbind filealloc (\<lambda>r.
       case r of
         None \<Rightarrow> fail
       | Some f \<Rightarrow>
           kbind (fdalloc f) (\<lambda>r.
           case r of
             None \<Rightarrow> kseq (fileclose f) fail
           | Some fd \<Rightarrow>
               kseq (set_file f (\<lambda>y. if i_type x = T_DEVICE
                                      then y\<lparr>f_type := FD_DEVICE, f_major := i_major x\<rparr>
                                      else y\<lparr>f_type := FD_INODE, f_off := 0\<rparr>))
              (kseq (set_file f (\<lambda>y. y\<lparr>f_ip := Some ip, f_readable := omode AND O_WRONLY = 0,
                                      f_writable := omode AND O_WRONLY \<noteq> 0 \<or> omode AND O_RDWR \<noteq> 0\<rparr>))
              (kseq (kwhen (omode AND O_TRUNC \<noteq> 0 \<and> i_type x = T_FILE) (itrunc ip))
              (kseq (iunlock ip)
              (kseq end_op
                    (kret (int fd)))))))))"

definition sys_open :: "('a file_state_scheme, int) kmon" where
  "sys_open =
     kbind (argstr 0 MAXPATH) (\<lambda>(r, path).
     if r < 0 then kret (-1)
     else
       kbind (argint 1) (\<lambda>omode.
       kseq begin_op
       (if omode AND O_CREATE \<noteq> 0 then
          kbind (create path T_FILE 0 0) (\<lambda>r.
          case r of
            None \<Rightarrow> kseq end_op (kret (-1))
          | Some ip \<Rightarrow> open_inode ip omode)
        else
          kbind (namei path) (\<lambda>r.
          case r of
            None \<Rightarrow> kseq end_op (kret (-1))
          | Some ip \<Rightarrow>
              kseq (ilock ip)
             (kbind (get_inode ip) (\<lambda>x.
              if i_type x = T_DIR \<and> omode \<noteq> O_RDONLY then
                kseq (iunlockput ip) (kseq end_op (kret (-1)))
              else open_inode ip omode))))))"

text \<open>How \<^verbatim>\<open>sys_mkdir\<close> and \<^verbatim>\<open>sys_mknod\<close> end.\<close>

definition finish_create :: "nat option \<Rightarrow> ('a file_state_scheme, int) kmon" where
  "finish_create r =
     (case r of
        None \<Rightarrow> kseq end_op (kret (-1))
      | Some ip \<Rightarrow> kseq (iunlockput ip) (kseq end_op (kret 0)))"

definition sys_mkdir :: "('a file_state_scheme, int) kmon" where
  "sys_mkdir =
     kseq begin_op
    (kbind (argstr 0 MAXPATH) (\<lambda>(r, path).
     if r < 0 then kseq end_op (kret (-1))
     else kbind (create path T_DIR 0 0) finish_create))"

definition sys_mknod :: "('a file_state_scheme, int) kmon" where
  "sys_mknod =
     kseq begin_op
    (kbind (argstr 0 MAXPATH) (\<lambda>(r, path).
     if r < 0 then kseq end_op (kret (-1))
     else
       kbind (argint 1) (\<lambda>major.
       kbind (argint 2) (\<lambda>minor.
       kbind (create path T_DEVICE (ucast major) (ucast minor)) finish_create))))"

definition sys_chdir :: "('a file_state_scheme, int) kmon" where
  "sys_chdir =
     kseq begin_op
    (kbind (argstr 0 MAXPATH) (\<lambda>(r, path).
     if r < 0 then kseq end_op (kret (-1))
     else
       kbind (namei path) (\<lambda>r.
       case r of
         None \<Rightarrow> kseq end_op (kret (-1))
       | Some ip \<Rightarrow>
           kseq (ilock ip)
          (kbind (get_inode ip) (\<lambda>x.
           if i_type x \<noteq> T_DIR then kseq (iunlockput ip) (kseq end_op (kret (-1)))
           else
             kseq (iunlock ip)
            (kbind myproc (\<lambda>p.
             kseq (case p_cwd p of None \<Rightarrow> kpanic ''kerneltrap'' | Some cwd \<Rightarrow> iput cwd)
            (kseq end_op
            (kbind (kget cur) (\<lambda>i.
             kseq (kmod (upd_proc i (\<lambda>p. p\<lparr>p_cwd := Some ip\<rparr>)))
                  (kret 0)))))))))))"

definition sys_pipe :: "('a file_state_scheme, int) kmon" where
  "sys_pipe =
     kbind (argaddr 0) (\<lambda>fdarray.
     kbind pipealloc (\<lambda>r.
     case r of
       None \<Rightarrow> kret (-1)
     | Some (rfile, wfile) \<Rightarrow>
         let fail = kseq (fileclose rfile) (kseq (fileclose wfile) (kret (-1))) in
         kbind (fdalloc rfile) (\<lambda>r0.
         case r0 of
           None \<Rightarrow> fail
         | Some fd0 \<Rightarrow>
             kbind (fdalloc wfile) (\<lambda>r1.
             case r1 of
               None \<Rightarrow> kseq (set_ofile fd0 None) fail
             | Some fd1 \<Rightarrow>
                 kbind myproc (\<lambda>p.
                 kbind (copyout (p_pagetable p) fdarray (le_bytes 4 (of_nat fd0 :: uint32))) (\<lambda>c0.
                 kbind (if c0 < 0 then kret c0
                        else copyout (p_pagetable p) (fdarray + 4) (le_bytes 4 (of_nat fd1 :: uint32))) (\<lambda>c1.
                 if c1 < 0 then kseq (set_ofile fd0 None) (kseq (set_ofile fd1 None) fail)
                 else kret 0)))))))"

section \<open>Permissions, symbolic links, raw blocks\<close>

definition sys_chmod :: "('a file_state_scheme, int) kmon" where
  "sys_chmod =
     kbind (argstr 0 MAXPATH) (\<lambda>(r, path).
     if r < 0 then kret (-1)
     else
       kbind (argint 1) (\<lambda>mode.
       kbind (argint 2) (\<lambda>is_add.
       kbind (argint 3) (\<lambda>recursive.
       chperm 4 path mode (is_add \<noteq> 0) (recursive \<noteq> 0)))))"

definition sys_symlink :: "('a file_state_scheme, int) kmon" where
  "sys_symlink =
     kbind (argstr 0 MAXPATH) (\<lambda>(r, target).
     if r < 0 then kret (-1)
     else
     kbind (argstr 1 MAXPATH) (\<lambda>(r, path).
     if r < 0 then kret (-1)
     else
       kseq begin_op
      (kbind (create path T_SYMLINK 0 0) (\<lambda>r.
       case r of
         None \<Rightarrow> kseq end_op (kret (-1))
       | Some ip \<Rightarrow>
           kbind (writei ip (LocalSrc target) 0 (of_nat (strlen target))) (\<lambda>w.
           kseq (iunlockput ip)
          (kseq end_op
                (kret (if w \<noteq> int (strlen target) then -1 else 0))))))))"

definition sys_raw_read :: "('a file_state_scheme, int) kmon" where
  "sys_raw_read =
     kbind (argint 0) (\<lambda>pbn.
     kbind (argaddr 1) (\<lambda>user_buf_addr.
     if sint pbn < 0 \<or> sint pbn \<ge> int FSSIZE then kret (-1)
     else
       kbind (bget ROOTDEV (unat pbn)) (\<lambda>b.
       kseq (virtio_disk_rw b False)
      (kbind myproc (\<lambda>p.
       kbind (buf_data b) (\<lambda>d.
       kbind (copyout (p_pagetable p) user_buf_addr d) (\<lambda>r.
       kseq (brelse b)
            (kret (if r < 0 then -1 else 0)))))))))"

definition sys_get_disk_lbn :: "('a file_state_scheme, int) kmon" where
  "sys_get_disk_lbn =
     kbind (argfd 0) (\<lambda>r.
     case r of
       None \<Rightarrow> kret (-1)
     | Some (_, f) \<Rightarrow>
         kbind (argint 1) (\<lambda>file_lbn.
         kbind (get_file f) (\<lambda>x.
         if \<not> f_readable x then kret (-1)
         else
           kbind (file_ip x) (\<lambda>ip.
           kseq (ilock ip)
          (kbind (bmap ip (unat file_lbn)) (\<lambda>disk_lbn.
           kseq (iunlock ip)
                (kret (int disk_lbn))))))))"

text \<open>A copy that fails leaves the bytes it moved in the buffer.\<close>

definition sys_raw_write :: "('a file_state_scheme, int) kmon" where
  "sys_raw_write =
     kbind (argint 0) (\<lambda>pbn.
     kbind (argaddr 1) (\<lambda>user_buf_addr.
     if sint pbn < 0 \<or> sint pbn \<ge> int FSSIZE then kret (-1)
     else
       kbind (bget ROOTDEV (unat pbn)) (\<lambda>b.
       kbind myproc (\<lambda>p.
       kbind (copyin (p_pagetable p) user_buf_addr BSIZE) (\<lambda>(r, bs).
       kbind (buf_data b) (\<lambda>d.
       kseq (set_data b (put_bytes 0 bs d))
       (if r < 0 then kseq (brelse b) (kret (-1))
        else
          kseq (set_buf b (\<lambda>x. x\<lparr>b_valid := True\<rparr>))
         (kseq (virtio_disk_rw b True)
         (kseq (brelse b)
               (kret 0))))))))))"

end
