(* ===== verification/Sh_Run.thy ===== *)
theory Sh_Run
  imports Sh
begin

text \<open>
  The execution of commands by the shell, \<^verbatim>\<open>src/user/sh.c\<close>. A process is named by the path of forks that made it, and its state is its table
  of open files. What the kernel answers (whether a fork, a pipe, an open or an exec succeeds, and which file it gives) is
  a parameter; descriptors are handed out as the system calls document it, the lowest free one first. The result of \<open>runcmd\<close>
  is what its processes do, the processes in the order of their forks.
\<close>

section \<open>Processes and their files\<close>

type_synonym path = "nat list"

type_synonym 'f fds = "'f option list"

record 'f kernel =
  k_fork :: "path \<Rightarrow> bool"
  k_pipe :: "path \<Rightarrow> ('f \<times> 'f) option"
  k_open :: "path \<Rightarrow> bytes \<Rightarrow> uint32 \<Rightarrow> 'f option"
  k_exec :: "path \<Rightarrow> bytes list \<Rightarrow> bool"

datatype 'f event =
    Runs path "bytes list" "'f fds"
  | Exec_failed path bytes
  | Open_failed path bytes
  | Panics path string
  | Waits path "'f fds"
  | Exits path nat

definition u_close :: "nat \<Rightarrow> 'f fds \<Rightarrow> 'f fds" where
  "u_close fd fds = fds[fd := None]"

definition lowest :: "'f fds \<Rightarrow> nat option" where
  "lowest fds = List.find (\<lambda>i. fds ! i = None) [0..<length fds]"

definition u_alloc :: "'f \<Rightarrow> 'f fds \<Rightarrow> (nat \<times> 'f fds) option" where
  "u_alloc f fds = (case lowest fds of None \<Rightarrow> None | Some i \<Rightarrow> Some (i, fds[i := Some f]))"

definition u_dup :: "nat \<Rightarrow> 'f fds \<Rightarrow> 'f fds" where
  "u_dup fd fds =
     (if fd < length fds then case fds ! fd of None \<Rightarrow> fds | Some f \<Rightarrow> (case u_alloc f fds of None \<Rightarrow> fds | Some (_, fds') \<Rightarrow> fds')
      else fds)"

definition u_open :: "'f kernel \<Rightarrow> path \<Rightarrow> bytes \<Rightarrow> uint32 \<Rightarrow> 'f fds \<Rightarrow> (nat \<times> 'f fds) option" where
  "u_open K p name mode fds = (case k_open K p name mode of None \<Rightarrow> None | Some f \<Rightarrow> u_alloc f fds)"

definition u_pipe :: "'f kernel \<Rightarrow> path \<Rightarrow> 'f fds \<Rightarrow> (nat \<times> nat \<times> 'f fds) option" where
  "u_pipe K p fds =
     (case k_pipe K p of
        None \<Rightarrow> None
      | Some (rf, wrf) \<Rightarrow>
          (case u_alloc rf fds of
             None \<Rightarrow> None
           | Some (r, fds1) \<Rightarrow> (case u_alloc wrf fds1 of None \<Rightarrow> None | Some (w, fds2) \<Rightarrow> Some (r, w, fds2))))"

definition u_panic :: "path \<Rightarrow> string \<Rightarrow> 'f event list" where
  "u_panic p msg = [Panics p msg, Exits p 1]"

section \<open>Running a command\<close>

text \<open>\<open>k\<close> counts the forks that the process has made; \<^verbatim>\<open>fork1\<close> panics where a fork fails.\<close>

primrec runcmd :: "'f kernel \<Rightarrow> path \<Rightarrow> nat \<Rightarrow> 'f fds \<Rightarrow> bytes cmd \<Rightarrow> 'f event list" where
  "runcmd K p k fds (ExecCmd argv) =
     (case argv of
        [] \<Rightarrow> [Exits p 1]
      | a # _ \<Rightarrow> if k_exec K p argv then [Runs p argv fds] else [Exec_failed p a, Exits p 0])"
| "runcmd K p k fds (RedirCmd c w mode fd) =
     (case u_open K p w mode (u_close (nat fd) fds) of
        None \<Rightarrow> [Open_failed p w, Exits p 1]
      | Some (_, fds') \<Rightarrow> runcmd K p k fds' c)"
| "runcmd K p k fds (ListCmd l r) =
     (if \<not> k_fork K (p @ [k]) then u_panic p ''fork''
      else runcmd K (p @ [k]) 0 fds l @ Waits p fds # runcmd K p (Suc k) fds r)"
| "runcmd K p k fds (PipeCmd l r) =
     (case u_pipe K p fds of
        None \<Rightarrow> u_panic p ''pipe''
      | Some (p0, p1, fds) \<Rightarrow>
          if \<not> k_fork K (p @ [k]) then u_panic p ''fork''
          else
            runcmd K (p @ [k]) 0 (u_close p1 (u_close p0 (u_dup p1 (u_close 1 fds)))) l @
           (if \<not> k_fork K (p @ [Suc k]) then u_panic p ''fork''
            else
              let fds' = u_close p1 (u_close p0 fds) in
              runcmd K (p @ [Suc k]) 0 (u_close p1 (u_close p0 (u_dup p0 (u_close 0 fds)))) r @
              [Waits p fds', Waits p fds', Exits p 0]))"
| "runcmd K p k fds (BackCmd c) =
     (if \<not> k_fork K (p @ [k]) then u_panic p ''fork''
      else runcmd K (p @ [k]) 0 fds c @ [Exits p 0])"

section \<open>The command loop\<close>





section \<open>Pipelines\<close>

fun pipeline :: "bytes list \<Rightarrow> bytes list list \<Rightarrow> bytes cmd" where
  "pipeline w [] = ExecCmd w"
| "pipeline w (v # vs) = PipeCmd (ExecCmd w) (pipeline v vs)"

text \<open>The standard descriptors and nothing else.\<close>

definition std_fds :: "'f \<Rightarrow> 'f \<Rightarrow> 'f \<Rightarrow> 'f fds" where
  "std_fds i out err = [Some i, Some out, Some err] @ replicate (NOFILE - 3) None"

text \<open>What a pipeline should do, with \<open>ps\<close> the pipes that its shells create.\<close>

fun plumbed :: "path \<Rightarrow> 'f \<Rightarrow> 'f \<Rightarrow> 'f \<Rightarrow> bytes list \<Rightarrow> bytes list list \<Rightarrow> ('f \<times> 'f) list \<Rightarrow> 'f event list" where
  "plumbed p i out err w [] ps = [Runs p w (std_fds i out err)]"
| "plumbed p i out err w (v # vs) ps =
     (let (rf, wrf) = hd ps; shell = std_fds i out err in
      Runs (p @ [0]) w (std_fds i wrf err) # plumbed (p @ [1]) rf out err v vs (tl ps) @
      [Waits p shell, Waits p shell, Exits p 0])"

lemma pipe_fds:
  assumes "k_pipe K p = Some (rf, wrf)"
  shows "\<exists>fds. u_pipe K p (std_fds i out err) = Some (3, 4, fds) \<and>
    u_close 4 (u_close 3 (u_dup 4 (u_close 1 fds))) = std_fds i wrf err \<and>
    u_close 4 (u_close 3 (u_dup 3 (u_close 0 fds))) = std_fds rf out err \<and>
    u_close 4 (u_close 3 fds) = std_fds i out err"
proof -
  have [simp]: "[0..<16 :: nat] = [0, 1, 2, 3, 4, 5, 6, 7, 8, 9, 10, 11, 12, 13, 14, 15]" by code_simp
  have [simp]: "replicate 13 x = [x, x, x, x, x, x, x, x, x, x, x, x, x]" for x :: "'a option" by (simp add: numeral_eq_Suc)
  show ?thesis
    using assms by (simp add: u_pipe_def u_alloc_def lowest_def std_fds_def NOFILE_def u_close_def u_dup_def)
qed

text \<open>The pipes that the shells of a pipeline create.\<close>

fun pipes_of :: "'f kernel \<Rightarrow> path \<Rightarrow> bytes list list \<Rightarrow> ('f \<times> 'f) list option" where
  "pipes_of K p [] = Some []"
| "pipes_of K p (v # vs) =
     (case (k_pipe K p, pipes_of K (p @ [1]) vs) of (Some q, Some ps) \<Rightarrow> Some (q # ps) | _ \<Rightarrow> None)"

text \<open>C27. In a pipeline of any length started with the three standard descriptors, when its pipes, forks and execs succeed, each
  program runs with the read end of the pipe before it as its standard input (the first with the shell's), the write end of the pipe
  after it as its standard output (the last with the shell's), the shell's standard error, and no other descriptor. Every shell
  process waits for its two children with the three standard descriptors it was started with and no other, so that no process but
  the program on the left of a pipe keeps the write end of the pipe.\<close>

theorem runcmd_pipeline:
  assumes "pipes_of K p vs = Some ps" and "\<forall>q. k_fork K q" and "\<forall>q argv. k_exec K q argv" and "w \<noteq> []" and "[] \<notin> set vs"
  shows "runcmd K p 0 (std_fds i out err) (pipeline w vs) = plumbed p i out err w vs ps"
  using assms
proof (induction vs arbitrary: p i w ps)
  case Nil
  then show ?case by (cases w) simp_all
next
  case (Cons v vs)
  obtain rf wrf ps' where k: "k_pipe K p = Some (rf, wrf)" "pipes_of K (p @ [1]) vs = Some ps'" "ps = (rf, wrf) # ps'"
    using Cons.prems(1) by (auto split: option.splits)
  obtain fds where f: "u_pipe K p (std_fds i out err) = Some (3, 4, fds)"
    "u_close 4 (u_close 3 (u_dup 4 (u_close 1 fds))) = std_fds i wrf err"
    "u_close 4 (u_close 3 (u_dup 3 (u_close 0 fds))) = std_fds rf out err"
    "u_close 4 (u_close 3 fds) = std_fds i out err"
    using pipe_fds [OF k(1)] by blast
  have "runcmd K (p @ [1]) 0 (std_fds rf out err) (pipeline v vs) = plumbed (p @ [1]) rf out err v vs ps'"
    using Cons by (intro Cons.IH k(2)) auto
  then show ?case using Cons.prems f k(3) by (cases w) (simp_all add: Let_def)
qed

definition sample_kernel :: "nat kernel" where
  "sample_kernel = \<lparr>k_fork = \<lambda>_. True, k_pipe = \<lambda>p. Some (10 + length p, 20 + length p), k_open = \<lambda>_ _ _. None, k_exec = \<lambda>_ _. True\<rparr>"

theorem runcmd_pipeline_witness:
  "runcmd sample_kernel [] 0 (std_fds 0 1 2) (pipeline [[97]] [[[98]], [[99]]]) =
     [Runs [0] [[97]] (std_fds 0 20 2), Runs [1, 0] [[98]] (std_fds 10 21 2), Runs [1, 1] [[99]] (std_fds 11 1 2),
      Waits [1] (std_fds 10 1 2), Waits [1] (std_fds 10 1 2), Exits [1] 0, Waits [] (std_fds 0 1 2), Waits [] (std_fds 0 1 2), Exits [] 0]"
proof -
  have "pipes_of sample_kernel [] [[[98]], [[99]]] = Some [(10, 20), (11, 21)]" by (simp add: sample_kernel_def)
  from runcmd_pipeline [OF this, of "[[97]]" 0 1 2] show ?thesis by (simp add: sample_kernel_def Let_def)
qed

section \<open>Command lines\<close>









end
