(* ===== verification/Inode_Map.thy ===== *)
theory Inode_Map
  imports Inode
begin

text \<open>
  The correctness of \<^verbatim>\<open>bmap\<close> of \<^verbatim>\<open>src/kernel/fs.c\<close>: which block of the disk holds a block of a file, what
  makes a file well formed, and what a call inside a transaction does to the file and to the rest of
  the disk.
\<close>

unbundle bit_operations_syntax

section \<open>The blocks of a file\<close>

text \<open>\<open>blk x v k\<close> is the block that holds block \<open>k\<close> of the file with inode \<open>x\<close>, or 0.\<close>

definition indirect :: "inode \<Rightarrow> nat" where
  "indirect x = i_addrs x ! NDIRECT"

definition blk :: "inode \<Rightarrow> (nat \<Rightarrow> bytes) \<Rightarrow> nat \<Rightarrow> nat" where
  "blk x v k =
     (if k < NDIRECT then i_addrs x ! k
      else if indirect x = 0 then 0
      else unat (get32 (4 * (k - NDIRECT)) (v (indirect x))))"

definition file_blocks :: "inode \<Rightarrow> (nat \<Rightarrow> bytes) \<Rightarrow> nat set" where
  "file_blocks x v = insert (indirect x) (blk x v ` {..<MAXFILE})"

text \<open>The blocks of a well-formed file are in use, outside the metadata, and all different.\<close>

definition data_block :: "superblock \<Rightarrow> logt \<Rightarrow> (nat \<Rightarrow> bytes) \<Rightarrow> nat \<Rightarrow> bool" where
  "data_block y l v b \<longleftrightarrow>
     b < sb_size y \<and> block_used y v b \<and> b \<notin> log_area l \<and> b \<notin> bitmap_blocks y \<and> b \<notin> inode_blocks y"

definition file_wf :: "superblock \<Rightarrow> logt \<Rightarrow> (nat \<Rightarrow> bytes) \<Rightarrow> inode \<Rightarrow> bool" where
  "file_wf y l v x \<longleftrightarrow>
     length (i_addrs x) = NDIRECT + 1 \<and>
     (indirect x \<noteq> 0 \<longrightarrow> data_block y l v (indirect x)) \<and>
     (\<forall>k<MAXFILE. blk x v k \<noteq> 0 \<longrightarrow> data_block y l v (blk x v k) \<and> blk x v k \<noteq> indirect x) \<and>
     (\<forall>k<MAXFILE. \<forall>j<MAXFILE. blk x v k \<noteq> 0 \<longrightarrow> blk x v k = blk x v j \<longrightarrow> k = j)"

text \<open>The effect of \<^verbatim>\<open>bmap(ip, bn)\<close> on a file: block \<open>bn\<close> is there, zero-filled if it was not
  before; the other blocks of the file, and the blocks in use elsewhere, are as before.\<close>

definition grown :: "superblock \<Rightarrow> nat \<Rightarrow> inode \<Rightarrow> (nat \<Rightarrow> bytes) \<Rightarrow> inode \<Rightarrow> (nat \<Rightarrow> bytes) \<Rightarrow> bool" where
  "grown y bn x v x' v' \<longleftrightarrow>
     (\<exists>as. x' = x\<lparr>i_addrs := as\<rparr>) \<and> blk x' v' bn \<noteq> 0 \<and>
     (\<forall>k<MAXFILE. k \<noteq> bn \<or> blk x v bn \<noteq> 0 \<longrightarrow> blk x' v' k = blk x v k) \<and>
     (blk x v bn = 0 \<longrightarrow> v' (blk x' v' bn) = replicate BSIZE 0) \<and>
     (\<forall>b < sb_size y. block_used y v b \<longrightarrow> block_used y v' b \<and>
        (b \<in> file_blocks x' v' \<longrightarrow> b \<in> file_blocks x v) \<and>
        (b \<notin> bitmap_blocks y \<longrightarrow> b \<noteq> indirect x \<longrightarrow> v' b = v b))"

lemma file_wfD:
  assumes "file_wf y l v x"
  shows "length (i_addrs x) = NDIRECT + 1"
    and "indirect x \<noteq> 0 \<Longrightarrow> data_block y l v (indirect x)"
    and "k < MAXFILE \<Longrightarrow> blk x v k \<noteq> 0 \<Longrightarrow> data_block y l v (blk x v k)"
    and "k < MAXFILE \<Longrightarrow> blk x v k \<noteq> 0 \<Longrightarrow> blk x v k \<noteq> indirect x"
    and "k < MAXFILE \<Longrightarrow> j < MAXFILE \<Longrightarrow> blk x v k \<noteq> 0 \<Longrightarrow> blk x v k = blk x v j \<Longrightarrow> k = j"
  using assms unfolding file_wf_def by blast+

lemma grown_refl: "blk x v bn \<noteq> 0 \<Longrightarrow> grown y bn x v x v"
  unfolding grown_def by (intro conjI exI [of _ "i_addrs x"]) simp_all

lemma block_used_upd: "c < sb_size y \<Longrightarrow> b \<notin> bitmap_blocks y \<Longrightarrow> block_used y (v(b := d)) c = block_used y v c"
  by (force simp: block_used_def bitmap_blocks_def)

lemma data_block_upd: "b \<notin> bitmap_blocks y \<Longrightarrow> data_block y l (v(b := d)) c = data_block y l v c"
  by (auto simp: data_block_def block_used_upd)

lemma data_block_allocated:
  assumes "allocated y n v v'" and "data_block y l v b"
  shows "data_block y l v' b" and "b \<noteq> n" and "v' b = v b"
  using assms by (auto simp: allocated_def data_block_def free_blocks_def)

lemma allocated_data_block: "allocated y n v v' \<Longrightarrow> layout_ok y l v \<Longrightarrow> data_block y l v' n \<and> n \<noteq> 0 \<and> n < 2 ^ 31"
  using layoutD(4) [of y l v n] by (auto simp: allocated_def data_block_def free_blocks_def)

text \<open>A new direct block.\<close>

lemma grow_direct:
  assumes al: "allocated y n v v'" and ly: "layout_ok y l v" and wf: "file_wf y l v x"
    and bn: "bn < NDIRECT" "i_addrs x ! bn = 0"
  defines "x' \<equiv> x\<lparr>i_addrs := (i_addrs x)[bn := n]\<rparr>"
  shows "grown y bn x v x' v'" and "file_wf y l v' x'" and "blk x' v' bn = n"
proof -
  have len: "length (i_addrs x) = NDIRECT + 1" using wf by (simp add: file_wf_def)
  have ind: "indirect x' = indirect x" using bn by (simp add: indirect_def x'_def)
  have vi: "indirect x \<noteq> 0 \<Longrightarrow> v' (indirect x) = v (indirect x)"
    using wf data_block_allocated [OF al] by (auto simp: file_wf_def)
  have blk: "blk x' v' k = (if k = bn then n else blk x v k)" for k
    using bn len vi ind by (simp add: blk_def x'_def)
  have n: "data_block y l v' n" "n \<noteq> 0" using allocated_data_block [OF al ly] by auto
  have b0: "blk x v bn = 0" using bn by (simp add: blk_def)
  show "blk x' v' bn = n" by (simp add: blk)
  have MAX: "bn < MAXFILE" using bn by (simp add: params)
  have old: "data_block y l v' (blk x v k) \<and> blk x v k \<noteq> n \<and> blk x v k \<noteq> indirect x" if "k < MAXFILE" "blk x v k \<noteq> 0" for k
    using file_wfD(3,4) [OF wf that] data_block_allocated [OF al] by blast
  have "indirect x \<noteq> 0 \<longrightarrow> data_block y l v' (indirect x) \<and> indirect x \<noteq> n"
    using file_wfD(2) [OF wf] data_block_allocated [OF al] by blast
  then show "file_wf y l v' x'"
    using wf n old len ind unfolding file_wf_def blk by (auto simp: x'_def)
  have "file_blocks x' v' \<subseteq> insert n (file_blocks x v)" by (auto simp: file_blocks_def ind blk)
  then show "grown y bn x v x' v'"
    unfolding grown_def blk using n b0 al
    by (intro conjI exI [of _ "(i_addrs x)[bn := n]"]) (auto simp: x'_def allocated_def free_blocks_def)
qed

text \<open>A new, empty indirect block.\<close>

lemma grow_indirect:
  assumes al: "allocated y n v v'" and ly: "layout_ok y l v" and wf: "file_wf y l v x" and ind: "indirect x = 0"
  defines "x' \<equiv> x\<lparr>i_addrs := (i_addrs x)[NDIRECT := n]\<rparr>"
  shows "file_wf y l v' x'" and "indirect x' = n" and "\<And>k. k < MAXFILE \<Longrightarrow> blk x' v' k = blk x v k"
proof -
  have len: "length (i_addrs x) = NDIRECT + 1" using wf by (simp add: file_wf_def)
  show i: "indirect x' = n" using len by (simp add: indirect_def x'_def)
  have n: "data_block y l v' n" "n \<noteq> 0" using allocated_data_block [OF al ly] by auto
  show blk: "blk x' v' k = blk x v k" if "k < MAXFILE" for k
    using ind i len al that by (auto simp: blk_def x'_def allocated_def)
  have old: "data_block y l v' (blk x v k) \<and> blk x v k \<noteq> n" if "k < MAXFILE" "blk x v k \<noteq> 0" for k
    using file_wfD(3) [OF wf that] data_block_allocated [OF al] by blast
  show "file_wf y l v' x'"
    using wf n old blk i len unfolding file_wf_def by (auto simp: x'_def)
qed


text \<open>A new block entered in the indirect block.\<close>

lemma get32_put32_other_word: "4 * i + 4 \<le> length d \<Longrightarrow> 4 * j + 4 \<le> length d \<Longrightarrow> i \<noteq> j \<Longrightarrow> get32 (4 * i) (put32 (4 * j) w d) = get32 (4 * i) d"
  by (rule get32_put32_disjoint) linarith+

lemma grow_entry:
  assumes al: "allocated y n v v1" and ly: "layout_ok y l v" and wf: "file_wf y l v x"
    and bn: "NDIRECT \<le> bn" "bn < MAXFILE" and ind: "indirect x \<noteq> 0" and b0: "blk x v bn = 0"
    and len: "length (v (indirect x)) = BSIZE"
  defines "v' \<equiv> v1(indirect x := put32 (4 * (bn - NDIRECT)) (of_nat n) (v (indirect x)))"
  shows "grown y bn x v x v'" and "file_wf y l v' x" and "blk x v' bn = n" and "free_blocks y v' = free_blocks y v1"
    and "layout_ok y l v'"
proof -
  have n: "data_block y l v1 n" "n \<noteq> 0" "n < 2 ^ 31" using allocated_data_block [OF al ly] by auto
  have i: "data_block y l v (indirect x)" "data_block y l v1 (indirect x)" "indirect x \<noteq> n"
    using file_wfD(2) [OF wf ind] data_block_allocated [OF al] by blast+
  have off: "4 * (bn - NDIRECT) + 4 \<le> BSIZE" using bn by (simp add: params)
  have wn: "unat (of_nat n :: 32 word) = n" using n(3) by (simp add: unat_of_nat)
  have blk: "blk x v' k = (if k = bn then n else blk x v k)" if "k < MAXFILE" for k
  proof (cases "k < NDIRECT \<or> k = bn")
    case True
    then show ?thesis using bn ind off len wn by (auto simp: blk_def v'_def get32_put32)
  next
    case False
    then have "4 * (k - NDIRECT) + 4 \<le> BSIZE" "k - NDIRECT \<noteq> bn - NDIRECT"
      using that bn by (auto simp: params)
    then show ?thesis using False ind off len by (simp add: blk_def v'_def get32_put32_other_word)
  qed
  have nb: "indirect x \<notin> bitmap_blocks y" using i(1) by (simp add: data_block_def)
  note used = block_used_upd [OF _ nb] and db = data_block_upd [OF nb]
  show "free_blocks y v' = free_blocks y v1" using used by (auto simp: free_blocks_def v'_def)
  show "layout_ok y l v'"
    using allocated_layout [OF al ly] used by (auto simp: layout_ok_def v'_def)
  have old: "data_block y l v' (blk x v k) \<and> blk x v k \<noteq> n \<and> blk x v k \<noteq> indirect x" if "k < MAXFILE" "blk x v k \<noteq> 0" for k
    using file_wfD(3,4) [OF wf that] data_block_allocated [OF al] unfolding v'_def db by blast
  show "blk x v' bn = n" using blk bn by simp
  have "data_block y l v' (indirect x)" "data_block y l v' n" using i n by (simp_all add: v'_def db)
  then show "file_wf y l v' x"
    unfolding file_wf_def using file_wfD(1,5) [OF wf] n i old blk by (auto split: if_splits)
  have "file_blocks x v' \<subseteq> insert n (file_blocks x v)" by (auto simp: file_blocks_def blk)
  then have "block_used y v' b \<and> (b \<in> file_blocks x v' \<longrightarrow> b \<in> file_blocks x v) \<and>
      (b \<notin> bitmap_blocks y \<longrightarrow> b \<noteq> indirect x \<longrightarrow> v' b = v b)"
    if "b < sb_size y" "block_used y v b" for b
  proof -
    have "b \<noteq> n" using that al by (auto simp: allocated_def free_blocks_def)
    then show ?thesis using that al used [of b v1] \<open>file_blocks x v' \<subseteq> _\<close> by (auto simp: v'_def allocated_def)
  qed
  moreover have "v' n = replicate BSIZE 0" using al i(3) by (simp add: v'_def allocated_def)
  ultimately show "grown y bn x v x v'"
    unfolding grown_def using blk b0 bn(2) n(2) by (intro conjI exI [of _ "i_addrs x"]) simp_all
qed


section \<open>bmap\<close>

lemma log_cap_NBUF: "log_cap l < NBUF"
  by (auto simp: log_cap_def params)

text \<open>A file whose inode the running process may change inside its transaction.\<close>

definition file_at :: "'a fs_state_scheme \<Rightarrow> (nat \<Rightarrow> bytes) \<Rightarrow> nat set \<Rightarrow> nat \<Rightarrow> inode \<Rightarrow> bool" where
  "file_at s v L ip x \<longleftrightarrow>
     txn s v L {} \<and> layout_ok (sb s) (log s) v \<and> ip < length (icache s) \<and> icache s ! ip = x \<and>
     i_dev x = ROOTDEV \<and> file_wf (sb s) (log s) v x"

lemma file_atD:
  assumes "file_at s v L ip x"
  shows "txn s v L {}" and "layout_ok (sb s) (log s) v" and "ip < length (icache s)" and "icache s ! ip = x"
    and "i_dev x = ROOTDEV" and "file_wf (sb s) (log s) v x"
  using assms by (simp_all add: file_at_def)

lemma area_cong:
  assumes "log_area l' = log_area l"
  shows "layout_ok y l' v = layout_ok y l v" and "data_block y l' v b = data_block y l v b"
    and "file_wf y l' v x = file_wf y l v x"
  using assms by (simp_all add: layout_ok_def data_block_def file_wf_def)

lemma file_at_fstep:
  assumes "fstep {} s s'" and "txn s' v' L' {}" and "layout_ok (sb s) (log s) v'" and "file_wf (sb s) (log s) v' x'"
    and "ip < length (icache s)" and "icache s' = (icache s)[ip := x']" and "i_dev x' = ROOTDEV"
  shows "file_at s' v' L' ip x'"
  using assms fstep_log [OF assms(1)] fstep_sb [OF assms(1)] area_cong [of "log s'" "log s"]
  by (simp add: file_at_def)

lemma bmap_entry_mapped:
  assumes t: "txn s v L {}" and a: "addr < 2 ^ 31" and L: "card L < NBUF" and nz: "get32 (4 * k) (v addr) \<noteq> 0"
  shows "\<exists>s'. bmap_entry ROOTDEV addr k s = Ok (unat (get32 (4 * k) (v addr))) s' \<and> tstep {} s s' \<and> txn s' v L {}"
proof -
  obtain i s1 where 1: "bread ROOTDEV addr s = Ok i s1" "tstep {} s s1" "buf_for s1 i addr" "txn s1 v L {addr}"
    using t_bread [OF t a] L by auto
  moreover obtain s2 where "brelse i s1 = Ok () s2" "tstep {} s s2" "txn s2 v L {}"
    using t_release [OF t _ 1(2,4,3)] by auto
  ultimately show ?thesis
    using nz buf_data_spec [OF txnD(1) [OF 1(4)] 1(3)] txnD(4) [OF 1(4)]
    by (auto simp: bmap_entry_def unat_eq_zero)
qed

lemma bmap_entry_new:
  assumes t: "txn s v L {}" and ly: "layout_ok (sb s) (log s) v" and db: "data_block (sb s) (log s) v addr"
    and L: "card L + 3 \<le> log_cap (log s)" and z: "get32 (4 * k) (v addr) = 0" and k: "k < NINDIRECT"
    and free: "free_blocks (sb s) v \<noteq> {}"
  shows "\<exists>n s' v1 L'. bmap_entry ROOTDEV addr k s = Ok n s' \<and> tstep {} s s' \<and> allocated (sb s) n v v1 \<and>
     txn s' (v1(addr := put32 (4 * k) (of_nat n) (v addr))) L' {} \<and> L \<subseteq> L' \<and> card L' \<le> card L + 3"
proof -
  have a: "addr < 2 ^ 31" "addr \<notin> bitmap_blocks (sb s)" "addr \<notin> log_area (log s)" "addr \<notin> free_blocks (sb s) v"
    using db layoutD(1) [OF ly] by (auto simp: data_block_def free_blocks_def)
  obtain i s1 where 1: "bread ROOTDEV addr s = Ok i s1" "tstep {} s s1" "buf_for s1 i addr" "txn s1 v L {addr}"
    using t_bread [OF t a(1)] L log_cap_NBUF [of "log s"] by auto
  have e1: "sb s1 = sb s" "log_cap (log s1) = log_cap (log s)" "log_area (log s1) = log_area (log s)"
    using tstep_sb [OF 1(2)] tstep_log [OF 1(2)] by simp_all
  have "balloc_room s1 (sb s1) L {addr}" "layout_ok (sb s1) (log s1) v"
    using a L e1 ly log_cap_NBUF [of "log s"] area_cong [of "log s1" "log s"] by (simp_all add: balloc_room_def)
  then obtain n s2 v1 L1 where 2: "balloc ROOTDEV s1 = Ok n s2" "tstep {} s1 s2" "txn s2 v1 L1 {addr}"
    "allocated (sb s) n v v1" "L \<subseteq> L1" "card L1 \<le> card L + 2"
    using balloc_allocates [OF 1(4)] free a(4) e1(1) by auto
  have n0: "n \<noteq> 0" using allocated_data_block [OF 2(4) ly] by simp
  have va: "v1 addr = v addr" using data_block_allocated(3) [OF 2(4) db] .
  have bf2: "buf_for s2 i addr" using tstep_keep [OF 2(2) 1(3)] by simp
  let ?d = "put32 (4 * k) (of_nat n) (v addr)"
  have d: "length ?d = BSIZE" using txn_length [OF t] k by (simp add: params length_put32)
  have "card L1 < log_cap (log s2)" "addr \<notin> log_area (log s2)"
    using L 2(6) e1 a(3) tstep_log [OF 2(2)] by simp_all
  then obtain s3 where 3: "kseq (set_data i ?d) (kseq (log_write i) (kseq (brelse i) (kret n))) s2 = kret n s3"
     "tstep {addr} s2 s3" "txn s3 (v1(addr := ?d)) (insert addr L1) ({addr} - {addr})"
    using t_modify [OF 2(3) bf2, of ?d "kret n"] d by blast
  have "tstep {} s s3"
    using tstep_unheld [OF tstep_trans [OF tstep_trans0 [OF 1(2) 2(2)] 3(2)] txnD(1) [OF t]] txnD(6) [OF t] by simp
  moreover have "bmap_entry ROOTDEV addr k s = Ok n s3"
    using 1(1) 2(1) 3(1) z n0 va buf_data_spec [OF txnD(1) [OF 1(4)] 1(3)] txnD(4) [OF 1(4)]
      buf_data_spec [OF txnD(1) [OF 2(3)] bf2] txnD(4) [OF 2(3)]
    by (simp add: bmap_entry_def kmon_assoc) (simp add: kseq_def kbind_def split: outcome.splits)
  moreover have "card (insert addr L1) \<le> card L + 3" using 2(6) card_insert_le_m1 [of "card L + 3" L1] txn_card(1) [OF 2(3)] by (simp add: card_insert_if)
  ultimately show ?thesis using 2(4,5) 3(3) by auto
qed


lemma grow_indirect_entry:
  assumes al: "allocated y a v v1" and ind: "indirect x = 0" "length (i_addrs x) = NDIRECT + 1"
    and g: "grown y bn (x\<lparr>i_addrs := (i_addrs x)[NDIRECT := a]\<rparr>) v1 x' v2" and bn: "bn < MAXFILE"
    and same: "\<And>k. k < MAXFILE \<Longrightarrow> blk (x\<lparr>i_addrs := (i_addrs x)[NDIRECT := a]\<rparr>) v1 k = blk x v k"
  shows "grown y bn x v x' v2"
proof -
  have i: "indirect (x\<lparr>i_addrs := (i_addrs x)[NDIRECT := a]\<rparr>) = a" using ind by (simp add: indirect_def)
  have fb: "file_blocks (x\<lparr>i_addrs := (i_addrs x)[NDIRECT := a]\<rparr>) v1 \<subseteq> insert a (file_blocks x v)"
    using i same by (auto simp: file_blocks_def)
  have "block_used y v2 b \<and> (b \<in> file_blocks x' v2 \<longrightarrow> b \<in> file_blocks x v) \<and> (b \<notin> bitmap_blocks y \<longrightarrow> v2 b = v b)"
    if "b < sb_size y" "block_used y v b" for b
  proof -
    have "b \<noteq> a" "block_used y v1 b" using al that by (auto simp: allocated_def free_blocks_def)
    then show ?thesis using g i al that fb by (auto simp: grown_def allocated_def)
  qed
  then show ?thesis using g same bn by (auto simp: grown_def)
qed

lemma set_inode_run: "ip < length (icache s) \<Longrightarrow> set_inode ip f s = Ok () (s\<lparr>icache := (icache s)[ip := f (icache s ! ip)]\<rparr>)"
  by (simp add: set_inode_def upd_inode_def)

lemma bmap_mapped:
  assumes f: "file_at s v L ip x" and bn: "bn < MAXFILE" and L: "card L < NBUF" and m: "blk x v bn \<noteq> 0"
  shows "\<exists>s'. bmap ip bn s = Ok (blk x v bn) s' \<and> tstep {} s s' \<and> txn s' v L {}"
proof (cases "bn < NDIRECT")
  case True
  then show ?thesis
    using m file_atD [OF f] tstep_refl [OF txnD(1)] by (auto simp: bmap_def get_inode_def blk_def)
next
  case False
  then have ind: "indirect x \<noteq> 0" "get32 (4 * (bn - NDIRECT)) (v (indirect x)) \<noteq> 0" "bn - NDIRECT < NINDIRECT"
    using m bn by (auto simp: blk_def params split: if_splits)
  have "indirect x < 2 ^ 31"
    using file_wfD(2) [OF file_atD(6) [OF f] ind(1)] layoutD(1) [OF file_atD(2) [OF f]] by (simp add: data_block_def)
  from bmap_entry_mapped [OF file_atD(1) [OF f] this L ind(2)]
  show ?thesis using False ind file_atD [OF f] by (simp add: bmap_def get_inode_def blk_def indirect_def)
qed


text \<open>What a call that had to allocate leaves: at most five more blocks in the log, at most two fewer
  free blocks.\<close>

definition bmapped :: "'a fs_state_scheme \<Rightarrow> (nat \<Rightarrow> bytes) \<Rightarrow> nat set \<Rightarrow> nat \<Rightarrow> nat \<Rightarrow> inode \<Rightarrow> nat \<Rightarrow>
    'a fs_state_scheme \<Rightarrow> (nat \<Rightarrow> bytes) \<Rightarrow> nat set \<Rightarrow> inode \<Rightarrow> bool" where
  "bmapped s v L k ip x bn s' v' L' x' \<longleftrightarrow>
     fstep {} s s' \<and> icache s' = (icache s)[ip := x'] \<and> file_at s' v' L' ip x' \<and> grown (sb s) bn x v x' v' \<and>
     L \<subseteq> L' \<and> card L' \<le> card L + 2 * k + 1 \<and> card (free_blocks (sb s) v) \<le> card (free_blocks (sb s) v') + k"

lemma allocated_card: "allocated y n v v' \<Longrightarrow> card (free_blocks y v) = card (free_blocks y v') + 1"
  using card_Suc_Diff1 [of "free_blocks y v" n] allocated_free [of y n v v'] by (simp add: free_blocks_def)

lemma bmap_direct_grows:
  assumes f: "file_at s v L ip x" and bn: "bn < NDIRECT" "blk x v bn = 0" and L: "card L + 2 \<le> log_cap (log s)"
    and free: "free_blocks (sb s) v \<noteq> {}"
  shows "\<exists>s' v' L' x'. bmap ip bn s = Ok (blk x' v' bn) s' \<and> bmapped s v L 1 ip x bn s' v' L' x'"
proof -
  note F = file_atD [OF f]
  have "balloc_room s (sb s) L {}" using L log_cap_NBUF [of "log s"] by (simp add: balloc_room_def)
  then obtain n s1 v1 L1 where 1: "balloc ROOTDEV s = Ok n s1" "tstep {} s s1" "txn s1 v1 L1 {}"
    "allocated (sb s) n v v1" "L \<subseteq> L1" "card L1 \<le> card L + 2"
    using balloc_allocates [OF F(1,2)] free by auto
  have a0: "i_addrs x ! bn = 0" using bn by (simp add: blk_def)
  note g = grow_direct [OF 1(4) F(2,6) bn(1) a0]
  let ?x = "x\<lparr>i_addrs := (i_addrs x)[bn := n]\<rparr>" and ?s = "s1\<lparr>icache := (icache s)[ip := x\<lparr>i_addrs := (i_addrs x)[bn := n]\<rparr>]\<rparr>"
  have n0: "n \<noteq> 0" using allocated_data_block [OF 1(4) F(2)] by simp
  have ic: "icache s1 = icache s" using tstep_sb [OF 1(2)] by simp
  have st: "fstep {} s ?s" using tstep_set_icache [OF 1(2)] by (simp add: fstep_def)
  have "bmap ip bn s = Ok (blk ?x v1 bn) ?s"
    using bn a0 F(3-5) 1(1) n0 ic g(3) by (simp add: bmap_def get_inode_def set_inode_run)
  moreover have "file_at ?s v1 L1 ip ?x"
    using file_at_fstep [OF st _ allocated_layout [OF 1(4) F(2)] g(2) F(3)] 1(3) F(5) by simp
  ultimately show ?thesis
    using st g(1) 1(5,6) allocated_card [OF 1(4)] unfolding bmapped_def
    by (intro exI [of _ ?s] exI [of _ v1] exI [of _ L1] exI [of _ ?x]) simp
qed

lemma bmap_entry_grows:
  assumes f: "file_at s v L ip x" and bn: "NDIRECT \<le> bn" "bn < MAXFILE" "blk x v bn = 0" "indirect x \<noteq> 0"
    and L: "card L + 3 \<le> log_cap (log s)" and free: "free_blocks (sb s) v \<noteq> {}"
  shows "\<exists>s' v' L'. bmap_entry ROOTDEV (indirect x) (bn - NDIRECT) s = Ok (blk x v' bn) s' \<and>
     bmapped s v L 1 ip x bn s' v' L' x"
proof -
  note F = file_atD [OF f]
  have z: "get32 (4 * (bn - NDIRECT)) (v (indirect x)) = 0" "bn - NDIRECT < NINDIRECT"
    using bn by (auto simp: blk_def unat_eq_zero params)
  obtain n s' v1 L' where 1: "bmap_entry ROOTDEV (indirect x) (bn - NDIRECT) s = Ok n s'" "tstep {} s s'"
     "allocated (sb s) n v v1" "txn s' (v1(indirect x := put32 (4 * (bn - NDIRECT)) (of_nat n) (v (indirect x)))) L' {}"
     "L \<subseteq> L'" "card L' \<le> card L + 3"
    using bmap_entry_new [OF F(1,2) file_wfD(2) [OF F(6) bn(4)] L z free] by blast
  note g = grow_entry [OF 1(3) F(2,6) bn(1,2,4,3) txn_length [OF F(1)]]
  have ic: "icache s' = (icache s)[ip := x]" using tstep_sb [OF 1(2)] F(4) by (metis list_update_id)
  have "file_at s' (v1(indirect x := put32 (4 * (bn - NDIRECT)) (of_nat n) (v (indirect x)))) L' ip x"
    using file_at_fstep [OF tstep_fstep [OF 1(2)] 1(4) g(5,2) F(3) ic F(5)] .
  then show ?thesis
    using 1(1,5,6) g(1,3,4) tstep_fstep [OF 1(2)] ic allocated_card [OF 1(3)] unfolding bmapped_def
    by (intro exI [of _ s'] exI [of _ "v1(indirect x := put32 (4 * (bn - NDIRECT)) (of_nat n) (v (indirect x)))"] exI [of _ L'])
      simp
qed


lemma bmap_indirect_grows:
  assumes f: "file_at s v L ip x" and bn: "NDIRECT \<le> bn" "bn < MAXFILE" "indirect x = 0"
    and L: "card L + 5 \<le> log_cap (log s)" and free: "2 \<le> card (free_blocks (sb s) v)"
  shows "\<exists>s' v' L' x'. bmap ip bn s = Ok (blk x' v' bn) s' \<and> bmapped s v L 2 ip x bn s' v' L' x'"
proof -
  note F = file_atD [OF f]
  have "balloc_room s (sb s) L {}" using L log_cap_NBUF [of "log s"] by (simp add: balloc_room_def)
  moreover have "free_blocks (sb s) v \<noteq> {}" using free by force
  ultimately obtain n s1 v1 L1 where 1: "balloc ROOTDEV s = Ok n s1" "tstep {} s s1" "txn s1 v1 L1 {}"
    "allocated (sb s) n v v1" "L \<subseteq> L1" "card L1 \<le> card L + 2"
    using balloc_allocates [OF F(1,2)] by auto
  note g = grow_indirect [OF 1(4) F(2,6) bn(3)]
  let ?x = "x\<lparr>i_addrs := (i_addrs x)[NDIRECT := n]\<rparr>" and ?s = "s1\<lparr>icache := (icache s)[ip := x\<lparr>i_addrs := (i_addrs x)[NDIRECT := n]\<rparr>]\<rparr>"
  have n0: "n \<noteq> 0" using allocated_data_block [OF 1(4) F(2)] by simp
  have ic: "icache s1 = icache s" "sb s1 = sb s" using tstep_sb [OF 1(2)] by simp_all
  have st: "fstep {} s ?s" using tstep_set_icache [OF 1(2)] by (simp add: fstep_def)
  have f1: "file_at ?s v1 L1 ip ?x"
    using file_at_fstep [OF st _ allocated_layout [OF 1(4) F(2)] g(1) F(3)] 1(3) F(5) by simp
  have L1: "card L1 + 3 \<le> log_cap (log ?s)" using L 1(6) tstep_log [OF 1(2)] by simp
  have fr: "free_blocks (sb ?s) v1 \<noteq> {}" using free allocated_card [OF 1(4)] ic by force
  have rng: "bn - NDIRECT < NINDIRECT" "\<not> bn < NDIRECT" using bn by (auto simp: params)
  then have "blk ?x v1 bn = 0" unfolding g(3) [OF bn(2)] using bn(3) by (simp add: blk_def)
  from bmap_entry_grows [OF f1 bn(1,2) this _ L1 fr] obtain s' v' L' where
    2: "bmap_entry ROOTDEV n (bn - NDIRECT) ?s = Ok (blk ?x v' bn) s'" "bmapped ?s v1 L1 1 ip ?x bn s' v' L' ?x"
    using g(2) n0 by auto
  have "bmap ip bn s = Ok (blk ?x v' bn) s'"
    using bn(3) rng F(3-5) 1(1) n0 ic 2(1) by (simp add: bmap_def get_inode_def set_inode_run indirect_def)
  moreover have "grown (sb s) bn x v ?x v'"
    using grow_indirect_entry [OF 1(4) bn(3) file_wfD(1) [OF F(6)] _ bn(2)] g(3) 2(2) ic by (simp add: bmapped_def)
  ultimately show ?thesis
    using 2(2) st 1(5,6) allocated_card [OF 1(4)] ic fstep_trans0 [OF st, of s'] subset_trans [OF 1(5), of L'] unfolding bmapped_def
    by (intro exI [of _ s'] exI [of _ v'] exI [of _ L'] exI [of _ ?x]) simp
qed

lemma bmapped_mono: "bmapped s v L k ip x bn s' v' L' x' \<Longrightarrow> k \<le> m \<Longrightarrow> bmapped s v L m ip x bn s' v' L' x'"
  by (simp add: bmapped_def)

lemma bmap_spec:
  assumes f: "file_at s v L ip x" and bn: "bn < MAXFILE"
    and L: "card L + 5 \<le> log_cap (log s)" and free: "2 \<le> card (free_blocks (sb s) v)"
  shows "\<exists>s' v' L' x'. bmap ip bn s = Ok (blk x' v' bn) s' \<and> bmapped s v L 2 ip x bn s' v' L' x'"
proof -
  note F = file_atD [OF f]
  have fr: "free_blocks (sb s) v \<noteq> {}" using free by force
  consider (a) "blk x v bn \<noteq> 0" | (b) "blk x v bn = 0" "bn < NDIRECT" | (c) "NDIRECT \<le> bn" "indirect x = 0"
    | (d) "blk x v bn = 0" "NDIRECT \<le> bn" "indirect x \<noteq> 0" by linarith
  then show ?thesis
  proof cases
    case a
    have "card L < NBUF" using L log_cap_NBUF [of "log s"] by simp
    from bmap_mapped [OF f bn this a] obtain s' where 1: "bmap ip bn s = Ok (blk x v bn) s'" "tstep {} s s'" "txn s' v L {}"
      by blast
    have ic: "icache s' = (icache s)[ip := x]" using tstep_sb [OF 1(2)] F(4) by (metis list_update_id)
    have "file_at s' v L ip x" by (rule file_at_fstep [OF tstep_fstep [OF 1(2)] 1(3) F(2,6,3) ic F(5)])
    then have "bmapped s v L 2 ip x bn s' v L x"
      using 1(2) ic a by (simp add: bmapped_def tstep_fstep grown_refl)
    then show ?thesis using 1(1) by blast
  next
    case b
    then show ?thesis using bmap_direct_grows [OF f b(2,1) _ fr] L bmapped_mono [where m = 2] by fastforce
  next
    case c
    then show ?thesis using bmap_indirect_grows [OF f c(1) bn c(2) L free] by blast
  next
    case d
    have "bn - NDIRECT < NINDIRECT" "\<not> bn < NDIRECT" using bn d(2) by (auto simp: params)
    then have "bmap ip bn s = bmap_entry ROOTDEV (indirect x) (bn - NDIRECT) s"
      using d F(3-5) by (simp add: bmap_def get_inode_def indirect_def)
    then show ?thesis using bmap_entry_grows [OF f d(2) bn d(1,3) _ fr] L bmapped_mono [where m = 2] by fastforce
  qed
qed

end
