(* ===== verification/Fs_Data.thy ===== *)
theory Fs_Data
  imports Inode_Map Fs Vm_Spec
begin

text \<open>
  The contents of a file, and the correctness of \<^verbatim>\<open>readi\<close> and \<^verbatim>\<open>writei\<close> of \<^verbatim>\<open>src/kernel/fs.c\<close>: a file is a
  list of bytes, a read returns a part of it and a write replaces a part of it and may extend it.
\<close>

section \<open>The contents of a file\<close>

definition file_byte :: "inode \<Rightarrow> (nat \<Rightarrow> bytes) \<Rightarrow> nat \<Rightarrow> uchar" where
  "file_byte x v i = v (blk x v (i div BSIZE)) ! (i mod BSIZE)"

text \<open>Every byte below the size has a block.\<close>

definition file_full :: "inode \<Rightarrow> (nat \<Rightarrow> bytes) \<Rightarrow> bool" where
  "file_full x v \<longleftrightarrow> i_size x \<le> MAXFILE * BSIZE \<and> (\<forall>k. k * BSIZE < i_size x \<longrightarrow> blk x v k \<noteq> 0)"

text \<open>\<open>contents x v\<close> is the file as its readers see it.\<close>

definition contents :: "inode \<Rightarrow> (nat \<Rightarrow> bytes) \<Rightarrow> bytes" where
  "contents x v = map (file_byte x v) [0..<i_size x]"

text \<open>\<open>wrote y off bs x v x' v'\<close>: the bytes \<open>bs\<close> are at \<open>off\<close>; the bytes outside, the mapping of the
  blocks there were, and the used blocks of the rest of the disk are as before.\<close>

definition wrote :: "superblock \<Rightarrow> nat \<Rightarrow> bytes \<Rightarrow> inode \<Rightarrow> (nat \<Rightarrow> bytes) \<Rightarrow> inode \<Rightarrow> (nat \<Rightarrow> bytes) \<Rightarrow> bool" where
  "wrote y off bs x v x' v' \<longleftrightarrow>
     (\<exists>as. x' = x\<lparr>i_addrs := as\<rparr>) \<and>
     (\<forall>k<MAXFILE. blk x v k \<noteq> 0 \<longrightarrow> blk x' v' k = blk x v k) \<and>
     (\<forall>i. off \<le> i \<longrightarrow> i < off + length bs \<longrightarrow> blk x' v' (i div BSIZE) \<noteq> 0 \<and> file_byte x' v' i = bs ! (i - off)) \<and>
     (\<forall>i<MAXFILE * BSIZE. blk x v (i div BSIZE) \<noteq> 0 \<longrightarrow> i < off \<or> off + length bs \<le> i \<longrightarrow> file_byte x' v' i = file_byte x v i) \<and>
     (\<forall>b < sb_size y. block_used y v b \<longrightarrow> block_used y v' b \<and>
        (b \<notin> bitmap_blocks y \<longrightarrow> b \<notin> file_blocks x v \<longrightarrow> b \<notin> file_blocks x' v' \<and> v' b = v b))"

lemma div_BSIZE_less: "i < MAXFILE * BSIZE \<Longrightarrow> i div BSIZE < MAXFILE"
  by (simp add: less_mult_imp_div_less)

lemma wrote_Nil: "wrote y off [] x v x v"
  unfolding wrote_def by (intro conjI exI [of _ "i_addrs x"]) auto

lemma wrote_append:
  assumes 1: "wrote y off bs x v x1 v1" and 2: "wrote y (off + length bs) cs x1 v1 x2 v2"
    and lim: "off + length bs \<le> MAXFILE * BSIZE"
  shows "wrote y off (bs @ cs) x v x2 v2"
  unfolding wrote_def
proof (intro conjI allI impI)
  show "\<exists>as. x2 = x\<lparr>i_addrs := as\<rparr>" using 1 2 by (auto simp: wrote_def)
  show "blk x2 v2 k = blk x v k" if "k < MAXFILE" "blk x v k \<noteq> 0" for k
    using 1 2 that by (simp add: wrote_def)
  fix i
  show "blk x2 v2 (i div BSIZE) \<noteq> 0" "file_byte x2 v2 i = (bs @ cs) ! (i - off)"
    if "off \<le> i" "i < off + length (bs @ cs)"
  proof -
    have *: "blk x2 v2 (i div BSIZE) \<noteq> 0 \<and> file_byte x2 v2 i = (bs @ cs) ! (i - off)"
    proof (cases "i < off + length bs")
      case True
      then have lt: "i < MAXFILE * BSIZE" using lim by simp
      have "blk x1 v1 (i div BSIZE) \<noteq> 0" "file_byte x1 v1 i = bs ! (i - off)"
        using 1 True that by (simp_all add: wrote_def)
      moreover have "i - off < length bs" using True that by linarith
      ultimately show ?thesis using 2 True that lt div_BSIZE_less [OF lt] by (simp add: wrote_def nth_append)
    next
      case False
      moreover have "\<not> i - off < length bs" using False by linarith
      ultimately show ?thesis using 2 that by (simp add: wrote_def nth_append)
    qed
    then show "blk x2 v2 (i div BSIZE) \<noteq> 0" "file_byte x2 v2 i = (bs @ cs) ! (i - off)" by simp_all
  qed
  show "file_byte x2 v2 i = file_byte x v i"
    if "i < MAXFILE * BSIZE" "blk x v (i div BSIZE) \<noteq> 0" "i < off \<or> off + length (bs @ cs) \<le> i"
  proof -
    have "blk x1 v1 (i div BSIZE) \<noteq> 0" "file_byte x1 v1 i = file_byte x v i"
      using 1 that div_BSIZE_less [OF that(1)] by (auto simp: wrote_def)
    then show ?thesis using 2 that by (auto simp: wrote_def)
  qed
next
  fix b assume b: "b < sb_size y" "block_used y v b"
  then have 3: "block_used y v1 b" using 1 by (simp add: wrote_def)
  then show "block_used y v2 b" using 2 b by (simp add: wrote_def)
  assume "b \<notin> bitmap_blocks y" "b \<notin> file_blocks x v"
  then show "b \<notin> file_blocks x2 v2" "v2 b = v b" using 1 2 3 b by (simp_all add: wrote_def)
qed


text \<open>\<^verbatim>\<open>bmap\<close> writes nothing that a reader of the file can see.\<close>

lemma grown_wrote:
  assumes g: "grown y bn x v x' v'" and wf: "file_wf y l v x" and bn: "bn < MAXFILE"
  shows "wrote y off [] x v x' v'"
proof -
  have keep: "blk x' v' k = blk x v k" if "k < MAXFILE" "blk x v k \<noteq> 0" for k
    using g that by (auto simp: grown_def)
  have "file_byte x' v' i = file_byte x v i" if "i < MAXFILE * BSIZE" "blk x v (i div BSIZE) \<noteq> 0" for i
  proof -
    let ?b = "blk x v (i div BSIZE)"
    note k = div_BSIZE_less [OF that(1)]
    have "data_block y l v ?b" "?b \<noteq> indirect x" using file_wfD(3,4) [OF wf k that(2)] .
    then have "v' ?b = v ?b" using g by (simp add: grown_def data_block_def)
    then show ?thesis using keep [OF k that(2)] by (simp add: file_byte_def)
  qed
  moreover have "b \<noteq> indirect x" if "b \<notin> file_blocks x v" for b using that by (auto simp: file_blocks_def)
  ultimately show ?thesis
    using g keep unfolding wrote_def by (intro conjI) (auto simp: grown_def)
qed

text \<open>A change of the bytes of one block of the file.\<close>

lemma chunk_wrote:
  assumes wf: "file_wf y l v x" and ly: "layout_ok y l v" and k: "k < MAXFILE" "blk x v k \<noteq> 0"
    and o: "off div BSIZE = k" "off mod BSIZE + length bs \<le> BSIZE" and len: "length (v (blk x v k)) = BSIZE"
  defines "v' \<equiv> v(blk x v k := put_bytes (off mod BSIZE) bs (v (blk x v k)))"
  shows "wrote y off bs x v x v'" and "file_wf y l v' x" and "layout_ok y l v'" and "free_blocks y v' = free_blocks y v"
proof -
  let ?a = "blk x v k"
  have a: "data_block y l v ?a" "?a \<noteq> indirect x" using file_wfD(3,4) [OF wf k] .
  then have nb: "?a \<notin> bitmap_blocks y" by (simp add: data_block_def)
  note used = block_used_upd [OF _ nb]
  have blk: "blk x v' j = blk x v j" for j using a(2) by (simp add: blk_def v'_def)
  show "free_blocks y v' = free_blocks y v" using used by (auto simp: free_blocks_def v'_def)
  show "layout_ok y l v'" using ly used by (auto simp: layout_ok_def v'_def)
  show "file_wf y l v' x" using wf data_block_upd [OF nb] unfolding file_wf_def blk by (simp add: v'_def)
  have fb: "file_byte x v' i = (if off \<le> i \<and> i < off + length bs then bs ! (i - off) else file_byte x v i)"
    if i: "i < MAXFILE * BSIZE" "blk x v (i div BSIZE) \<noteq> 0" for i
  proof (cases "i div BSIZE = k")
    case True
    have "off = k * BSIZE + off mod BSIZE" "i = k * BSIZE + i mod BSIZE"
      using o(1) True by (metis div_mult_mod_eq)+
    then have eq: "off mod BSIZE \<le> i mod BSIZE \<longleftrightarrow> off \<le> i" "i mod BSIZE < off mod BSIZE + length bs \<longleftrightarrow> i < off + length bs"
      "i mod BSIZE - off mod BSIZE = i - off" by linarith+
    have "i mod BSIZE < BSIZE" by (simp add: BSIZE_def)
    then show ?thesis unfolding file_byte_def blk using True o(2) len eq by (simp add: v'_def nth_put_bytes)
  next
    case False
    then have "blk x v (i div BSIZE) \<noteq> ?a" using file_wfD(5) [OF wf k(1) div_BSIZE_less [OF i(1)] k(2)] by auto
    moreover have "\<not> (off \<le> i \<and> i < off + length bs)"
    proof
      assume *: "off \<le> i \<and> i < off + length bs"
      then have "i < k * BSIZE + BSIZE" "k * BSIZE \<le> i"
        using o div_mult_mod_eq [of off BSIZE] by (auto intro: order_trans)
      then show False using False by (metis add.commute div_nat_eqI mult.commute mult_Suc)
    qed
    ultimately show ?thesis unfolding file_byte_def blk by (auto simp: v'_def)
  qed
  have rng: "i div BSIZE = k" "i < MAXFILE * BSIZE" if "off \<le> i" "i < off + length bs" for i
  proof -
    have b: "i < k * BSIZE + BSIZE" "k * BSIZE \<le> i"
      using o div_mult_mod_eq [of off BSIZE] that by (auto intro: order_trans)
    then show "i div BSIZE = k" by (metis add.commute div_nat_eqI mult.commute mult_Suc)
    have "Suc k * BSIZE \<le> MAXFILE * BSIZE" using k(1) by (intro mult_right_mono) auto
    then show "i < MAXFILE * BSIZE" using b(1) by simp
  qed
  have "b \<notin> file_blocks x v \<Longrightarrow> v' b = v b" for b using k by (auto simp: file_blocks_def v'_def)
  moreover have "file_blocks x v' = file_blocks x v" by (simp add: file_blocks_def blk)
  ultimately show "wrote y off bs x v x v'"
    unfolding wrote_def blk using fb rng used [of _ v] k(2) by (intro conjI exI [of _ "i_addrs x"]) (auto simp: v'_def)
qed


section \<open>Sources of a copy\<close>

text \<open>\<open>supplies s src bs\<close>: in state \<open>s\<close> every piece of \<open>src\<close> can be read and is that piece of \<open>bs\<close>.\<close>

definition supplies :: "'a fs_state_scheme \<Rightarrow> source \<Rightarrow> bytes \<Rightarrow> bool" where
  "supplies s src bs \<longleftrightarrow>
     (\<forall>k m. k + m \<le> length bs \<longrightarrow> copy_from (adv_source src k) m s = Ok (0, take m (drop k bs)) s)"

lemma adv_source_add: "adv_source (adv_source src j) k = adv_source src (j + k)"
  by (cases src) (simp_all add: adv_source_def add.commute)

lemma adv_source_0 [simp]: "adv_source src 0 = src"
  by (cases src) (simp_all add: adv_source_def)

lemma supplies_local: "supplies s (LocalSrc bs) bs"
  by (simp add: supplies_def adv_source_def copy_from_def)

lemma supplies_adv: "supplies s src bs \<Longrightarrow> m \<le> length bs \<Longrightarrow> supplies s (adv_source src m) (drop m bs)"
  unfolding supplies_def adv_source_add drop_drop length_drop by (auto simp: add.commute)

lemma copy_from_reads:
  assumes "mem s' = mem s" and "p_pagetable (myproc_of s') = p_pagetable (myproc_of s)"
  shows "\<exists>r. copy_from src m s = Ok r s \<and> copy_from src m s' = Ok r s'"
  using copyin_reads [OF assms(1)] assms
  by (cases src) (auto simp: copy_from_def either_copyin_def myproc_def)

lemma supplies_frame:
  assumes "mem s' = mem s" and "p_pagetable (myproc_of s') = p_pagetable (myproc_of s)" and "supplies s src bs"
  shows "supplies s' src bs"
  unfolding supplies_def
proof (intro allI impI)
  fix k m assume "k + m \<le> length bs"
  then have "copy_from (adv_source src k) m s = Ok (0, take m (drop k bs)) s" using assms(3) by (simp add: supplies_def)
  then show "copy_from (adv_source src k) m s' = Ok (0, take m (drop k bs)) s'"
    using copy_from_reads [OF assms(1,2), of "adv_source src k" m] by auto
qed

section \<open>writei\<close>

text \<open>What a write that went through \<open>n\<close> blocks leaves.\<close>

definition written :: "'a fs_state_scheme \<Rightarrow> (nat \<Rightarrow> bytes) \<Rightarrow> nat set \<Rightarrow> nat \<Rightarrow> nat \<Rightarrow> inode \<Rightarrow> nat \<Rightarrow> bytes \<Rightarrow>
    'a fs_state_scheme \<Rightarrow> (nat \<Rightarrow> bytes) \<Rightarrow> nat set \<Rightarrow> inode \<Rightarrow> bool" where
  "written s v L n ip x off bs s' v' L' x' \<longleftrightarrow>
     fstep {} s s' \<and> icache s' = (icache s)[ip := x'] \<and> file_at s' v' L' ip x' \<and> wrote (sb s) off bs x v x' v' \<and>
     L \<subseteq> L' \<and> card L' \<le> card L + 6 * n \<and> card (free_blocks (sb s) v) \<le> card (free_blocks (sb s) v') + 2 * n"

lemma written_Nil:
  assumes "file_at s v L ip x"
  shows "written s v L 0 ip x off [] s v L x"
proof -
  have "(icache s)[ip := x] = icache s" using file_atD(4) [OF assms] by (metis list_update_id)
  then show ?thesis
    using assms tstep_fstep [OF tstep_refl [OF txnD(1) [OF file_atD(1) [OF assms]]]] by (simp add: written_def wrote_Nil)
qed

lemma written_append:
  assumes "written s v L n ip x off bs s1 v1 L1 x1" and "written s1 v1 L1 m ip x1 (off + length bs) cs s2 v2 L2 x2"
    and "off + length bs \<le> MAXFILE * BSIZE"
  shows "written s v L (n + m) ip x off (bs @ cs) s2 v2 L2 x2"
proof -
  have 1: "fstep {} s s1" "fstep {} s1 s2" "L \<subseteq> L1" "L1 \<subseteq> L2" using assms by (simp_all add: written_def)
  have "sb s1 = sb s" using fstep_sb [OF 1(1)] by simp
  then show ?thesis
    using assms fstep_trans0 [OF 1(1,2)] subset_trans [OF 1(3,4)] wrote_append [of "sb s" off bs x v x1 v1 cs x2 v2]
    by (simp add: written_def)
qed

lemma block_chunk_bounds:
  assumes "0 < rem"
  shows "block_chunk off rem \<le> rem" and "off mod BSIZE + block_chunk off rem \<le> BSIZE" and "0 < block_chunk off rem"
  using block_chunk_pos [OF assms] by (auto simp: block_chunk_def BSIZE_def)

text \<open>The part of an iteration after \<^verbatim>\<open>bmap\<close>.\<close>

lemma write_block:
  assumes f: "file_at s v L ip x" and bn: "bn < MAXFILE" "blk x v bn \<noteq> 0" and L: "card L < log_cap (log s)"
    and off: "off div BSIZE = bn" "off mod BSIZE + length bs \<le> BSIZE"
    and cp: "\<And>s'. tstep {} s s' \<Longrightarrow> copy_from src (length bs) s' = Ok (0, bs) s'"
  defines "a \<equiv> blk x v bn"
  defines "v' \<equiv> v(a := put_bytes (off mod BSIZE) bs (v a))"
  shows "\<exists>s'. kbind (bread ROOTDEV a) (\<lambda>bp.
        kbind (copy_from src (length bs)) (\<lambda>(r, bs).
        kbind (buf_data bp) (\<lambda>d.
        kseq (set_data bp (put_bytes (off mod BSIZE) bs d))
        (if r = -1 then M bp else kseq (log_write bp) (kseq (brelse bp) K))))) s = K s' \<and>
     fstep {} s s' \<and> icache s' = (icache s)[ip := x] \<and> file_at s' v' (insert a L) ip x \<and> wrote (sb s) off bs x v x v' \<and>
     free_blocks (sb s) v' = free_blocks (sb s) v"
proof -
  note F = file_atD [OF f]
  have a: "a < 2 ^ 31" "a \<notin> log_area (log s)"
    using file_wfD(3) [OF F(6) bn] layoutD(1) [OF F(2)] by (simp_all add: data_block_def a_def)
  obtain i s1 where 1: "bread ROOTDEV a s = Ok i s1" "tstep {} s s1" "buf_for s1 i a" "txn s1 v L {a}"
    using t_bread [OF F(1) a(1)] L log_cap_NBUF [of "log s"] by auto
  let ?d = "put_bytes (off mod BSIZE) bs (v a)"
  have d: "length ?d = BSIZE" using off txn_length [OF F(1)] by simp
  have "card L < log_cap (log s1)" "a \<notin> log_area (log s1)" using L a tstep_log [OF 1(2)] by simp_all
  from t_modify [OF 1(4,3) this d] obtain s2 where
    2: "kseq (set_data i ?d) (kseq (log_write i) (kseq (brelse i) K)) s1 = K s2" "tstep {a} s1 s2"
       "txn s2 v' (insert a L) ({a} - {a})" unfolding v'_def by blast
  have st: "tstep {} s s2"
    using tstep_unheld [OF tstep_trans [OF 1(2) 2(2)] txnD(1) [OF F(1)]] txnD(6) [OF F(1)] by simp
  note w = chunk_wrote [OF F(6,2) bn off txn_length [OF F(1)], folded a_def, folded v'_def]
  have ic: "icache s2 = (icache s)[ip := x]" using tstep_sb [OF st] F(4) by (metis list_update_id)
  have t2: "txn s2 v' (insert a L) {}" using 2(3) by simp
  have "file_at s2 v' (insert a L) ip x"
    by (rule file_at_fstep [OF tstep_fstep [OF st] t2 w(3,2) F(3) ic F(5)])
  then show ?thesis
    using 1(1) 2(1) cp [OF 1(2)] buf_data_spec [OF txnD(1) [OF 1(4)] 1(3)] txnD(4) [OF 1(4)] tstep_fstep [OF st] ic w(1,4)
    by auto
qed

lemma writei_iter:
  assumes f: "file_at s v L ip x" and bs: "bs \<noteq> []" and lim: "off + length bs \<le> MAXFILE * BSIZE" and src: "supplies s src bs"
    and L: "card L + 6 \<le> log_cap (log s)" and free: "2 \<le> card (free_blocks (sb s) v)" and cur: "cur s < length (procs s)"
  defines "m \<equiv> block_chunk off (length bs)"
  shows "\<exists>s' v' L' x'. writei_loop ip src off (length bs) s = writei_loop ip (adv_source src m) (off + m) (length bs - m) s' \<and>
     written s v L 1 ip x off (take m bs) s' v' L' x'"
proof -
  have m: "m \<le> length bs" "off mod BSIZE + m \<le> BSIZE" "0 < m"
    using block_chunk_bounds [of "length bs" off] bs by (simp_all add: m_def)
  let ?bn = "off div BSIZE" and ?bs = "take m bs"
  have bn: "?bn < MAXFILE" using lim bs by (intro div_BSIZE_less) (cases bs, auto)
  have "card L + 5 \<le> log_cap (log s)" using L by simp
  from bmap_spec [OF f bn this free] obtain s1 v1 L1 x1 where
    1: "bmap ip ?bn s = Ok (blk x1 v1 ?bn) s1" "bmapped s v L 2 ip x ?bn s1 v1 L1 x1" by blast
  then have st1: "fstep {} s s1" and f1: "file_at s1 v1 L1 ip x1" and g: "grown (sb s) ?bn x v x1 v1" and L1: "L \<subseteq> L1" "card L1 \<le> card L + 5"
    and ic1: "icache s1 = (icache s)[ip := x1]" and fr1: "card (free_blocks (sb s) v) \<le> card (free_blocks (sb s) v1) + 2"
    by (simp_all add: bmapped_def)
  note F = file_atD [OF f]
  have e1: "sb s1 = sb s" "log_cap (log s1) = log_cap (log s)" using fstep_sb [OF st1] fstep_log [OF st1] by simp_all
  have cp: "copy_from src (length ?bs) s2 = Ok (0, ?bs) s2" if "tstep {} s1 s2" for s2
  proof -
    note st2 = fstep_trans0 [OF st1 tstep_fstep [OF that]]
    have "supplies s2 src bs" using supplies_frame [OF _ woken_myproc(1) [OF st2 cur] src] fstep_sb [OF st2] by simp
    then have "0 + m \<le> length bs \<longrightarrow> copy_from (adv_source src 0) m s2 = Ok (0, take m (drop 0 bs)) s2"
      unfolding supplies_def by blast
    then show ?thesis using m(1) by (simp add: min_def)
  qed
  have a0: "blk x1 v1 ?bn \<noteq> 0" and o: "off mod BSIZE + length ?bs \<le> BSIZE" and c: "card L1 < log_cap (log s1)"
    using g m L L1 e1 by (simp_all add: grown_def)
  let ?a = "blk x1 v1 ?bn" and ?K = "writei_loop ip (adv_source src m) (off + m) (length bs - m)"
  let ?v = "v1(?a := put_bytes (off mod BSIZE) ?bs (v1 ?a))"
  have lm: "length ?bs = m" using m(1) by simp
  from write_block [OF f1 bn a0 c refl o cp, where K = ?K and M = "\<lambda>bp. kseq (brelse bp) (kret off)", unfolded lm]
  obtain s2 where 2: "kbind (bread ROOTDEV ?a) (\<lambda>bp. kbind (copy_from src m) (\<lambda>(r, bs). kbind (buf_data bp) (\<lambda>d.
        kseq (set_data bp (put_bytes (off mod BSIZE) bs d))
        (if r = -1 then kseq (brelse bp) (kret off) else kseq (log_write bp) (kseq (brelse bp) ?K))))) s1 = ?K s2"
     "fstep {} s1 s2" "icache s2 = (icache s1)[ip := x1]" "file_at s2 ?v (insert ?a L1) ip x1"
     "wrote (sb s1) off ?bs x1 v1 x1 ?v" "free_blocks (sb s1) ?v = free_blocks (sb s1) v1"
    by blast
  have run: "writei_loop ip src off (length bs) s = ?K s2"
    using 1(1) 2(1) bs F(4,5) by (simp add: writei_loop.simps [of ip src off "length bs"] get_inode_def m_def [symmetric])
  have "wrote (sb s) off ?bs x v x1 ?v"
    using wrote_append [OF grown_wrote [OF g F(6) bn, of off]] 2(5) lim e1(1) by simp
  moreover have "card (insert ?a L1) \<le> card L + 6" using L1(2) txn_card(1) [OF file_atD(1) [OF f1]] by (simp add: card_insert_if)
  ultimately have "written s v L 1 ip x off ?bs s2 ?v (insert ?a L1) x1"
    using fstep_trans0 [OF st1 2(2)] ic1 2(3,4,6) L1(1) fr1 e1(1) by (auto simp: written_def)
  then show ?thesis using run by blast
qed


text \<open>The number of blocks that \<open>n\<close> bytes at \<open>off\<close> lie in.\<close>

definition span_blocks :: "nat \<Rightarrow> nat \<Rightarrow> nat" where
  "span_blocks off n = (if n = 0 then 0 else (off + n - 1) div BSIZE - off div BSIZE + 1)"

lemma span_blocks_step:
  assumes "0 < n"
  shows "span_blocks off n = span_blocks (off + block_chunk off n) (n - block_chunk off n) + 1"
proof (cases "n \<le> BSIZE - off mod BSIZE")
  case True
  have "off = off div BSIZE * BSIZE + off mod BSIZE" "off mod BSIZE < BSIZE" by (simp_all add: BSIZE_def)
  then have "off + n - 1 < off div BSIZE * BSIZE + BSIZE" "off div BSIZE * BSIZE \<le> off + n - 1"
    using True assms by linarith+
  then have "(off + n - 1) div BSIZE = off div BSIZE" by (metis add.commute div_nat_eqI mult.commute mult_Suc)
  then show ?thesis using True assms by (simp add: span_blocks_def block_chunk_def)
next
  case False
  have e: "off + (BSIZE - off mod BSIZE) = Suc (off div BSIZE) * BSIZE"
  proof -
    have "off = off div BSIZE * BSIZE + off mod BSIZE" "off mod BSIZE < BSIZE" by (simp_all add: BSIZE_def)
    then show ?thesis unfolding mult_Suc by linarith
  qed
  have "Suc (off div BSIZE) * BSIZE \<le> off + n - 1" using e False by linarith
  then have "Suc (off div BSIZE) \<le> (off + n - 1) div BSIZE"
    by (metis BSIZE_def div_le_mono nonzero_mult_div_cancel_right zero_neq_numeral)
  moreover have "span_blocks (off + block_chunk off n) (n - block_chunk off n) = (off + n - 1) div BSIZE - Suc (off div BSIZE) + 1"
  proof -
    have c: "block_chunk off n = BSIZE - off mod BSIZE" using False by (simp add: block_chunk_def)
    have "off + (BSIZE - off mod BSIZE) + (n - (BSIZE - off mod BSIZE)) - 1 = off + n - 1" "n - (BSIZE - off mod BSIZE) \<noteq> 0"
      using False by linarith+
    then show ?thesis unfolding span_blocks_def c e by (simp add: BSIZE_def)
  qed
  moreover have "span_blocks off n = (off + n - 1) div BSIZE - off div BSIZE + 1" using assms by (simp add: span_blocks_def)
  ultimately show ?thesis by linarith
qed

lemma writei_loop_spec:
  assumes "file_at s v L ip x" and "off + length bs \<le> MAXFILE * BSIZE" and "supplies s src bs"
    and "card L + 6 * span_blocks off (length bs) \<le> log_cap (log s)"
    and "2 * span_blocks off (length bs) \<le> card (free_blocks (sb s) v)" and "cur s < length (procs s)"
  shows "\<exists>s' v' L' x'. writei_loop ip src off (length bs) s = Ok (off + length bs) s' \<and>
     written s v L (span_blocks off (length bs)) ip x off bs s' v' L' x'"
  using assms
proof (induction bs arbitrary: s v L x src off rule: length_induct)
  case (1 bs)
  note f = 1(2) and lim = 1(3) and src = 1(4) and L = 1(5) and free = 1(6) and cur = 1(7)
  show ?case
  proof (cases "bs = []")
    case True
    have "span_blocks off (length bs) = 0" "writei_loop ip src off (length bs) s = Ok (off + length bs) s"
      using True by (simp_all add: writei_loop.simps span_blocks_def)
    then show ?thesis using written_Nil [OF f, of off] True by auto
  next
    case False
    define m where "m = block_chunk off (length bs)"
    have m: "m \<le> length bs" "0 < m" using block_chunk_bounds [of "length bs" off] False by (simp_all add: m_def)
    have sp: "span_blocks off (length bs) = span_blocks (off + m) (length (drop m bs)) + 1"
      using span_blocks_step [of "length bs" off] False by (simp add: m_def)
    obtain s1 v1 L1 x1 where 2: "writei_loop ip src off (length bs) s = writei_loop ip (adv_source src m) (off + m) (length (drop m bs)) s1"
      "written s v L 1 ip x off (take m bs) s1 v1 L1 x1"
      using writei_iter [OF f False lim src _ _ cur] L free sp by (auto simp: m_def)
    have st: "fstep {} s s1" and f1: "file_at s1 v1 L1 ip x1" and L1: "card L1 \<le> card L + 6"
      and fr: "card (free_blocks (sb s) v) \<le> card (free_blocks (sb s) v1) + 2" using 2(2) by (simp_all add: written_def)
    have "supplies s1 (adv_source src m) (drop m bs)"
      using supplies_adv [OF supplies_frame [OF _ woken_myproc(1) [OF st cur] src] m(1)] fstep_sb [OF st] by simp
    moreover have "length (drop m bs) < length bs" using m False by (cases bs) auto
    moreover have "cur s1 < length (procs s1)" using cur fstep_proc(1) [OF st] woken_length [OF fstep_proc(2) [OF st]] by simp
    ultimately obtain s2 v2 L2 x2 where 3: "writei_loop ip (adv_source src m) (off + m) (length (drop m bs)) s1 = Ok (off + m + length (drop m bs)) s2"
      "written s1 v1 L1 (span_blocks (off + m) (length (drop m bs))) ip x1 (off + m) (drop m bs) s2 v2 L2 x2"
      using 1(1) [rule_format, OF _ f1, of "drop m bs" "off + m" "adv_source src m"] m lim L L1 free fr sp fstep_sb [OF st] fstep_log [OF st] by auto
    have "written s v L (span_blocks off (length bs)) ip x off (take m bs @ drop m bs) s2 v2 L2 x2"
      unfolding sp using written_append [OF 2(2), of "span_blocks (off + m) (length (drop m bs))" "drop m bs" s2 v2 L2 x2] 3(2) m lim
      by (simp add: add.commute)
    then show ?thesis using 2(1) 3(1) m by auto
  qed
qed


text \<open>An update of an inode block leaves the data of every file as it is.\<close>

lemma meta_upd:
  assumes ly: "layout_ok y l v" and wf: "file_wf y l v x" and b: "b \<in> inode_blocks y"
  shows "blk x (v(b := d)) k = blk x v k" and "file_wf y l (v(b := d)) x" and "layout_ok y l (v(b := d))"
    and "free_blocks y (v(b := d)) = free_blocks y v"
    and "i < MAXFILE * BSIZE \<Longrightarrow> blk x v (i div BSIZE) \<noteq> 0 \<Longrightarrow> file_byte x (v(b := d)) i = file_byte x v i"
proof -
  have nb: "b \<notin> bitmap_blocks y" using layoutD(3) [OF ly b] by simp
  have "indirect x \<noteq> 0 \<Longrightarrow> indirect x \<noteq> b" using file_wfD(2) [OF wf] b by (auto simp: data_block_def)
  then show blk: "blk x (v(b := d)) k = blk x v k" for k by (auto simp: blk_def)
  show "file_wf y l (v(b := d)) x" using wf unfolding file_wf_def blk data_block_upd [OF nb] .
  show "layout_ok y l (v(b := d))" using ly block_used_upd [OF _ nb] by (auto simp: layout_ok_def)
  show "free_blocks y (v(b := d)) = free_blocks y v" using block_used_upd [OF _ nb] by (auto simp: free_blocks_def)
  assume i: "i < MAXFILE * BSIZE" "blk x v (i div BSIZE) \<noteq> 0"
  have "blk x v (i div BSIZE) \<noteq> b" using file_wfD(3) [OF wf div_BSIZE_less [OF i(1)] i(2)] b by (auto simp: data_block_def)
  then show "file_byte x (v(b := d)) i = file_byte x v i" by (simp add: file_byte_def blk)
qed

text \<open>The abstract effect of a write: the bytes replace those at \<open>off\<close> or extend the file.\<close>

lemma wrote_contents:
  assumes w: "wrote y off bs x v x1 v1" and full: "file_full x v" and off: "off \<le> i_size x" and lim: "off + length bs \<le> MAXFILE * BSIZE"
  defines "x2 \<equiv> x1\<lparr>i_size := max (i_size x) (off + length bs)\<rparr>"
  shows "contents x2 v1 = put_bytes off bs (contents x v)" and "file_full x2 v1"
proof -
  have b2: "blk x2 v1 k = blk x1 v1 k" "file_byte x2 v1 i = file_byte x1 v1 i" for i k
    by (simp_all add: x2_def blk_def indirect_def file_byte_def)
  have mx: "i_size x2 \<le> MAXFILE * BSIZE" using full lim by (simp add: x2_def file_full_def)
  have m: "blk x v (i div BSIZE) \<noteq> 0" if "i < i_size x" for i
  proof -
    have "i div BSIZE * BSIZE < i_size x" using that le_less_trans [OF div_times_less_eq_dividend that] by blast
    then show ?thesis using full unfolding file_full_def by blast
  qed
  have byte: "file_byte x1 v1 i = (if off \<le> i \<and> i < off + length bs then bs ! (i - off) else file_byte x v i)"
    if "i < i_size x2" for i
  proof (cases "off \<le> i \<and> i < off + length bs")
    case True
    then show ?thesis using w by (simp add: wrote_def)
  next
    case False
    then have "i < i_size x" "i < MAXFILE * BSIZE" using that off mx by (auto simp: x2_def)
    then show ?thesis using w m False by (auto simp: wrote_def)
  qed
  show "contents x2 v1 = put_bytes off bs (contents x v)"
  proof (rule nth_equalityI)
    show len: "length (contents x2 v1) = length (put_bytes off bs (contents x v))"
      using off by (auto simp: contents_def put_bytes_def x2_def)
    fix i assume "i < length (contents x2 v1)"
    then have i: "i < i_size x2" by (simp add: contents_def)
    then have "contents x2 v1 ! i = file_byte x1 v1 i" by (simp add: contents_def b2)
    moreover have "put_bytes off bs (contents x v) ! i = (if off \<le> i \<and> i < off + length bs then bs ! (i - off) else file_byte x v i)"
      using i off by (auto simp: contents_def put_bytes_def nth_append x2_def min_def)
    ultimately show "contents x2 v1 ! i = put_bytes off bs (contents x v) ! i" using byte [OF i] by simp
  qed
  have "blk x1 v1 k \<noteq> 0" if "k * BSIZE < i_size x2" for k
  proof (cases "k * BSIZE < i_size x")
    case True
    then have "blk x v k \<noteq> 0" using full by (simp add: file_full_def)
    moreover have "k < MAXFILE" using that mx by (metis mult_less_cancel2 order_less_le_trans)
    ultimately show ?thesis using w by (simp add: wrote_def)
  next
    case False
    then have "off \<le> k * BSIZE" "k * BSIZE < off + length bs" using that off by (auto simp: x2_def)
    then have "blk x1 v1 (k * BSIZE div BSIZE) \<noteq> 0" using w unfolding wrote_def by blast
    then show ?thesis by (simp add: BSIZE_def)
  qed
  then show "file_full x2 v1" using mx by (simp add: file_full_def b2)
qed


lemma file_wf_fits:
  assumes wf: "file_wf y l v x" and sz: "sb_size y < 2 ^ 31" and "i_size x \<le> MAXFILE * BSIZE"
  shows "inode_fits x"
proof -
  have "a < 2 ^ 32" if mem: "a \<in> set (i_addrs x)" for a
  proof -
    obtain k where "k < length (i_addrs x)" "i_addrs x ! k = a" using mem in_set_conv_nth [of a "i_addrs x"] by blast
    then have k: "k < NDIRECT + 1" "a = i_addrs x ! k" using file_wfD(1) [OF wf] by simp_all
    have "a = 0 \<or> data_block y l v a"
    proof (cases "k < NDIRECT")
      case True
      then have "blk x v k = a" "k < MAXFILE" using k(2) by (simp_all add: blk_def params)
      then show ?thesis using file_wfD(3) [OF wf, of k] by auto
    next
      case False
      then have "k = NDIRECT" using k(1) by simp
      then have "a = indirect x" using k(2) by (simp add: indirect_def)
      then show ?thesis using file_wfD(2) [OF wf] by auto
    qed
    then show ?thesis using sz by (auto simp: data_block_def)
  qed
  then show ?thesis using file_wfD(1) [OF wf] assms(3) by (simp add: inode_fits_def params)
qed

lemma meta_contents:
  assumes ly: "layout_ok y l v" and wf: "file_wf y l v x" and b: "b \<in> inode_blocks y" and full: "file_full x v"
  shows "contents x (v(b := d)) = contents x v" and "file_full x (v(b := d))"
proof -
  note m = meta_upd [OF ly wf b]
  show "file_full x (v(b := d))" using full by (simp add: file_full_def m(1))
  have "file_byte x (v(b := d)) i = file_byte x v i" if i: "i < i_size x" for i
  proof -
    have "i < MAXFILE * BSIZE" "i div BSIZE * BSIZE < i_size x"
      using full i le_less_trans [OF div_times_less_eq_dividend i] by (simp_all add: file_full_def)
    then show ?thesis using m(5) full unfolding file_full_def by blast
  qed
  then show "contents x (v(b := d)) = contents x v" by (simp add: contents_def)
qed

lemma file_at_set_size:
  assumes f: "file_at s v L ip x"
  shows "file_at (s\<lparr>icache := (icache s)[ip := x\<lparr>i_size := n\<rparr>]\<rparr>) v L ip (x\<lparr>i_size := n\<rparr>)"
proof -
  have "blk (x\<lparr>i_size := n\<rparr>) v = blk x v" "indirect (x\<lparr>i_size := n\<rparr>) = indirect x"
    by (auto simp: blk_def indirect_def)
  then show ?thesis using file_atD [OF f] by (simp add: file_at_def file_wf_def)
qed

lemma of_nat_length32:
  assumes "unat (off :: uint32) + n \<le> MAXFILE * BSIZE"
  shows "unat (of_nat n :: uint32) = n" and "unat (off + of_nat n) = unat off + n" and "\<not> off + of_nat n < off"
proof -
  show n: "unat (of_nat n :: uint32) = n" using assms by (intro unat_of_nat_small) (simp add: params)
  have "unat off + unat (of_nat n :: uint32) < 2 ^ LENGTH(32)" using assms n by (simp add: params)
  then show e: "unat (off + of_nat n) = unat off + n" unfolding unat_add_lem using n by simp
  then show "\<not> off + of_nat n < off" by (simp add: word_less_nat_alt)
qed

text \<open>The whole of \<^verbatim>\<open>writei\<close>: the contents of the file, the inode on the disk, and the blocks of the
  other files.\<close>

lemma writei_spec:
  assumes f: "file_at s v L ip x" and full: "file_full x v" and off: "unat off \<le> i_size x"
    and lim: "unat off + length bs \<le> MAXFILE * BSIZE" and bs: "bs \<noteq> []" and src: "supplies s src bs"
    and inum: "i_inum x < sb_ninodes (sb s)"
    and L: "card L + 6 * span_blocks (unat off) (length bs) + 1 \<le> log_cap (log s)"
    and free: "2 * span_blocks (unat off) (length bs) \<le> card (free_blocks (sb s) v)" and cur: "cur s < length (procs s)"
  defines "ib \<equiv> IBLOCK (i_inum x) (sb s)"
  shows "\<exists>s' v' L' x'. writei ip src off (of_nat (length bs)) s = Ok (int (length bs)) s' \<and> fstep {} s s' \<and>
     icache s' = (icache s)[ip := x'] \<and> file_at s' v' L' ip x' \<and> file_full x' v' \<and>
     contents x' v' = put_bytes (unat off) bs (contents x v) \<and> (\<exists>n as. x' = x\<lparr>i_size := n, i_addrs := as\<rparr>) \<and>
     same_on_disk (load_dinode (dinode_off (i_inum x)) (v' ib) y) x' \<and>
     (\<forall>b < sb_size (sb s). block_used (sb s) v b \<longrightarrow> b \<notin> bitmap_blocks (sb s) \<longrightarrow> b \<notin> insert ib (file_blocks x v) \<longrightarrow> v' b = v b) \<and>
     L \<subseteq> L' \<and> card L' \<le> card L + 6 * span_blocks (unat off) (length bs) + 1"
proof -
  let ?o = "unat off" and ?k = "span_blocks (unat off) (length bs)"
  have "card L + 6 * ?k \<le> log_cap (log s)" using L by simp
  from writei_loop_spec [OF f lim src this free cur] obtain s1 v1 L1 x1 where
    1: "writei_loop ip src ?o (length bs) s = Ok (?o + length bs) s1" "written s v L ?k ip x ?o bs s1 v1 L1 x1" by blast
  then have st1: "fstep {} s s1" and f1: "file_at s1 v1 L1 ip x1" and w: "wrote (sb s) ?o bs x v x1 v1"
    and L1: "L \<subseteq> L1" "card L1 \<le> card L + 6 * ?k" and ic1: "icache s1 = (icache s)[ip := x1]" by (simp_all add: written_def)
  obtain as where x1: "x1 = x\<lparr>i_addrs := as\<rparr>" using w by (auto simp: wrote_def)
  define x2 where "x2 = x1\<lparr>i_size := max (i_size x) (?o + length bs)\<rparr>"
  define s2 where "s2 = s1\<lparr>icache := (icache s1)[ip := x2]\<rparr>"
  have f2: "file_at s2 v1 L1 ip x2" unfolding s2_def x2_def by (rule file_at_set_size [OF f1])
  note F2 = file_atD [OF f2] and c = wrote_contents [OF w full off lim, folded x2_def]
  have st2: "fstep {} s s2"
    using fstep_trans0 [OF st1 fstep_icache [OF txnD(1) [OF file_atD(1) [OF f1]]]] by (simp add: s2_def)
  have e2: "sb s2 = sb s" "log_cap (log s2) = log_cap (log s)" using fstep_sb [OF st2] fstep_log [OF st2] by simp_all
  have ib: "ib \<in> inode_blocks (sb s2)" using inum e2 by (simp add: ib_def inode_blocks_def)
  note B = layoutD(3) [OF F2(2) ib]
  have inum2: "i_inum x2 = i_inum x" by (simp add: x2_def x1)
  have L2: "card L1 < log_cap (log s2)" "card (L1 \<union> {}) < NBUF" using L L1 e2 log_cap_NBUF [of "log s"] by simp_all
  obtain s3 where 3: "iupdate ip s2 = Ok () s3" "tstep {} s2 s3"
     "txn s3 (v1(ib := store_dinode (dinode_off (i_inum x)) x2 (v1 ib))) (insert ib L1) {}"
    using iupdate_spec [OF F2(1) F2(4) [symmetric] F2(5) _ _ _ L2] B inum2 e2 by (auto simp: ib_def)
  let ?v = "v1(ib := store_dinode (dinode_off (i_inum x)) x2 (v1 ib))"
  note m = meta_upd [OF F2(2,6) ib] and mc = meta_contents [OF F2(2,6) ib c(2)]
  have ic3: "icache s3 = (icache s2)[ip := x2]" using tstep_sb [OF 3(2)] F2(4) by (metis list_update_id)
  have f3: "file_at s3 ?v (insert ib L1) ip x2"
    by (rule file_at_fstep [OF tstep_fstep [OF 3(2)] 3(3) m(3,2) F2(3) ic3 F2(5)])
  have "inode_fits x2" using file_wf_fits [OF F2(6) layoutD(1) [OF F2(2)]] c(2) by (simp add: file_full_def)
  then have disk: "same_on_disk (load_dinode (dinode_off (i_inum x)) (?v ib) y) x2"
    using load_store_dinode [of "dinode_off (i_inum x)" "v1 ib" x2 y] dinode_off_bound txn_length [OF F2(1)] by simp
  have "set_inode ip (\<lambda>x. if ?o + length bs > i_size x then x\<lparr>i_size := ?o + length bs\<rparr> else x) s1 = Ok () s2"
    using file_atD(3,4) [OF f1] by (simp add: set_inode_run s2_def x2_def x1 max_def)
  then have run: "writei ip src off (of_nat (length bs)) s = Ok (int (length bs)) s3"
    using of_nat_length32 [OF lim] off lim bs 1(1) 3(1) file_atD(4) [OF f]
    by (simp add: writei_def get_inode_def kwhen_apply word_gt_0 unat_eq_0 [symmetric])
  have "\<exists>n as. x2 = x\<lparr>i_size := n, i_addrs := as\<rparr>"
    by (intro exI [of _ "i_size x2"] exI [of _ as]) (simp add: x2_def x1)
  moreover have "b \<notin> insert ib (file_blocks x v) \<Longrightarrow> ?v b = v b"
    if "b < sb_size (sb s)" "block_used (sb s) v b" "b \<notin> bitmap_blocks (sb s)" for b
    using w that by (simp add: wrote_def)
  moreover have "card (insert ib L1) \<le> card L + 6 * ?k + 1" using L1(2) txn_card(1) [OF F2(1)] by (simp add: card_insert_if)
  moreover have "icache s3 = (icache s)[ip := x2]" using ic3 ic1 by (simp add: s2_def)
  ultimately show ?thesis
    using run fstep_trans0 [OF st2 tstep_fstep [OF 3(2)]] f3 mc c(1) disk L1(1)
    by (intro exI [of _ s3] exI [of _ ?v] exI [of _ "insert ib L1"] exI [of _ x2]) auto
qed


section \<open>readi\<close>

lemma read_file_block:
  assumes f: "file_at s v L ip x" and bn: "bn < MAXFILE" "blk x v bn \<noteq> 0" and L: "card L < NBUF"
  shows "\<exists>s'. kbind (bread ROOTDEV (blk x v bn)) (\<lambda>bp. kbind (buf_data bp) (\<lambda>d. kseq (brelse bp) (K d))) s = K (v (blk x v bn)) s' \<and>
     tstep {} s s' \<and> txn s' v L {}"
proof -
  have "blk x v bn < 2 ^ 31"
    using file_wfD(3) [OF file_atD(6) [OF f] bn] layoutD(1) [OF file_atD(2) [OF f]] by (simp add: data_block_def)
  then show ?thesis using t_read [OF file_atD(1) [OF f], of "blk x v bn" K] L by simp
qed

lemma file_at_tstep:
  assumes f: "file_at s v L ip x" and st: "tstep {} s s'" and t: "txn s' v L' {}"
  shows "file_at s' v L' ip x"
proof -
  note F = file_atD [OF f]
  have "icache s' = (icache s)[ip := x]" using tstep_sb [OF st] F(4) by (metis list_update_id)
  then show ?thesis by (rule file_at_fstep [OF tstep_fstep [OF st] t F(2,6,3) _ F(5)])
qed

lemma chunk_contents:
  assumes full: "file_full x v" and rem: "0 < rem" "off + rem \<le> i_size x" and len: "\<And>b. length (v b) = BSIZE"
  defines "m \<equiv> block_chunk off rem"
  shows "get_bytes (off mod BSIZE) m (v (blk x v (off div BSIZE))) = get_bytes off m (contents x v)"
    and "blk x v (off div BSIZE) \<noteq> 0" and "off div BSIZE < MAXFILE"
proof -
  have m: "m \<le> rem" "off mod BSIZE + m \<le> BSIZE" using block_chunk_bounds [OF rem(1)] by (simp_all add: m_def)
  have "off div BSIZE * BSIZE < i_size x" using rem le_less_trans [OF div_times_less_eq_dividend, of off "i_size x" BSIZE] by simp
  then show "blk x v (off div BSIZE) \<noteq> 0" using full unfolding file_full_def by blast
  show "off div BSIZE < MAXFILE" using rem full by (intro div_BSIZE_less) (simp add: file_full_def)
  show "get_bytes (off mod BSIZE) m (v (blk x v (off div BSIZE))) = get_bytes off m (contents x v)"
  proof (rule nth_equalityI)
    show "length (get_bytes (off mod BSIZE) m (v (blk x v (off div BSIZE)))) = length (get_bytes off m (contents x v))"
      using m rem len by (simp add: contents_def)
    fix i assume "i < length (get_bytes (off mod BSIZE) m (v (blk x v (off div BSIZE))))"
    then have i: "i < m" using m len by simp
    have "off = off div BSIZE * BSIZE + off mod BSIZE" by simp
    then have e: "off + i = off div BSIZE * BSIZE + (off mod BSIZE + i)" by linarith
    have "off mod BSIZE + i < BSIZE" using i m by simp
    then have "BSIZE * (off div BSIZE) \<le> off + i" "off + i < BSIZE * Suc (off div BSIZE)"
      using e unfolding mult_Suc_right mult.commute [of BSIZE] by linarith+
    then have q: "(off + i) div BSIZE = off div BSIZE" by (rule div_nat_eqI)
    moreover have "(off + i) mod BSIZE = off mod BSIZE + i"
      using minus_div_mult_eq_mod [of "off + i" BSIZE] e unfolding q by linarith
    ultimately show "get_bytes (off mod BSIZE) m (v (blk x v (off div BSIZE))) ! i = get_bytes off m (contents x v) ! i"
      using i m rem len by (simp add: nth_get_bytes contents_def file_byte_def)
  qed
qed

lemma readi_loop_spec:
  assumes "file_at s v L ip x" and "file_full x v" and "off + rem \<le> i_size x" and "card L < NBUF"
  shows "\<exists>s'. readi_loop ip LocalDst off rem s = Ok (rem, get_bytes off rem (contents x v)) s' \<and> tstep {} s s' \<and> txn s' v L {}"
  using assms
proof (induction rem arbitrary: s off rule: less_induct)
  case (less rem)
  note f = less(2) and full = less(3) and rem = less(4) and L = less(5)
  note F = file_atD [OF f]
  show ?case
  proof (cases "rem = 0")
    case True
    then show ?thesis using tstep_refl [OF txnD(1) [OF F(1)]] F(1) by (auto simp: readi_loop.simps get_bytes_def)
  next
    case False
    define m where "m = block_chunk off rem"
    let ?a = "blk x v (off div BSIZE)" and ?bs = "get_bytes off m (contents x v)"
    have m: "m \<le> rem" "0 < m" using block_chunk_bounds [of rem off] False by (simp_all add: m_def)
    have c: "get_bytes (off mod BSIZE) m (v ?a) = ?bs" "?a \<noteq> 0" "off div BSIZE < MAXFILE"
      using chunk_contents [OF full _ rem txn_length [OF F(1)]] False by (simp_all add: m_def)
    obtain s1 where 1: "bmap ip (off div BSIZE) s = Ok ?a s1" "tstep {} s s1" "txn s1 v L {}"
      using bmap_mapped [OF f c(3) L c(2)] by blast
    note f1 = file_at_tstep [OF f 1(2,3)]
    let ?K = "\<lambda>d. kbind (readi_loop ip LocalDst (off + m) (rem - m)) (\<lambda>(tot, rest). kret (m + tot, get_bytes (off mod BSIZE) m d @ rest))"
    obtain s2 where 2: "kbind (bread ROOTDEV ?a) (\<lambda>bp. kbind (buf_data bp) (\<lambda>d. kseq (brelse bp) (?K d))) s1 = ?K (v ?a) s2"
      "tstep {} s1 s2" "txn s2 v L {}" using read_file_block [OF f1 c(3,2) L, where K = ?K] by blast
    note f2 = file_at_tstep [OF f1 2(2,3)]
    have "rem - m < rem" "off + m + (rem - m) \<le> i_size x" using m rem by simp_all
    from less(1) [OF this(1) f2 full this(2) L] obtain s3 where
      3: "readi_loop ip LocalDst (off + m) (rem - m) s2 = Ok (rem - m, get_bytes (off + m) (rem - m) (contents x v)) s3"
      "tstep {} s2 s3" "txn s3 v L {}" by blast
    have "?bs @ get_bytes (off + m) (rem - m) (contents x v) = get_bytes off rem (contents x v)"
      using m get_bytes_append_adj [of off m "contents x v" "rem - m"] by simp
    then have "readi_loop ip LocalDst off rem s = Ok (rem, get_bytes off rem (contents x v)) s3"
      using 1(1) 2(1) 3(1) False F(4,5) m c(1)
      by (simp add: readi_loop.simps [of ip LocalDst off rem] get_inode_def m_def [symmetric] Let_def copy_to_def kbind_ret adv_dest_def)
    then show ?thesis using tstep_trans0 [OF tstep_trans0 [OF 1(2) 2(2)] 3(2)] 3(3) by blast
  qed
qed


lemma readi_spec:
  assumes f: "file_at s v L ip x" and full: "file_full x v" and L: "card L < NBUF" and off: "unat off \<le> i_size x"
    and n: "unat off + unat n < 2 ^ 32"
  defines "r \<equiv> get_bytes (unat off) (unat n) (contents x v)"
  shows "\<exists>s'. readi ip LocalDst off n s = Ok (length r, r) s' \<and> tstep {} s s' \<and> txn s' v L {}"
proof -
  have e: "unat (off + n) = unat off + unat n" using n unat_add_lem [of off n] by simp
  then have nw: "\<not> off + n < off" by (simp add: word_less_nat_alt)
  define k where "k = (if unat (off + n) > i_size x then i_size x - unat off else unat n)"
  have k: "unat off + k \<le> i_size x" using off e by (auto simp: k_def)
  have r: "get_bytes (unat off) k (contents x v) = r" "length r = k"
    using off e by (auto simp: k_def r_def get_bytes_def contents_def)
  have "readi ip LocalDst off n s = readi_loop ip LocalDst (unat off) k s"
    using off nw file_atD(4) [OF f] by (simp add: readi_def get_inode_def k_def)
  then show ?thesis using readi_loop_spec [OF f full k L] r by simp
qed

end
