(* ===== verification/Machine.thy ===== *)
theory Machine
  imports Bio_Cache
begin

text \<open>
  A concrete machine: a block device that meets the contract of the driver, and a kernel state
  with an initialised buffer cache over a given disk, on which the theorems of the development
  are evaluated.
\<close>

section \<open>A device\<close>

definition qemu_blk :: "vdisk \<times> bytes list \<times> disk \<Rightarrow> (vdisk \<times> bytes list \<times> disk) option" where
  "qemu_blk = (\<lambda>(v, ds, dk).
     let h = v_avail_ring v ! (unat (v_used_id v) mod NUM);
         d0 = v_desc v ! h; d1 = v_desc v ! d_next d0; d2 = v_desc v ! d_next d1 in
     case (d_addr d0, d_addr d1, d_addr d2) of
       (DmaHeader ty _ sec, DmaData b, DmaStatus st) \<Rightarrow>
         (if ty = VIRTIO_BLK_T_IN then Some (complete h st v, ds[b := dk (unat sec div 2)], dk)
          else Some (complete h st v, ds, dk(unat sec div 2 := ds ! b)))
     | _ \<Rightarrow> None)"

lemma qemu_blk_ok: "virtio_blk_ok qemu_blk"
  unfolding virtio_blk_ok_def qemu_blk_def request_at_def Let_def by (auto simp: params)

section \<open>A kernel state\<close>

definition blank_vdisk :: vdisk where
  "blank_vdisk = \<lparr>v_desc = replicate NUM \<lparr>d_addr = DmaNull, d_len = 0, d_flags = 0, d_next = 0\<rparr>,
     v_avail_idx = 0, v_avail_ring = replicate NUM 0, v_used_id = 0, v_used_elems = replicate NUM 0,
     v_free = replicate NUM True, v_used_idx = 0, v_info_b = replicate NUM None,
     v_info_status = replicate NUM 0\<rparr>"

definition blank_buf :: buf where
  "blank_buf = \<lparr>b_valid = False, b_disk = False, b_dev = 0, b_blockno = 0, b_lock = initsleeplock,
     b_refcnt = 0, b_data = replicate BSIZE 0\<rparr>"

definition running_proc :: proc where
  "running_proc = \<lparr>p_state = RUNNING, p_parent = None, p_chan = None, p_killed = False, p_xstate = 0,
     p_pid = 1, p_kstack = 0, p_sz = 0, p_pagetable = 0, p_trapframe = 0, p_tf = (\<lambda>_. 0),
     p_context_ra = 0, p_context_sp = 0, p_ofile = replicate NOFILE None, p_cwd = None, p_name = []\<rparr>"

definition machine :: "buf list \<Rightarrow> disk \<Rightarrow> 'a \<Rightarrow> 'a bio_state_scheme" where
  "machine bs dk x = \<lparr>mem = (\<lambda>_. 0), freelist = 0, kend = 0, procs = [running_proc], cur = 0,
     nextpid = 2, initproc = Some 0, bufs = bs, vdisk = blank_vdisk, device = qemu_blk, disk = dk,
     disk_trace = [], links = binit_links \<lparr>lnext = (\<lambda>_. 0), lprev = (\<lambda>_. 0)\<rparr>,
     force_read_error_pbn = -1, force_disk_fail_id = -1, \<dots> = x\<rparr>"

lemma machine_simps [simp]:
  "bufs (machine bs dk x) = bs" "disk (machine bs dk x) = dk" "disk_trace (machine bs dk x) = []"
  by (simp_all add: machine_def)

lemma blank_vdisk_idle: "vdisk_idle blank_vdisk"
  by (simp add: vdisk_idle_def blank_vdisk_def params)

lemma machine_ok:
  assumes "bufs_ok dk 1 bs" and "\<And>b. length (dk b) = BSIZE"
  shows "bio_ok (machine bs dk x)"
  using assms binit_ring [of "\<lparr>lnext = (\<lambda>_. 0), lprev = (\<lambda>_. 0)\<rparr>"]
  by (auto simp: bio_ok_def machine_def myproc_of_def running_proc_def blank_vdisk_idle qemu_blk_ok
    intro!: exI [of _ "rev [0..<NBUF]"])

text \<open>A cache with the buffers \<open>xs\<close> in use, and the others blank.\<close>

definition with_bufs :: "buf list \<Rightarrow> buf list" where
  "with_bufs xs = xs @ replicate (NBUF - length xs) blank_buf"

lemma with_bufs_names:
  assumes "length xs \<le> NBUF" and "i < NBUF"
  shows "names b (with_bufs xs ! i) \<longleftrightarrow> i < length xs \<and> names b (xs ! i)"
  using assms by (auto simp: with_bufs_def nth_append names_def blank_buf_def ROOTDEV_def)

lemma with_bufs_0 [simp]: "with_bufs (x # xs) ! 0 = x"
  by (simp add: with_bufs_def)

lemma with_bufs_ok:
  assumes "length xs \<le> NBUF" and "\<forall>x\<in>set xs. buf_ok dk pid x" and "distinct (map b_blockno xs)"
  shows "bufs_ok dk pid (with_bufs xs)"
proof -
  have "buf_ok dk pid blank_buf"
    by (simp add: buf_ok_def blank_buf_def initsleeplock_def ROOTDEV_def)
  moreover have "i = j" if "i < NBUF" "j < NBUF" "names b (with_bufs xs ! i)" "names b (with_bufs xs ! j)" for i j b
    using that with_bufs_names [OF assms(1)] assms(3) by (auto simp: names_def distinct_conv_nth)
  moreover have "length (with_bufs xs) = NBUF" using assms(1) by (simp add: with_bufs_def)
  ultimately show ?thesis
    using assms(2) unfolding bufs_ok_def by (auto simp: with_bufs_def set_replicate_conv_if)
qed

lemma cached_with_bufs:
  assumes "bufs_ok dk pid (with_bufs xs)" and "length xs \<le> NBUF"
  shows "cached (with_bufs xs) b = Some i \<longleftrightarrow> i < length xs \<and> names b (xs ! i)"
  using cached_Some [OF assms(1)] with_bufs_names [OF assms(2)] assms(2) by auto

lemma cached_single:
  assumes "bufs_ok dk pid (with_bufs [x])"
  shows "cached (with_bufs [x]) b = (if names b x then Some 0 else None)"
proof (cases "cached (with_bufs [x]) b")
  case None
  moreover have "\<not> names b x"
  proof
    assume "names b x"
    then have "cached (with_bufs [x]) b = Some 0"
      using cached_with_bufs [OF assms, of b 0] NBUF_pos by simp
    with None show False by simp
  qed
  ultimately show ?thesis by simp
next
  case (Some i)
  then show ?thesis using cached_with_bufs [OF assms, of b i] NBUF_pos by auto
qed

lemma cached_blank: "cached (with_bufs []) b = None"
  using with_bufs_names [of "[]"] by (simp add: cached_None)

lemma blank_machine:
  assumes "\<And>b. length (dk b) = BSIZE"
  shows "bio_ok (machine (with_bufs []) dk x)" and "c_refs (acache (machine (with_bufs []) dk x)) = (\<lambda>_. 0)"
    and "c_held (acache (machine (with_bufs []) dk x)) = {}" and "c_view (acache (machine (with_bufs []) dk x)) = dk"
  using machine_ok [OF with_bufs_ok [of "[]"] assms]
  by (auto simp: acache_def crefs_def cheld_def cview_def cached_blank fun_eq_iff)

end
