(* ===== verification/Log_Crash.thy ===== *)
theory Log_Crash
  imports Log_Spec Machine
begin

text \<open>
  Recovery and crash safety of the log. A crash is a prefix of the sequence of disk writes of
  a commit; a reboot is a fresh buffer cache over the disk that prefix leaves; recovery is
  the code of \<^verbatim>\<open>initlog\<close>.
\<close>

section \<open>Recovery\<close>

text \<open>The log as \<^verbatim>\<open>read_head\<close> finds it in the header block \<open>d\<close>.\<close>

definition head_log :: "bytes \<Rightarrow> logt \<Rightarrow> logt" where
  "head_log d l =
     l\<lparr>lg_n := head_n d,
       lg_block := map (\<lambda>i. if i < nat (head_n d) then head_block i d else lg_block l ! i) [0..<length (lg_block l)]\<rparr>"

lemma kfor_set_block:
  "kfor [0..<m] (\<lambda>i. set_log (\<lambda>l. l\<lparr>lg_block := (lg_block l)[i := g i]\<rparr>)) s =
   Ok () (s\<lparr>log := (log s)\<lparr>lg_block :=
     map (\<lambda>i. if i < m then g i else lg_block (log s) ! i) [0..<length (lg_block (log s))]\<rparr>\<rparr>)"
proof (induction m)
  case 0
  then show ?case by (cases "log s") (simp add: map_nth)
next
  case (Suc m)
  have "(map (\<lambda>i. if i < m then g i else b ! i) [0..<length b])[m := g m] =
      map (\<lambda>i. if i < Suc m then g i else b ! i) [0..<length b]" for b
    by (rule nth_equalityI) (auto simp: nth_list_update less_Suc_eq)
  with Suc show ?case by (simp add: kfor_append set_log_def)
qed

lemma read_head_spec:
  assumes ok: "bio_ok s" and dev: "lg_dev (log s) = ROOTDEV" and a: "lg_start (log s) < 2 ^ 31"
    and nh: "c_held (acache s) = {}" and refs: "c_refs (acache s) = (\<lambda>_. 0)"
    and n: "head_n (c_view (acache s) (lg_start (log s))) \<le> int LOGSIZE"
  shows "\<exists>s'. read_head s = Ok () s' \<and> lstep {} s s' \<and> acache s' = acache s \<and>
    log s' = head_log (c_view (acache s) (lg_start (log s))) (log s)"
proof -
  let ?a = "lg_start (log s)"
  let ?d = "c_view (acache s) ?a"
  obtain i s1 where 1: "bread ROOTDEV ?a s = Ok i s1" "bstep {} s s1" "buf_for s1 i ?a"
     and a1: "acache s1 = (acache s)\<lparr>c_refs := (c_refs (acache s))(?a := Suc (c_refs (acache s) ?a)),
       c_held := insert ?a (c_held (acache s))\<rparr>"
    using bread_spec [OF ok a] nh refs by auto
  have l1: "log s1 = log s" by (rule bstep_log [OF 1(2)])
  let ?s2 = "s1\<lparr>log := head_log ?d (log s)\<rparr>"
  have bf: "buf_for ?s2 i ?a" and ok2: "bio_ok ?s2" using 1(3) bstep_ok [OF 1(2)] by simp_all
  have cl: "c_view (acache s) ?a = c_disk (acache s) ?a" using clean_unreferenced [OF ok] refs by simp
  obtain s3 where 3: "brelse i ?s2 = Ok () s3" "bstep {?a} ?s2 s3"
    "acache s3 = (acache ?s2)\<lparr>c_refs := (c_refs (acache ?s2))(?a := c_refs (acache ?s2) ?a - 1),
      c_held := c_held (acache ?s2) - {?a}\<rparr>"
    using brelse_spec [OF ok2 bf] cl by (auto simp: a1)
  have "read_head s = Ok () s3"
    using 1(1) dev n 3(1) buf_data_spec [OF bstep_ok [OF 1(2)] 1(3)]
    by (simp add: read_head_def a1 set_log_def head_log_def l1 kfor_set_block [unfolded set_log_def] cong: if_cong)
  moreover have "acache s3 = acache s" using refs nh unfolding 3(3) by (cases "acache s") (simp add: a1 fun_upd_idem)
  moreover have "log s3 = head_log ?d (log s)" using bstep_log [OF 3(2)] by simp
  moreover have "bstep {} (s\<lparr>log := head_log ?d (log s)\<rparr>) s3"
    using bstep_trans [OF bstep_set_log [OF 1(2)] 3(2)] bstep_unheld ok nh by fastforce
  then have "lstep {} s s3" by (simp add: lstep_def calculation)
  ultimately show ?thesis by blast
qed

lemma recover_spec:
  assumes ok: "bio_ok s" and nh: "c_held (acache s) = {}" and refs: "c_refs (acache s) = (\<lambda>_. 0)"
    and l: "l = head_log (disk s (lg_start (log s))) (log s)" and wf: "log_wf l"
  defines "W \<equiv> home_writes l (disk s) @ [(lg_start l, put_head 0 (lg_block l) (disk s (lg_start l)))]"
  shows "\<exists>s'. recover_from_log s = Ok () s' \<and> lstep {} s s' \<and> log s' = l\<lparr>lg_n := 0\<rparr> \<and>
    acache s' = (acache s)\<lparr>c_view := replay W (disk s),
      c_refs := (\<lambda>b. if b \<in> set (logged l) then 2 ^ 32 - 1 else 0),
      c_disk := replay W (disk s), c_trace := c_trace (acache s) @ W\<rparr>"
proof -
  have v: "c_view (acache s) = disk s" "c_disk (acache s) = disk s"
    using clean_unreferenced [OF ok] refs by (auto simp: acache_def)
  have st: "lg_start l = lg_start (log s)" "lg_dev l = lg_dev (log s)" by (simp_all add: l head_log_def)
  have "lg_dev (log s) = ROOTDEV" "lg_start (log s) < 2 ^ 31" "head_n (disk s (lg_start (log s))) \<le> int LOGSIZE"
    using wf st log_wf_bound [OF wf] by (auto simp: log_wf_def l head_log_def params)
  with read_head_spec [OF ok _ _ nh refs] v l obtain s1 where
    1: "read_head s = Ok () s1" "lstep {} s s1" "acache s1 = acache s" "log s1 = l"
    by auto
  have "c_refs (acache s1) = (\<lambda>b. if b \<in> set (logged (log s1)) then 0 else 0)" using refs 1(3) by auto
  moreover have "unat (- 1 :: uint32) = 4294967295" by (simp add: unsigned_minus_1_eq_mask mask_eq_exp_minus_1)
  ultimately have m: "c_refs (acache s1) = (\<lambda>b. if b \<in> set (logged (log s1)) then 0 else 0)"
    "unat (- 1 :: uint32) = 4294967295" by blast+
  from install_and_clear [OF lstep_ok [OF 1(2)] _ _ m(1)] wf 1 nh v obtain s2 where
    2: "kseq install_trans (kseq (set_log (\<lambda>l. l\<lparr>lg_n := 0\<rparr>)) write_head) s1 = Ok () s2"
      "lstep {} s1 s2" "log s2 = l\<lparr>lg_n := 0\<rparr>"
      "acache s2 = (acache s)\<lparr>c_view := replay W (disk s), c_refs := (\<lambda>b. if b \<in> set (logged l) then 2 ^ 32 - 1 else 0),
         c_disk := replay W (disk s), c_trace := c_trace (acache s) @ W\<rparr>"
    by (auto simp: W_def m(2) cong: if_cong)
  have "recover_from_log s = Ok () s2" using 1(1) 2(1) by (simp add: recover_from_log_def)
  with 2 lstep_trans [OF 1(2) 2(2)] show ?thesis by auto
qed

section \<open>Crashes\<close>

definition fresh_boot :: "'a log_state_scheme \<Rightarrow> bool" where
  "fresh_boot r \<longleftrightarrow> bio_ok r \<and> c_held (acache r) = {} \<and> c_refs (acache r) = (\<lambda>_. 0) \<and>
     length (lg_block (log r)) = LOGSIZE"

lemma log_area_start: "lg_start l = lg_start l' \<Longrightarrow> log_area l = log_area l'"
  by (simp add: log_area_def)

text \<open>Recovery from a disk whose header is clear changes nothing outside the log; from a
  disk with a committed header it gives every logged block its logged contents.\<close>

lemma recover_clear:
  assumes f: "fresh_boot r" and dev: "lg_dev (log r) = ROOTDEV" and st: "lg_start (log r) + LOGSIZE < 2 ^ 31"
    and h: "head_n (disk r (lg_start (log r))) = 0"
  shows "\<exists>r'. recover_from_log r = Ok () r' \<and> bio_ok r' \<and> (\<forall>b. b \<notin> log_area (log r) \<longrightarrow> disk r' b = disk r b) \<and>
    head_n (disk r' (lg_start (log r))) = 0"
proof -
  let ?a = "lg_start (log r)"
  let ?l = "head_log (disk r ?a) (log r)"
  have len: "length (disk r ?a) = BSIZE" using f by (simp add: fresh_boot_def bio_ok_def)
  have wf: "log_wf ?l" using f dev st h by (simp add: log_wf_def head_log_def logged_def fresh_boot_def)
  have W: "home_writes ?l (disk r) = []" using h by (simp add: home_writes_def head_log_def)
  have s: "lg_start ?l = ?a" by (simp add: head_log_def)
  obtain r' where r': "recover_from_log r = Ok () r'" "lstep {} r r'"
     and a: "acache r' = (acache r)\<lparr>c_view := (disk r)(?a := put_head 0 (lg_block ?l) (disk r ?a)),
      c_refs := (\<lambda>b. if b \<in> set (logged ?l) then 2 ^ 32 - 1 else 0),
      c_disk := (disk r)(?a := put_head 0 (lg_block ?l) (disk r ?a)),
      c_trace := c_trace (acache r) @ [(?a, put_head 0 (lg_block ?l) (disk r ?a))]\<rparr>"
    using recover_spec [OF _ _ _ refl wf] f W s by (auto simp: fresh_boot_def)
  have "disk r' = c_disk (acache r')" by (simp add: acache_def)
  then have "disk r' = (disk r)(?a := put_head 0 (lg_block ?l) (disk r ?a))" by (simp add: a)
  then show ?thesis
    using r' lstep_ok [OF r'(2)] head_n_put_head [of 0 "disk r ?a"] len by (auto simp: log_area_def)
qed

lemma recover_committed:
  assumes f: "fresh_boot r" and wf: "log_wf l"
    and same: "lg_dev (log r) = ROOTDEV" "lg_start (log r) = lg_start l"
    and h: "disk r (lg_start l) = commit_head l v" "length (v (lg_start l)) = BSIZE"
    and d: "\<And>t. t < nat (lg_n l) \<Longrightarrow> disk r (lg_start l + t + 1) = v (lg_block l ! t)"
  shows "\<exists>r'. recover_from_log r = Ok () r' \<and> bio_ok r' \<and>
    (\<forall>b. b \<notin> log_area l \<longrightarrow> disk r' b = (if b \<in> set (logged l) then v b else disk r b)) \<and>
    head_n (disk r' (lg_start l)) = 0"
proof -
  let ?a = "lg_start l"
  let ?l = "head_log (commit_head l v) (log r)"
  have n: "0 \<le> lg_n l" "lg_n l \<le> int LOGSIZE" "nat (lg_n l) \<le> LOGSIZE" using wf log_wf_bound [OF wf] by (auto simp: log_wf_def)
  have hn: "head_n (commit_head l v) = lg_n l"
    using head_n_put_head n h(2) by (simp add: commit_head_def)
  have hb: "head_block i (commit_head l v) = lg_block l ! i" if "i < nat (lg_n l)" for i
    using head_block_put_head [of i "lg_n l" "v ?a" "lg_block l"] that n h(2) log_wf_nth(2) [OF wf that] by (simp add: commit_head_def)
  have len: "length (lg_block (log r)) = LOGSIZE" using f by (simp add: fresh_boot_def)
  have blk: "lg_block ?l ! i = lg_block l ! i" if "i < nat (lg_n l)" for i
    using that n hb hn len by (simp add: head_log_def)
  have "logged ?l = logged l"
    by (rule nth_equalityI) (use wf n blk len hn in \<open>auto simp: logged_def log_wf_def head_log_def\<close>)
  have nn: "lg_n ?l = lg_n l" and s: "lg_start ?l = ?a" using same hn by (simp_all add: head_log_def)
  have wf': "log_wf ?l"
    using wf \<open>logged ?l = logged l\<close> same hn len unfolding log_wf_def by (simp add: head_log_def log_area_def)
  have W: "home_writes ?l (disk r) = install_writes l v"
    using d blk nn s by (simp add: home_writes_def install_writes_def)
  let ?h = "put_head 0 (lg_block ?l) (commit_head l v)"
  obtain r' where r': "recover_from_log r = Ok () r'" "lstep {} r r'"
     and a: "c_disk (acache r') = (replay (install_writes l v) (disk r))(?a := ?h)"
    using recover_spec [of r ?l, OF _ _ _ _ wf'] f W s h(1) same by (auto simp: fresh_boot_def)
  have dk: "disk r' = (replay (install_writes l v) (disk r))(?a := ?h)" using a by (simp add: acache_def)
  have "length (commit_head l v) = BSIZE" using length_put_head n h(2) by (simp add: commit_head_def)
  then have "head_n ?h = 0" by (intro head_n_put_head) auto
  moreover have "?a \<in> log_area l" by (simp add: log_area_def)
  ultimately show ?thesis
    using r' lstep_ok [OF r'(2)] install_writes_at [OF wf] install_writes_other [OF wf]
    by (intro exI [of _ r']) (auto simp: dk)
qed

text \<open>What is on disk after the first \<open>k\<close> writes of a commit.\<close>

lemma commit_prefix:
  assumes wf: "log_wf l"
  shows "\<exists>i. take k (commit_writes l v) = take k (log_writes l v) \<and> k \<le> nat (lg_n l)
      \<or> take k (commit_writes l v) = log_writes l v @ [(lg_start l, commit_head l v)] @ take i (install_writes l v)
      \<or> take k (commit_writes l v) = commit_writes l v"
proof -
  let ?L = "log_writes l v" and ?H = "(lg_start l, commit_head l v)" and ?I = "install_writes l v"
  have n: "length ?L = nat (lg_n l)" "length ?I = nat (lg_n l)" by (simp_all add: log_writes_def install_writes_def)
  consider "k \<le> nat (lg_n l)" | "nat (lg_n l) < k" "k \<le> 2 * nat (lg_n l) + 1" | "k > 2 * nat (lg_n l) + 1" by linarith
  then show ?thesis
  proof cases
    case 1
    then show ?thesis by (simp add: commit_writes_def n)
  next
    case 2
    then have "take k (commit_writes l v) = ?L @ [?H] @ take (k - nat (lg_n l) - 1) ?I"
      by (simp add: commit_writes_def n take_Cons' split: if_splits)
    then show ?thesis by blast
  next
    case 3
    then have "take k (commit_writes l v) = commit_writes l v"
      by (simp add: commit_writes_def n)
    then show ?thesis by blast
  qed
qed


lemma crash_recovers:
  assumes wf: "log_wf l" and n: "lg_n l > 0" and clear: "head_n (dk (lg_start l)) = 0"
    and v: "v (lg_start l) = dk (lg_start l)" "\<And>b. b \<notin> set (logged l) \<Longrightarrow> b \<notin> log_area l \<Longrightarrow> v b = dk b"
    and len: "length (dk (lg_start l)) = BSIZE"
    and f: "fresh_boot r" "lg_dev (log r) = ROOTDEV" "lg_start (log r) = lg_start l"
    and dk: "disk r = replay (take k (commit_writes l v)) dk"
  shows "\<exists>r'. recover_from_log r = Ok () r' \<and> bio_ok r' \<and> head_n (disk r' (lg_start l)) = 0 \<and>
     ((\<forall>b. b \<notin> log_area l \<longrightarrow> disk r' b = dk b) \<or> (\<forall>b. b \<notin> log_area l \<longrightarrow> disk r' b = v b))"
proof -
  let ?a = "lg_start l" and ?L = "log_writes l v" and ?I = "install_writes l v"
  have la: "log_area (log r) = log_area l" by (rule log_area_start [OF f(3)])
  have aa: "?a \<in> log_area l" by (simp add: log_area_def)
  then have na: "?a \<notin> set (logged l)" using wf by (auto simp: log_wf_def)
  have st: "lg_start (log r) + LOGSIZE < 2 ^ 31" using wf f(3) by (simp add: log_wf_def)
  have lenH: "length (commit_head l v) = BSIZE"
    using length_put_head [of "lg_n l"] log_wf_bound [OF wf] v(1) len by (simp add: commit_head_def)
  have LA: "replay (take j ?L) dk b = dk b" if "b \<notin> log_area l \<or> b = ?a" for j b
    using that log_wf_bound [OF wf]
    by (intro replay_other) (auto simp: log_writes_def log_area_def dest!: in_set_takeD)
  have IA: "replay (take j ?I) e b = e b" if "b \<notin> set (logged l)" for j e b
    using that log_wf_nth(1) [OF wf] by (intro replay_other) (auto simp: install_writes_def dest!: in_set_takeD)
  consider "take k (commit_writes l v) = take k ?L"
    | i where "take k (commit_writes l v) = ?L @ [(?a, commit_head l v)] @ take i ?I"
    | "take k (commit_writes l v) = commit_writes l v"
    using commit_prefix [OF wf, of k v] by blast
  then show ?thesis
  proof cases
    case 1
    then have "disk r ?a = dk ?a" "\<And>b. b \<notin> log_area l \<Longrightarrow> disk r b = dk b"
      using LA dk by auto
    then show ?thesis using recover_clear [OF f(1,2) st] clear f(3) la by auto
  next
    case 2
    let ?D = "(replay ?L dk)(?a := commit_head l v)"
    have D: "disk r = replay (take i ?I) ?D" using 2 dk by simp
    have "disk r ?a = commit_head l v" unfolding D using IA [OF na] by simp
    moreover have "disk r (?a + t + 1) = v (lg_block l ! t)" if "t < nat (lg_n l)" for t
    proof -
      have "?a + t + 1 \<notin> set (logged l)" using log_wf_nth(4) [OF wf that] wf by (auto simp: log_wf_def)
      then show ?thesis unfolding D using IA log_writes_at [OF that] by simp
    qed
    moreover have "disk r b = dk b" if "b \<notin> log_area l" "b \<notin> set (logged l)" for b
      unfolding D using IA [OF that(2)] LA [of b "length ?L"] that aa by auto
    ultimately show ?thesis
      using recover_committed [OF f(1) wf f(2,3), of v] v len by (auto split: if_splits)
  next
    case 3
    let ?h = "put_head 0 (lg_block l) (commit_head l v)"
    have D: "disk r = (replay ?I ((replay ?L dk)(?a := commit_head l v)))(?a := ?h)"
      using 3 dk by (simp add: commit_writes_def)
    have "head_n (disk r ?a) = 0" unfolding D using head_n_put_head [of 0] lenH by simp
    moreover have "disk r b = v b" if "b \<notin> log_area l" for b
      using that aa v(2) [of b] install_writes_at [OF wf] install_writes_other [OF wf] LA [of b "length ?L"]
      unfolding D by (cases "b \<in> set (logged l)") auto
    ultimately show ?thesis using recover_clear [OF f(1,2) st] f(3) la by auto
  qed
qed

section \<open>Commit is atomic\<close>

text \<open>C1. Commit is atomic under crashes: started with a set of logged blocks and a clear header on
  disk, \<^verbatim>\<open>commit\<close> returns, and it performs a sequence \<open>T\<close> of disk writes after which every block
  outside the log has the contents the cache had. If the machine stops after any \<open>k\<close> of
  these writes and reboots, \<^verbatim>\<open>initlog\<close> returns and leaves either every block as it was before
  the commit, or every block as it is after it.\<close>

theorem commit_crash_atomic:
  assumes q: "log_quiet s" and n: "lg_n (log s) > 0"
    and clear: "head_n (disk s (lg_start (log s))) = 0"
  shows "\<exists>s' T. commit s = Ok () s' \<and> disk_trace s' = disk_trace s @ T \<and> disk s' = replay T (disk s) \<and>
     (\<forall>b. b \<notin> log_area (log s) \<longrightarrow> disk s' b = c_view (acache s) b) \<and>
     (\<forall>k r sb. fresh_boot r \<and> disk r = replay (take k T) (disk s) \<and> sb_logstart sb = lg_start (log s) \<longrightarrow>
        (\<exists>r'. initlog ROOTDEV sb r = Ok () r' \<and>
           ((\<forall>b. b \<notin> log_area (log s) \<longrightarrow> disk r' b = disk s b) \<or>
            (\<forall>b. b \<notin> log_area (log s) \<longrightarrow> disk r' b = c_view (acache s) b))))"
proof -
  let ?l = "log s" and ?v = "c_view (acache s)"
  let ?T = "commit_writes ?l ?v"
  have ok: "bio_ok s" and wf: "log_wf ?l"
    and refs: "c_refs (acache s) = (\<lambda>b. if b \<in> set (logged ?l) then 1 else 0)"
    using q by (auto simp: log_quiet_def)
  have v: "?v b = disk s b" if "b \<notin> set (logged ?l)" for b
    using clean_unreferenced [OF ok, of b] refs that by (simp add: acache_def)
  have a: "lg_start ?l \<in> log_area ?l" "lg_start ?l \<notin> set (logged ?l)"
    using wf by (auto simp: log_wf_def log_area_def)
  obtain s' where s': "commit s = Ok () s'" "disk_trace s' = disk_trace s @ ?T" "disk s' = replay ?T (disk s)"
    using commit_spec [OF q n] by (auto simp: acache_def)
  have len: "length (disk s (lg_start ?l)) = BSIZE" using ok by (simp add: bio_ok_def)
  have "disk s' b = ?v b" if "b \<notin> log_area ?l" for b
    using that a log_writes_other [of b ?l] wf v [of b] install_writes_at [OF wf] install_writes_other [OF wf]
    unfolding s'(3) commit_writes_def by (cases "b \<in> set (logged ?l)") auto
  moreover have "\<exists>r'. initlog ROOTDEV sb r = Ok () r' \<and>
     ((\<forall>b. b \<notin> log_area ?l \<longrightarrow> disk r' b = disk s b) \<or> (\<forall>b. b \<notin> log_area ?l \<longrightarrow> disk r' b = ?v b))"
    if r: "fresh_boot r" "disk r = replay (take k ?T) (disk s)" "sb_logstart sb = lg_start ?l" for k and r :: "'b log_state_scheme" and sb
  proof -
    let ?r = "r\<lparr>log := (log r)\<lparr>lg_start := sb_logstart sb, lg_size := sb_nlog sb, lg_dev := ROOTDEV\<rparr>\<rparr>"
    have "fresh_boot ?r" using r(1) by (simp add: fresh_boot_def)
    then show ?thesis
      using crash_recovers [OF wf n, of "disk s" ?v ?r k] clear v a len r
      by (auto simp: initlog_def set_log_def params)
  qed
  ultimately show ?thesis using s' by blast
qed

definition sample_log :: logt where
  "sample_log = \<lparr>lg_start = 2, lg_size = 30, lg_outstanding = 0, lg_committing = True, lg_dev = ROOTDEV,
     lg_n = 1, lg_block = 100 # replicate 29 0\<rparr>"

definition sample_dirty :: buf where
  "sample_dirty = blank_buf\<lparr>b_valid := True, b_dev := ROOTDEV, b_blockno := 100, b_refcnt := 1,
     b_data := replicate BSIZE 7\<rparr>"

definition sample_disk :: disk where
  "sample_disk = (\<lambda>_. replicate BSIZE 0)"

lemma sample_disk_length: "length (sample_disk b) = BSIZE"
  by (simp add: sample_disk_def)

definition sample_commit :: "log_state" where
  "sample_commit = machine (with_bufs [sample_dirty]) sample_disk \<lparr>log = sample_log\<rparr>"

lemma log_machine [simp]: "log (machine bs dk \<lparr>log = l, \<dots> = x\<rparr>) = l"
  by (simp add: machine_def)

lemma sample_commit_quiet: "log_quiet sample_commit"
proof -
  have ok: "bufs_ok sample_disk 1 (with_bufs [sample_dirty])"
    by (rule with_bufs_ok) (simp_all add: params buf_ok_def sample_dirty_def blank_buf_def initsleeplock_def)
  have c: "cached (with_bufs [sample_dirty]) b = (if b = 100 then Some 0 else None)" for b
    by (simp add: cached_single [OF ok]) (simp add: names_def sample_dirty_def)
  have "bio_ok sample_commit"
    unfolding sample_commit_def by (rule machine_ok [OF ok]) (simp add: sample_disk_def)
  moreover have "log_wf sample_log"
    by (simp add: log_wf_def sample_log_def params logged_def log_area_def)
  moreover have "c_held (acache sample_commit) = {}"
    by (auto simp: acache_def sample_commit_def cheld_def c split: if_splits) (simp add: sample_dirty_def blank_buf_def initsleeplock_def)
  moreover have "c_refs (acache sample_commit) = (\<lambda>b. if b \<in> set (logged sample_log) then 1 else 0)"
    by (auto simp: acache_def sample_commit_def crefs_def c logged_def sample_log_def fun_eq_iff) (simp add: sample_dirty_def)
  ultimately show ?thesis by (simp add: log_quiet_def sample_commit_def)
qed

lemma sample_commit_facts:
  "lg_n (log sample_commit) = 1" "lg_start (log sample_commit) = 2" "log_area (log sample_commit) = {2..<32}"
  "disk sample_commit = sample_disk" "head_n (sample_disk b) = 0"
  by (simp_all add: sample_commit_def sample_log_def log_area_def params sample_disk_def head_n_def)

lemma sample_commit_view: "c_view (acache sample_commit) 100 = replicate BSIZE 7"
proof -
  have "bufs_ok sample_disk (p_pid (myproc_of sample_commit)) (with_bufs [sample_dirty])"
    using sample_commit_quiet by (simp add: log_quiet_def bio_ok_def sample_commit_def)
  then show ?thesis
    using cached_single [of _ _ sample_dirty 100]
    by (auto simp: acache_def cview_def sample_commit_def with_bufs_def names_def sample_dirty_def)
qed

definition sample_boot :: log_state where
  "sample_boot = machine (with_bufs []) sample_disk \<lparr>log = sample_log\<lparr>lg_n := 0\<rparr>\<rparr>"

lemma sample_boot_fresh: "fresh_boot sample_boot" "disk sample_boot = sample_disk"
  by (simp_all add: fresh_boot_def sample_boot_def blank_machine [OF sample_disk_length] sample_log_def params)

theorem commit_crash_atomic_witness:
  "\<exists>s'. commit sample_commit = Ok () s' \<and> disk s' 100 = replicate BSIZE 7 \<and>
     (\<forall>sb. sb_logstart sb = 2 \<longrightarrow> (\<exists>r'. initlog ROOTDEV sb sample_boot = Ok () r'))"
proof -
  have n: "lg_n (log sample_commit) > 0" and h: "head_n (disk sample_commit (lg_start (log sample_commit))) = 0"
    by (simp_all add: sample_commit_facts)
  have out: "100 \<notin> log_area (log sample_commit)" by (simp add: sample_commit_facts)
  from commit_crash_atomic [OF sample_commit_quiet n h]
  obtain s' T where s': "commit sample_commit = Ok () s'"
    "\<forall>b. b \<notin> log_area (log sample_commit) \<longrightarrow> disk s' b = c_view (acache sample_commit) b"
    "\<forall>k (r :: log_state) sb. fresh_boot r \<and> disk r = replay (take k T) (disk sample_commit) \<and>
       sb_logstart sb = lg_start (log sample_commit) \<longrightarrow>
       (\<exists>r'. initlog ROOTDEV sb r = Ok () r' \<and>
          ((\<forall>b. b \<notin> log_area (log sample_commit) \<longrightarrow> disk r' b = disk sample_commit b) \<or>
           (\<forall>b. b \<notin> log_area (log sample_commit) \<longrightarrow> disk r' b = c_view (acache sample_commit) b)))"
    by blast
  have "\<exists>r'. initlog ROOTDEV sb sample_boot = Ok () r'" if "sb_logstart sb = 2" for sb
    using s'(3) [rule_format, of sample_boot 0 sb] that by (auto simp: sample_boot_fresh sample_commit_facts)
  with s'(1,2) out show ?thesis by (simp add: sample_commit_view)
qed

section \<open>Recovery releases a reference it does not hold\<close>

text \<open>C21. The recovery path of \<^verbatim>\<open>install_trans\<close> calls \<^verbatim>\<open>bunpin\<close> on buffers that were never
  pinned: after a recovery that installs block \<open>b\<close>, the reference count of its buffer is
  \<open>2 ^ 32 - 1\<close>, so the buffer is never recycled.\<close>

theorem recovery_refcnt_underflow:
  assumes "fresh_boot s" and "l = head_log (disk s (lg_start (log s))) (log s)" and "log_wf l"
    and "b \<in> set (logged l)"
  shows "\<exists>s'. recover_from_log s = Ok () s' \<and> c_refs (acache s') b = 2 ^ 32 - 1"
  using recover_spec [of s l] assms by (auto simp: fresh_boot_def)

definition sample_crashed :: log_state where
  "sample_crashed = machine (with_bufs []) (sample_disk(2 := put_head 1 [100] (sample_disk 2)))
     \<lparr>log = sample_log\<lparr>lg_n := 0\<rparr>\<rparr>"

lemma sample_crashed_facts:
  "fresh_boot sample_crashed"
  "log_wf (head_log (disk sample_crashed 2) (log sample_crashed))"
  "logged (head_log (disk sample_crashed 2) (log sample_crashed)) = [100]"
proof -
  have len: "length ((sample_disk(2 := put_head 1 [100] (sample_disk 2))) b) = BSIZE" for b
    by (simp add: sample_disk_length length_put_head LOGSIZE_def MAXOPBLOCKS_def)
  show "fresh_boot sample_crashed"
    by (simp add: fresh_boot_def sample_crashed_def blank_machine [OF len] sample_log_def LOGSIZE_def MAXOPBLOCKS_def)
  have h: "head_n (put_head 1 [100] (sample_disk 2)) = 1" "head_block 0 (put_head 1 [100] (sample_disk 2)) = 100"
    by (simp_all add: head_n_put_head head_block_put_head sample_disk_length LOGSIZE_def MAXOPBLOCKS_def)
  then show l: "logged (head_log (disk sample_crashed 2) (log sample_crashed)) = [100]"
    by (simp add: sample_crashed_def head_log_def logged_def sample_log_def upt_rec)
  then show "log_wf (head_log (disk sample_crashed 2) (log sample_crashed))"
    using h by (simp add: log_wf_def log_area_def) (simp add: sample_crashed_def head_log_def sample_log_def params)
qed

theorem recovery_refcnt_underflow_witness:
  "\<exists>s'. recover_from_log sample_crashed = Ok () s' \<and> c_refs (acache s') 100 = 2 ^ 32 - 1"
  using recovery_refcnt_underflow [OF sample_crashed_facts(1) refl, of 100] sample_crashed_facts(2,3)
  by (simp add: sample_crashed_def sample_log_def)

end
