(* ===== verification/Machine_Fs.thy ===== *)
theory Machine_Fs
  imports Fs_Data Log_Crash
begin

text \<open>
  A concrete file system: an image laid out as \<^verbatim>\<open>mkfs\<close> does, a kernel state inside a transaction over it,
  and an empty file, on which the theorems about the file system are evaluated.
\<close>

unbundle bit_operations_syntax

text \<open>The layout that \<^verbatim>\<open>mkfs\<close> gives an image of 1000 blocks: the log at 2, the inodes at 32, the bitmap
  at 45. Blocks 0 to 47 are in use.\<close>

definition sample_sb :: superblock where
  "sample_sb = \<lparr>sb_magic = 0x10203040, sb_size = 1000, sb_nblocks = 954, sb_ninodes = 200, sb_nlog = 30,
     sb_logstart = 2, sb_inodestart = 32, sb_bmapstart = 45\<rparr>"

definition sample_image :: disk where
  "sample_image = (\<lambda>_. replicate BSIZE 0)(45 := replicate 6 255 @ replicate (BSIZE - 6) 0)"

definition open_log :: logt where
  "open_log = \<lparr>lg_start = 2, lg_size = 30, lg_outstanding = 1, lg_committing = False, lg_dev = ROOTDEV,
     lg_n = 0, lg_block = replicate LOGSIZE 0\<rparr>"

definition sample_inode :: inode where
  "sample_inode = \<lparr>i_dev = ROOTDEV, i_inum = 5, i_ref = 1, i_lock = \<lparr>slk_locked = True, slk_pid = 1\<rparr>,
     i_valid = True, i_type = 2, i_major = 0, i_minor = 0, i_nlink = 1, i_size = 0,
     i_addrs = replicate (NDIRECT + 1) 0, i_mode = 0, i_perm = 3\<rparr>"

definition sample_fs :: fs_state where
  "sample_fs = machine (with_bufs []) sample_image
     \<lparr>log = open_log, sb = sample_sb, icache = [sample_inode]\<rparr>"

lemma sample_sb_simps [simp]: "sb_size sample_sb = 1000" "sb_ninodes sample_sb = 200"
  by (simp_all add: sample_sb_def)

lemma sample_image_length: "length (sample_image b) = BSIZE"
  by (simp add: sample_image_def params)

lemma sample_fs_simps [simp]:
  "log sample_fs = open_log" "sb sample_fs = sample_sb" "icache sample_fs = [sample_inode]"
  "cur sample_fs = 0" "length (procs sample_fs) = 1"
  by (simp_all add: sample_fs_def machine_def)

lemma machine_txn:
  assumes len: "\<And>b. length (dk b) = BSIZE" and l: "log_wf l" "lg_n l = 0" "lg_outstanding l \<ge> 1"
  shows "txn (machine (with_bufs []) dk \<lparr>log = l, \<dots> = y\<rparr>) dk {} {}"
  unfolding txn_def blank_machine [OF len] using l blank_machine(1) [OF len, where x = "\<lparr>log = l, \<dots> = y\<rparr>"]
  by (simp add: logged_def log_machine)

lemma sample_fs_txn: "txn sample_fs sample_image {} {}"
  unfolding sample_fs_def
  by (rule machine_txn [OF sample_image_length]) (simp_all add: log_wf_def open_log_def params logged_def)

lemma log_cap_open_log: "log_cap open_log = 29"
  by (simp add: log_cap_def open_log_def params)

lemma ones_and_bmask: "(255 :: uchar) AND bmask k \<noteq> 0"
proof -
  have e: "(255 :: uchar) = - 1" by simp
  have "bit (bmask k) (k mod 8)" by (simp add: bmask_def bit_simps)
  then show ?thesis unfolding e by auto
qed

lemma sample_used:
  assumes "b < 1000"
  shows "block_used sample_sb sample_image b \<longleftrightarrow> b < 48"
  using assms ones_and_bmask
  by (simp add: block_used_def BBLOCK_def sample_sb_def sample_image_def params nth_append) (auto simp: div_less_iff_less_mult)

lemma sample_blocks:
  "bitmap_blocks sample_sb = {45}" "inode_blocks sample_sb = {32..44}" "log_area open_log = {2..<32}"
proof -
  have "BBLOCK b sample_sb = 45" if "b < 1000" for b
    using that by (simp add: BBLOCK_def sample_sb_def params)
  moreover have "sb_size sample_sb = 1000" by (simp add: sample_sb_def)
  ultimately have "bitmap_blocks sample_sb = (\<lambda>_. 45) ` {..<1000 :: nat}"
    unfolding bitmap_blocks_def by (intro image_cong) auto
  then show "bitmap_blocks sample_sb = {45}" by (simp add: image_constant_conv lessThan_empty_iff)
  have "IBLOCK i sample_sb = i div 16 + 32" for i by (simp add: IBLOCK_def sample_sb_def params)
  then have "inode_blocks sample_sb = (\<lambda>i. i div 16 + 32) ` {..<200}" by (simp add: inode_blocks_def sample_sb_def)
  moreover have "b \<in> (\<lambda>i. i div 16 + 32) ` {..<200}" if "b \<in> {32..44}" for b :: nat
    using that by (intro image_eqI [of _ _ "(b - 32) * 16"]) auto
  ultimately show "inode_blocks sample_sb = {32..44}" by auto
  show "log_area open_log = {2..<32}" by (simp add: log_area_def open_log_def params)
qed

lemma sample_layout: "layout_ok sample_sb open_log sample_image"
  unfolding layout_ok_def sample_blocks using sample_used by (auto simp: sample_sb_def)

lemma sample_free: "free_blocks sample_sb sample_image = {48..<1000}"
  using sample_used by (auto simp: free_blocks_def sample_sb_def)

lemma sample_inode_simps:
  "indirect sample_inode = 0" "k < MAXFILE \<Longrightarrow> blk sample_inode v k = 0" "length (i_addrs sample_inode) = NDIRECT + 1"
  "i_dev sample_inode = ROOTDEV" "i_size sample_inode = 0" "i_inum sample_inode = 5"
  by (simp_all add: blk_def indirect_def sample_inode_def del: replicate_Suc)

lemma sample_file: "file_at sample_fs sample_image {} 0 sample_inode" "file_full sample_inode sample_image"
  using sample_fs_txn sample_layout by (simp_all add: file_at_def file_wf_def file_full_def sample_inode_simps)

end
