(* ===== verification/Machine_Vm.thy ===== *)
theory Machine_Vm
  imports Vm_Spec
begin

text \<open>
  A concrete memory with a page table that maps the first two pages of user memory, on which the theorems about
  memory are evaluated.
\<close>

unbundle bit_operations_syntax

text \<open>The two pages are at 0x80014000 and 0x80013000; the first holds two bytes other than zero.\<close>

definition sample_mem :: "uint64 \<Rightarrow> uchar" where
  "sample_mem =
     st64 0x80010000 0x20004401
      (st64 0x80011000 0x20004801
        (st64 0x80012000 0x20005017
          (st64 0x80012008 0x20004C17 ((\<lambda>_. 0)(0x80014010 := 104, 0x80014011 := 105)))))"

lemma sample_table:
  "ld64 0x80010000 sample_mem = 0x20004401" "ld64 0x80011000 sample_mem = 0x20004801"
  "ld64 0x80012000 sample_mem = 0x20005017" "ld64 0x80012008 sample_mem = 0x20004C17"
  by (simp_all add: sample_mem_def ld64_st64_other)

lemma sample_entries:
  "PTE2PA 0x20004401 = 0x80011000" "PTE2PA 0x20004801 = 0x80012000" "PTE2PA 0x20005017 = 0x80014000" "PTE2PA 0x20004C17 = 0x80013000"
  by (simp_all add: PTE2PA_def push_bit_eq_mult drop_bit_eq_div)

lemma sample_PX: "PX k 0 = 0" "PX (Suc 0) 0x1000 = 0" "PX 2 0x1000 = 0" "PX 0 0x1000 = 1"
  by (simp_all add: PX_def drop_bit_eq_div)

lemma sample_walk:
  "walk_bytes 2 sample_mem 0x80010000 0 = word_bytes 0x80010000 \<union> word_bytes 0x80011000 \<union> word_bytes 0x80012000"
  "walk_bytes 2 sample_mem 0x80010000 0x1000 = word_bytes 0x80010000 \<union> word_bytes 0x80011000 \<union> word_bytes 0x80012008"
  "PGROUNDDOWN va = 0 \<Longrightarrow> upa sample_mem 0x80010000 va = Some (0x80014000 + va)"
  "PGROUNDDOWN va = 0x1000 \<Longrightarrow> upa sample_mem 0x80010000 va = Some (0x80013000 + (va - 0x1000))"
  by (simp_all add: walk_bytes_2 walk_ro_2 sample_PX PTE_V_def PTE_U_def sample_table sample_entries Let_def upa_def walkaddr_ro_def MAXVA_def push_bit_eq_mult Un_assoc)

lemma PGROUNDDOWN_sample: "PGROUNDDOWN 0xFFE = 0" "PGROUNDDOWN 0xFFF = 0" "PGROUNDDOWN 0x1000 = 0x1000" "PGROUNDDOWN 0x1001 = 0x1000"
  by (simp_all add: PGROUNDDOWN_def)

lemma all_less_4: "(\<forall>i<4. P i) \<longleftrightarrow> P 0 \<and> P 1 \<and> P 2 \<and> P (3 :: nat)"
  by (auto simp: less_Suc_eq numeral_eq_Suc)

lemma sample_range: "user_range sample_mem 0x80010000 0xFFE 4"
  unfolding user_range_def all_less_4
  by (simp add: sample_walk PGROUNDDOWN_sample notin_word_bytes)

lemma sample_data: "sample_mem 0x80014010 = 104" "sample_mem 0x80014011 = 105"
  by (simp_all add: sample_mem_def st64_def store_bytes_def)

end
