(* ===== verification/Pipe_Correct.thy ===== *)
theory Pipe_Correct
  imports Pipe Machine_Fs Machine_Vm
begin

text \<open>
  The correctness of \<^verbatim>\<open>src/kernel/pipe.c\<close>.
\<close>

section \<open>Reading\<close>

lemma piperead_loop_spec:
  assumes "pipes s pi = Some p" and "pipe_ok p" and "k \<le> length (pipe_queue p)"
    and "pt = p_pagetable (myproc_of s)" and "user_range (mem s) pt (addr + of_nat i) k"
  shows "piperead_loop pi addr i k s =
     Ok (i + k) (s\<lparr>mem := user_store (mem s) pt (addr + of_nat i) (take k (pipe_queue p)), pipes := (pipes s)(pi \<mapsto> (pipe_drop ^^ k) p)\<rparr>)"
  using assms
proof (induction k arbitrary: s p i)
  case 0
  then show ?case by (simp add: user_store_def fun_upd_idem)
next
  case (Suc k)
  obtain b q where q: "pipe_queue p = b # q" using Suc.prems(3) by (cases "pipe_queue p") auto
  then have ne: "pi_nread p \<noteq> pi_nwrite p" using length_pipe_queue [of p] by auto
  have d: "pipe_front p = b" "pipe_ok (pipe_drop p)" "pipe_queue (pipe_drop p) = q"
    using pipe_ring.front_queue [OF Suc.prems(2)] pipe_ring.rest_ok [OF Suc.prems(2)] pipe_ring.rest_queue [OF Suc.prems(2)] q by simp_all
  define cs where "cs = take k q"
  have l: "length cs = k" using Suc.prems(3) q by (simp add: cs_def)
  then have r: "user_range (mem s) pt (addr + of_nat i) (length ([b] @ cs))" using Suc.prems(5) by simp
  let ?va = "addr + of_nat i"
  let ?s = "s\<lparr>pipes := (pipes s)(pi \<mapsto> pipe_drop p)\<rparr>"
  let ?t = "?s\<lparr>mem := user_store (mem s) pt ?va [b]\<rparr>"
  have "user_range (mem ?s) pt ?va (length [b])" using user_range_take [OF r, of 1] by simp
  then have 1: "copyout pt ?va [b] ?s = Ok 0 ?t" using copyout_spec [of ?s pt ?va "[b]"] by simp
  have "user_range (mem ?t) pt (addr + of_nat (Suc i)) k" using user_range_after [OF r] l by (simp add: algebra_simps)
  then have 2: "piperead_loop pi addr (Suc i) k ?t = Ok (Suc i + k) (?t\<lparr>mem := user_store (mem ?t) pt (addr + of_nat (Suc i)) (take k q),
      pipes := (pipes ?t)(pi \<mapsto> (pipe_drop ^^ k) (pipe_drop p))\<rparr>)"
    using Suc.IH [of ?t "pipe_drop p" "Suc i"] Suc.prems(3,4) d q by (simp add: myproc_of_def fun_upd_def cong: if_cong)
  have "user_store (mem s) pt ?va (take (Suc k) (pipe_queue p)) = user_store (user_store (mem s) pt ?va [b]) pt (addr + of_nat (Suc i)) (take k q)"
    using user_store_append [OF r] q by (simp add: cs_def algebra_simps)
  then show ?case
    using 1 2 ne d(1) Suc.prems(1,4)
    by (simp add: myproc_def get_pipe_def upd_pipe_run funpow_swap1 fun_upd_def myproc_of_def cong: if_cong)
qed

lemma wake_user [simp]: "p_pagetable (wake ch q) = p_pagetable q" "p_killed (wake ch q) = p_killed q"
  by (simp_all add: wake_def)

section \<open>Properties\<close>

text \<open>C11. A pipe is first-in first-out, with counters that wrap around: for any sequence of bytes put in while there is
  room and taken out while there are any, what was in the pipe followed by what was accepted is what was delivered followed
  by what is left.\<close>

theorem pipe_fifo:
  assumes "pipe_ok p" and "ring_run PIPESIZE (\<lambda>p. length (pipe_queue p)) pipe_put pipe_front pipe_drop ops p = (accepted, delivered, p')"
  shows "pipe_ok p' \<and> pipe_queue p @ accepted = delivered @ pipe_queue p'"
  by (rule pipe_ring.fifo [OF assms])

text \<open>C10. \<^verbatim>\<open>pipewrite\<close> of bytes that fit returns their number and appends them to the pipe; a \<^verbatim>\<open>piperead\<close> by any process
  afterwards returns the bytes at the head of the pipe, which it then finds at its user address, and removes them.\<close>

theorem piperead_after_pipewrite:
  assumes p: "pipes s pi = Some p" "pipe_ok p" "length (pipe_queue p) + length bs \<le> PIPESIZE"
    and src: "user_bytes s addr bs"
    and dst: "pt = p_pagetable (procs s ! c)" "user_range (mem s) pt dst k"
    and k: "0 < k" "k \<le> length (pipe_queue p) + length bs" and c: "c < length (procs s)"
  shows "\<exists>s' s''. pipewrite pi addr (int (length bs)) s = Ok (int (length bs)) s' \<and>
     piperead pi dst (int k) (s'\<lparr>cur := c\<rparr>) = Ok (int k) s'' \<and>
     copyin pt dst k s'' = Ok (0, take k (pipe_queue p @ bs)) s'' \<and>
     map_option pipe_queue (pipes s'' pi) = Some (drop k (pipe_queue p @ bs))"
proof -
  let ?q = "pipe_queue p @ bs" and ?p = "fold pipe_put bs p"
  have l: "length bs \<le> PIPESIZE" using p(3) by simp
  note put = pipe_ring.put_all [OF p(2,3)]
  have "user_bytes s (addr + of_nat (0 + i)) [bs ! i]" if "i < length bs" for i
    using src that by (auto simp: user_bytes_def)
  note w = pipewrite_loop_spec [OF p, of addr 0, OF this]
  let ?s = "s\<lparr>pipes := (pipes s)(pi \<mapsto> ?p), procs := map (wake (ChanPipeRead (unat pi))) (procs s)\<rparr>"
  have 1: "pipewrite pi addr (int (length bs)) s = Ok (int (length bs)) ?s"
    using w by (simp add: pipewrite_def wakeup_run)
  let ?t = "?s\<lparr>cur := c\<rparr>"
  have ne: "pi_nread ?p \<noteq> pi_nwrite ?p"
  proof
    assume "pi_nread ?p = pi_nwrite ?p"
    then show False using put k length_pipe_queue [of ?p] by simp
  qed
  have pt: "pt = p_pagetable (myproc_of ?t)" using dst(1) c by (simp add: myproc_of_def)
  have r: "user_range (mem ?t) pt (dst + of_nat 0) k" using dst(2) by simp
  let ?u = "?t\<lparr>mem := user_store (mem s) pt dst (take k ?q), pipes := (pipes ?t)(pi \<mapsto> (pipe_drop ^^ k) ?p)\<rparr>"
  have "piperead_loop pi dst 0 k ?t = Ok k ?u"
    using piperead_loop_spec [OF _ _ _ pt r, of pi ?p] put k by simp
  then have 2: "piperead pi dst (int k) ?t = Ok (int k) (?u\<lparr>procs := map (wake (ChanPipeWrite (unat pi))) (procs ?u)\<rparr>)" (is "_ = Ok _ ?v")
    using ne by (simp add: piperead_def myproc_def get_pipe_def wakeup_run)
  have lk: "length (take k ?q) = k" using k by simp
  then have "copyin pt dst k ?v = Ok (0, take k ?q) ?v"
    using copyin_user_store [of s pt dst "take k ?q" ?v, unfolded lk] dst(2) by simp
  moreover have "map_option pipe_queue (pipes ?v pi) = Some (drop k ?q)"
    using pipe_ring.rest_all [of ?p k] put k by simp
  ultimately show ?thesis using 1 2 by blast
qed

text \<open>A pipe in a machine whose process has the page table of \<^verbatim>\<open>Machine_Vm\<close>.\<close>

definition sample_pipe :: pipe where
  "sample_pipe = \<lparr>pi_data = replicate PIPESIZE 0, pi_nread = 0xFFFFFFFF, pi_nwrite = 0xFFFFFFFF, pi_readopen = True, pi_writeopen = True\<rparr>"

definition pipe_machine :: pipe_state where
  "pipe_machine =
     (machine (with_bufs []) sample_image
       \<lparr>log = open_log, sb = sample_sb, icache = [],
        uart = \<lparr>u_tx_buf = [], u_tx_w = 0, u_tx_r = 0, u_rhr = [], u_sent = [], u_wait = 0, u_busy = (\<lambda>_. 0)\<rparr>,
        cons = \<lparr>c_buf = [], c_r = 0, c_w = 0, c_e = 0\<rparr>, pipes = [0x80020000 \<mapsto> sample_pipe]\<rparr>)
     \<lparr>mem := sample_mem, procs := [running_proc\<lparr>p_pagetable := 0x80010000\<rparr>]\<rparr>"

lemma sample_pipe_ok: "pipe_ok sample_pipe" "pipe_queue sample_pipe = []"
  by (simp_all add: pipe_ok_def sample_pipe_def pipe_queue_def ring_list_def)

lemma pipe_machine_simps [simp]:
  "mem pipe_machine = sample_mem" "procs pipe_machine = [running_proc\<lparr>p_pagetable := 0x80010000\<rparr>]" "cur pipe_machine = 0"
  "pipes pipe_machine = [0x80020000 \<mapsto> sample_pipe]"
  by (simp_all add: pipe_machine_def machine_def)

theorem pipe_fifo_witness:
  "\<exists>p'. ring_run PIPESIZE (\<lambda>p. length (pipe_queue p)) pipe_put pipe_front pipe_drop [Put 7, Put 9, Take] sample_pipe = ([7, 9], [7], p') \<and>
     pipe_queue p' = [9]"
proof -
  note a = pipe_ring.put_ok [of sample_pipe 7] pipe_ring.put_queue [of sample_pipe 7]
  note b = pipe_ring.put_ok [of "pipe_put 7 sample_pipe" 9] pipe_ring.put_queue [of "pipe_put 7 sample_pipe" 9]
  have "ring_run PIPESIZE (\<lambda>p. length (pipe_queue p)) pipe_put pipe_front pipe_drop [Put 7, Put 9, Take] sample_pipe =
      ([7, 9], [7], pipe_drop (pipe_put 9 (pipe_put 7 sample_pipe)))"
    using a b pipe_ring.front_queue [of "pipe_put 9 (pipe_put 7 sample_pipe)"] sample_pipe_ok by (simp add: params)
  then show ?thesis using pipe_fifo [OF sample_pipe_ok(1), of "[Put 7, Put 9, Take]"] sample_pipe_ok(2) by fastforce
qed

theorem piperead_after_pipewrite_witness:
  "\<exists>s' s''. pipewrite 0x80020000 0x10 2 pipe_machine = Ok 2 s' \<and> piperead 0x80020000 0x20 2 (s'\<lparr>cur := 0\<rparr>) = Ok 2 s'' \<and>
     copyin 0x80010000 0x20 2 s'' = Ok (0, [104, 105]) s''"
proof -
  have pg: "PGROUNDDOWN 0x10 = 0" "PGROUNDDOWN 0x11 = 0" "PGROUNDDOWN 0x20 = 0" "PGROUNDDOWN 0x21 = 0" by (simp_all add: PGROUNDDOWN_def)
  have all2: "(\<forall>i<2. P i) \<longleftrightarrow> P 0 \<and> P (1 :: nat)" for P by (auto simp: less_2_cases_iff)
  have "user_range sample_mem 0x80010000 0x20 2"
    unfolding user_range_def all2 by (simp add: sample_walk pg notin_word_bytes)
  moreover have "copyin 0x80010000 0x10 1 pipe_machine = Ok (0, [104]) pipe_machine" "copyin 0x80010000 0x11 1 pipe_machine = Ok (0, [105]) pipe_machine"
    using copyin_spec [of 1 pipe_machine "0x80010000"] by (simp_all add: sample_walk pg sample_data)
  then have "user_bytes pipe_machine 0x10 [104, 105]"
    by (simp add: user_bytes_def myproc_of_def less_Suc_eq)
  ultimately show ?thesis
    using piperead_after_pipewrite [of pipe_machine "0x80020000" sample_pipe "[104, 105]" "0x10" "0x80010000" 0 "0x20" 2] sample_pipe_ok
    by (auto simp: params)
qed

end
