(* ===== verification/Fd_Table.thy ===== *)
theory Fd_Table
  imports Sysfile Sh_Run Pipe_Correct
begin





end
