(* ===== verification/Lru_Order.thy ===== *)
theory Lru_Order
  imports Lru
begin

text \<open>
  The order that the releases of \<^verbatim>\<open>src/kernel/bio.c\<close> keep in the ring of buffers: the least recently used buffer comes last.
\<close>

text \<open>The list of buffers after a series of releases: the released ones, the last first, and then the others as they were.\<close>

definition recent_first :: "nat list \<Rightarrow> nat list \<Rightarrow> nat list" where
  "recent_first bs xs = rev (remdups bs) @ filter (\<lambda>x. x \<notin> set bs) xs"

text \<open>The moves to the front of the ring that a series of calls of \<^verbatim>\<open>brelse\<close> makes.\<close>

definition releases :: "nat list \<Rightarrow> links \<Rightarrow> links" where
  "releases = fold (\<lambda>b l. link_head b (unlink_buf b l))"

lemma remdups_snoc: "remdups (bs @ [b]) = filter (\<lambda>x. x \<noteq> b) (remdups bs) @ [b]"
  by (induction bs) auto

lemma move_to_front_filter: "distinct xs \<Longrightarrow> move_to_front b xs = b # filter (\<lambda>x. x \<noteq> b) xs"
  by (auto simp: move_to_front_def distinct_remove1_removeAll removeAll_filter_not_eq intro: filter_cong)

lemma recent_first_snoc:
  assumes "distinct xs"
  shows "move_to_front b (recent_first bs xs) = recent_first (bs @ [b]) xs"
proof -
  have "distinct (recent_first bs xs)" using assms by (auto simp: recent_first_def)
  then show ?thesis
    by (simp add: move_to_front_filter) (simp add: recent_first_def remdups_snoc rev_filter conj_commute)
qed

lemma releases_ring:
  assumes "ring_of l xs" and "set bs \<subseteq> set xs"
  shows "ring_of (releases bs l) (recent_first bs xs)"
  using assms(2)
proof (induction bs rule: rev_induct)
  case Nil
  then show ?case using assms(1) by (simp add: recent_first_def releases_def)
next
  case (snoc b bs)
  have d: "distinct xs" using assms(1) by (simp add: ring_of_def)
  have "b \<in> set (recent_first bs xs)" using snoc.prems by (auto simp: recent_first_def)
  from release_ring [OF _ this] show ?case using snoc recent_first_snoc [OF d, of b bs] by (simp add: releases_def)
qed

text \<open>C32. The pointer-linked ring of the buffer cache is a list in the order of use: after \<^verbatim>\<open>binit\<close> and any series of releases, the ring holds every
  buffer once, the released buffers first with the last released at the front, and the backward scan of \<^verbatim>\<open>bget\<close> finds the
  least recently used buffer that it is looking for.\<close>

theorem lru_order:
  assumes "set bs \<subseteq> {..<NBUF}"
  shows "ring_of (releases bs (binit_links l)) (recent_first bs (rev [0..<NBUF])) \<and>
     scan (Suc NBUF) (lprev (releases bs (binit_links l))) P (lprev (releases bs (binit_links l)) BHEAD) = find P (filter (\<lambda>x. x \<notin> set bs) [0..<NBUF] @ remdups bs)"
proof -
  have r: "ring_of (releases bs (binit_links l)) (recent_first bs (rev [0..<NBUF]))"
    by (rule releases_ring [OF binit_ring]) (use assms(1) in auto)
  have "set (recent_first bs (rev [0..<NBUF])) = {..<NBUF}" using assms(1) by (auto simp: recent_first_def)
  then have "length (recent_first bs (rev [0..<NBUF])) < Suc NBUF" using ring_length [OF r] by simp
  from scan_prev [OF r this] show ?thesis using r by (simp add: recent_first_def rev_filter [symmetric])
qed

lemma find_append_None: "find P xs = None \<Longrightarrow> find P (xs @ ys) = find P ys"
  by (induction xs) (auto split: if_splits)

theorem lru_order_witness:
  "scan (Suc NBUF) (lprev (releases [0, 1, 0] (binit_links \<lparr>lnext = id, lprev = id\<rparr>)))
     (\<lambda>b. b \<in> {0, 1}) (lprev (releases [0, 1, 0] (binit_links \<lparr>lnext = id, lprev = id\<rparr>)) BHEAD) = Some 1"
proof -
  have s: "set [0, 1, 0] \<subseteq> {..<NBUF}" by (simp add: NBUF_def MAXOPBLOCKS_def)
  have "find (\<lambda>b. b \<in> {0, 1}) (filter (\<lambda>x. x \<notin> set [0, 1, 0]) [0..<NBUF] @ remdups [0, 1, 0 :: nat]) = Some 1"
    by (subst find_append_None) (auto simp: find_None_iff)
  then show ?thesis using lru_order [OF s, of "\<lparr>lnext = id, lprev = id\<rparr>" "\<lambda>b. b \<in> {0, 1}"] by simp
qed

end
