(* ===== verification/Process.thy ===== *)
theory Process
  imports Sysfile
begin

text \<open>
  The life of a process: the parts of \<^verbatim>\<open>src/kernel/proc.c\<close> that allocate, copy, end and schedule
  processes, and the kernel page table of \<^verbatim>\<open>src/kernel/vm.c\<close>. Addresses that the linker fixes
  (\<^verbatim>\<open>etext\<close>, \<^verbatim>\<open>trampoline\<close>, the function \<^verbatim>\<open>forkret\<close>) are components of the state that no
  operation changes.
\<close>

section \<open>State\<close>

record os_state = file_state +
  kernel_pagetable :: uint64
  etext :: uint64
  trampoline_pa :: uint64
  forkret_pc :: uint64
  first_forkret :: bool
  ticks :: uint32

definition UART0 :: uint64 where [params]: "UART0 = 0x10000000"
definition VIRTIO0 :: uint64 where [params]: "VIRTIO0 = 0x10001000"
definition CLINT :: uint64 where [params]: "CLINT = 0x2000000"
definition PLIC :: uint64 where [params]: "PLIC = 0x0c000000"

definition KSTACK :: "nat \<Rightarrow> uint64" where
  "KSTACK p = TRAMPOLINE - (of_nat p + 1) * 2 * 4096"

definition set_proc :: "nat \<Rightarrow> (proc \<Rightarrow> proc) \<Rightarrow> ('a proc_state_scheme, unit) kmon" where
  "set_proc i f = kmod (upd_proc i f)"

definition get_proc :: "nat \<Rightarrow> ('a proc_state_scheme, proc) kmon" where
  "get_proc i = kget (\<lambda>s. procs s ! i)"

section \<open>The kernel page table\<close>

definition kvmmap :: "uint64 \<Rightarrow> uint64 \<Rightarrow> uint64 \<Rightarrow> uint64 \<Rightarrow> ('a os_state_scheme, unit) kmon" where
  "kvmmap va pa sz perm =
     kbind (kget kernel_pagetable) (\<lambda>pt.
     kbind (mappages pt va sz pa perm) (\<lambda>r.
     kwhen (r \<noteq> 0) (kpanic ''kvmmap'')))"

definition kvminit :: "('a os_state_scheme, unit) kmon" where
  "kvminit =
     kbind kalloc (\<lambda>pt.
     kseq (kmod (\<lambda>s. s\<lparr>kernel_pagetable := pt\<rparr>))
    (kseq (set_mem (memset pt 0 PGSIZE))
    (kseq (kvmmap UART0 UART0 4096 (PTE_R OR PTE_W))
    (kseq (kvmmap VIRTIO0 VIRTIO0 4096 (PTE_R OR PTE_W))
    (kseq (kvmmap CLINT CLINT 0x10000 (PTE_R OR PTE_W))
    (kseq (kvmmap PLIC PLIC 0x400000 (PTE_R OR PTE_W))
    (kbind (kget etext) (\<lambda>e.
     kseq (kvmmap KERNBASE KERNBASE (e - KERNBASE) (PTE_R OR PTE_X))
    (kseq (kvmmap e e (PHYSTOP - e) (PTE_R OR PTE_W))
    (kbind (kget trampoline_pa) (\<lambda>t.
     kvmmap TRAMPOLINE t 4096 (PTE_R OR PTE_X))))))))))))"

definition kvmpa :: "uint64 \<Rightarrow> ('a os_state_scheme, uint64) kmon" where
  "kvmpa va =
     kbind (kget kernel_pagetable) (\<lambda>pt.
     kbind (walk pt va False) (\<lambda>pte.
     if pte = 0 then kpanic ''kvmpa''
     else
       kbind (kget (\<lambda>s. ld64 pte (mem s))) (\<lambda>v.
       if v AND PTE_V = 0 then kpanic ''kvmpa''
       else kret (PTE2PA v + va mod 4096))))"

definition procinit :: "('a os_state_scheme, unit) kmon" where
  "procinit =
     kfor [0..<NPROC] (\<lambda>p.
       kbind kalloc (\<lambda>pa.
       if pa = 0 then kpanic ''kalloc''
       else
         kseq (kvmmap (KSTACK p) pa 4096 (PTE_R OR PTE_W))
              (set_proc p (\<lambda>q. q\<lparr>p_kstack := KSTACK p\<rparr>))))"

section \<open>Page tables and slots of processes\<close>

definition allocpid :: "('a proc_state_scheme, int) kmon" where
  "allocpid =
     kbind (kget nextpid) (\<lambda>pid.
     kseq (kmod (\<lambda>s. s\<lparr>nextpid := pid + 1\<rparr>))
          (kret pid))"

definition proc_pagetable :: "nat \<Rightarrow> ('a os_state_scheme, uint64) kmon" where
  "proc_pagetable p =
     kbind uvmcreate (\<lambda>pt.
     if pt = 0 then kret 0
     else
       kbind (kget trampoline_pa) (\<lambda>t.
       kbind (mappages pt TRAMPOLINE 4096 t (PTE_R OR PTE_X)) (\<lambda>r.
       if r < 0 then kseq (uvmfree pt 0) (kret 0)
       else
         kbind (get_proc p) (\<lambda>q.
         kbind (mappages pt TRAPFRAME 4096 (p_trapframe q) (PTE_R OR PTE_W)) (\<lambda>r.
         if r < 0 then
           kseq (uvmunmap pt TRAMPOLINE 1 False)
          (kseq (uvmfree pt 0)
                (kret 0))
         else kret pt)))))"

definition proc_freepagetable :: "uint64 \<Rightarrow> uint64 \<Rightarrow> ('a kmem_state_scheme, unit) kmon" where
  "proc_freepagetable pagetable sz =
     kseq (uvmunmap pagetable TRAMPOLINE 1 False)
    (kseq (uvmunmap pagetable TRAPFRAME 1 False)
          (uvmfree pagetable sz))"

definition freeproc :: "nat \<Rightarrow> ('a proc_state_scheme, unit) kmon" where
  "freeproc p =
     kbind (get_proc p) (\<lambda>q.
     kseq (kwhen (p_trapframe q \<noteq> 0) (kfree (p_trapframe q)))
    (kseq (set_proc p (\<lambda>q. q\<lparr>p_trapframe := 0\<rparr>))
    (kseq (kwhen (p_pagetable q \<noteq> 0) (proc_freepagetable (p_pagetable q) (p_sz q)))
          (set_proc p (\<lambda>q. q\<lparr>p_pagetable := 0, p_sz := 0, p_pid := 0, p_parent := None,
             p_name := (p_name q)[0 := 0], p_chan := None, p_killed := False, p_xstate := 0,
             p_state := UNUSED\<rparr>)))))"

definition allocproc :: "('a os_state_scheme, nat option) kmon" where
  "allocproc =
     kbind (kget procs) (\<lambda>ps.
     case find (\<lambda>i. p_state (ps ! i) = UNUSED) [0..<NPROC] of
       None \<Rightarrow> kret None
     | Some p \<Rightarrow>
         kbind allocpid (\<lambda>pid.
         kseq (set_proc p (\<lambda>q. q\<lparr>p_pid := pid\<rparr>))
        (kbind kalloc (\<lambda>tf.
         kseq (set_proc p (\<lambda>q. q\<lparr>p_trapframe := tf\<rparr>))
         (if tf = 0 then kret None
          else
            kbind (proc_pagetable p) (\<lambda>pt.
            kseq (set_proc p (\<lambda>q. q\<lparr>p_pagetable := pt\<rparr>))
            (if pt = 0 then kseq (freeproc p) (kret None)
             else
               kbind (kget forkret_pc) (\<lambda>ra.
               kseq (set_proc p (\<lambda>q. q\<lparr>p_context_ra := ra, p_context_sp := p_kstack q + 4096\<rparr>))
                    (kret (Some p))))))))))"

text \<open>\<open>initcode\<close> is the program of the first process; \<^verbatim>\<open>userinit\<close> does not test what \<^verbatim>\<open>allocproc\<close>
  returned.\<close>

definition initcode :: bytes where
  "initcode =
     [0x17, 0x05, 0x00, 0x00, 0x13, 0x05, 0x45, 0x02, 0x97,
      0x05, 0x00, 0x00, 0x93, 0x85, 0x35, 0x02, 0x93, 0x08,
      0x70, 0x00, 0x73, 0x00, 0x00, 0x00, 0x93, 0x08, 0x20,
      0x00, 0x73, 0x00, 0x00, 0x00, 0xef, 0xf0, 0x9f, 0xff,
      0x2f, 0x69, 0x6e, 0x69, 0x74, 0x00, 0x00, 0x24, 0x00,
      0x00, 0x00, 0x00, 0x00, 0x00, 0x00, 0x00]"

definition userinit :: "('a os_state_scheme, unit) kmon" where
  "userinit =
     kbind allocproc (\<lambda>r.
     kseq (kmod (\<lambda>s. s\<lparr>initproc := r\<rparr>))
     (case r of
        None \<Rightarrow> kpanic ''kerneltrap''
      | Some p \<Rightarrow>
          kbind (get_proc p) (\<lambda>q.
          kseq (uvminit (p_pagetable q) initcode)
         (kseq (set_proc p (\<lambda>q. q\<lparr>p_sz := 4096, p_tf := (p_tf q)(Tf_epc := 0, Tf_sp := 4096),
                  p_name := safestrcpy (p_name q) [105, 110, 105, 116, 99, 111, 100, 101, 0] 16\<rparr>))
         (kbind (namei [47, 0]) (\<lambda>cwd.
          set_proc p (\<lambda>q. q\<lparr>p_cwd := cwd, p_state := RUNNABLE\<rparr>)))))))"

section \<open>Growing, forking\<close>

text \<open>\<^verbatim>\<open>sz\<close> is a 32-bit local variable.\<close>

definition growproc :: "uint32 \<Rightarrow> ('a proc_state_scheme, int) kmon" where
  "growproc n =
     kbind (kget cur) (\<lambda>i.
     kbind myproc (\<lambda>p.
     let sz = ucast (p_sz p) :: uint32 in
     kbind (if sint n > 0 then uvmalloc (p_pagetable p) (ucast sz) (ucast (sz + n))
            else if sint n < 0 then uvmdealloc (p_pagetable p) (ucast sz) (ucast (sz + n))
            else kret (ucast sz)) (\<lambda>r.
     let sz = ucast r :: uint32 in
     if sint n > 0 \<and> sz = 0 then kret (-1)
     else
       kseq (set_proc i (\<lambda>q. q\<lparr>p_sz := ucast sz\<rparr>))
            (kret 0))))"

definition dup_ofile :: "nat \<Rightarrow> nat \<Rightarrow> nat \<Rightarrow> ('a file_state_scheme, unit) kmon" where
  "dup_ofile p np i =
     kbind (get_proc p) (\<lambda>q.
     case p_ofile q ! i of
       None \<Rightarrow> kret ()
     | Some f \<Rightarrow>
         kbind (filedup f) (\<lambda>f.
         set_proc np (\<lambda>q. q\<lparr>p_ofile := (p_ofile q)[i := Some f]\<rparr>)))"

definition fork :: "('a os_state_scheme, int) kmon" where
  "fork =
     kbind (kget cur) (\<lambda>pi.
     kbind allocproc (\<lambda>r.
     case r of
       None \<Rightarrow> kret (-1)
     | Some np \<Rightarrow>
         kbind (get_proc pi) (\<lambda>p.
         kbind (get_proc np) (\<lambda>q.
         kbind (uvmcopy (p_pagetable p) (p_pagetable q) (p_sz p)) (\<lambda>r.
         if r < 0 then kseq (freeproc np) (kret (-1))
         else
           kseq (set_proc np (\<lambda>q. q\<lparr>p_sz := p_sz p, p_parent := Some pi, p_tf := (p_tf p)(Tf_a0 := 0)\<rparr>))
          (kseq (kfor [0..<NOFILE] (dup_ofile pi np))
          (kbind (case p_cwd p of None \<Rightarrow> kpanic ''kerneltrap'' | Some cwd \<Rightarrow> idup cwd) (\<lambda>cwd.
           kseq (set_proc np (\<lambda>q. q\<lparr>p_cwd := Some cwd, p_name := safestrcpy (p_name q) (p_name p) 16\<rparr>))
          (kbind (get_proc np) (\<lambda>q.
           kseq (set_proc np (\<lambda>q. q\<lparr>p_state := RUNNABLE\<rparr>))
                (kret (p_pid q))))))))))))"

section \<open>Exit and wait\<close>

definition reparent :: "nat \<Rightarrow> ('a proc_state_scheme, unit) kmon" where
  "reparent p =
     kfor [0..<NPROC] (\<lambda>pp.
       kbind (get_proc pp) (\<lambda>q.
       kwhen (p_parent q = Some p)
         (kbind (kget initproc) (\<lambda>ini. set_proc pp (\<lambda>q. q\<lparr>p_parent := ini\<rparr>)))))"

definition wakeup1 :: "nat \<Rightarrow> ('a proc_state_scheme, unit) kmon" where
  "wakeup1 p =
     set_proc p (\<lambda>q. if p_chan q = Some (ChanProc p) \<and> p_state q = SLEEPING
                      then q\<lparr>p_state := RUNNABLE\<rparr> else q)"

definition close_ofile :: "nat \<Rightarrow> nat \<Rightarrow> ('a file_state_scheme, unit) kmon" where
  "close_ofile p fd =
     kbind (get_proc p) (\<lambda>q.
     case p_ofile q ! fd of
       None \<Rightarrow> kret ()
     | Some f \<Rightarrow>
         kseq (fileclose f)
              (set_proc p (\<lambda>q. q\<lparr>p_ofile := (p_ofile q)[fd := None]\<rparr>)))"

text \<open>\<open>wakeup1_ptr\<close> is \<^verbatim>\<open>wakeup1\<close> on a pointer that may be null.\<close>

definition wakeup1_ptr :: "nat option \<Rightarrow> ('a proc_state_scheme, unit) kmon" where
  "wakeup1_ptr r = (case r of None \<Rightarrow> kpanic ''kerneltrap'' | Some p \<Rightarrow> wakeup1 p)"

definition exit :: "int \<Rightarrow> ('a file_state_scheme, 'b) kmon" where
  "exit status =
     kbind (kget cur) (\<lambda>p.
     kbind (kget initproc) (\<lambda>ini.
     if ini = Some p then kpanic ''init exiting''
     else
       kseq (kfor [0..<NOFILE] (close_ofile p))
      (kseq begin_op
      (kbind (get_proc p) (\<lambda>q.
       kseq (case p_cwd q of None \<Rightarrow> kpanic ''kerneltrap'' | Some cwd \<Rightarrow> iput cwd)
      (kseq end_op
      (kseq (set_proc p (\<lambda>q. q\<lparr>p_cwd := None\<rparr>))
      (kseq (wakeup1_ptr ini)
      (kbind (get_proc p) (\<lambda>q.
       kseq (reparent p)
      (kseq (wakeup1_ptr (p_parent q))
      (kseq (set_proc p (\<lambda>q. q\<lparr>p_xstate := status, p_state := ZOMBIE\<rparr>))
            (ksleep ChanSched)))))))))))))"

text \<open>The scan of \<^verbatim>\<open>wait\<close>: the first zombie child; what is left of the scan is not reached then.\<close>

definition zombie_child :: "nat \<Rightarrow> proc list \<Rightarrow> nat option" where
  "zombie_child p ps = find (\<lambda>i. p_parent (ps ! i) = Some p \<and> p_state (ps ! i) = ZOMBIE) [0..<NPROC]"

definition havekids :: "nat \<Rightarrow> proc list \<Rightarrow> bool" where
  "havekids p ps = list_ex (\<lambda>i. p_parent (ps ! i) = Some p) [0..<NPROC]"

definition wait :: "uint64 \<Rightarrow> ('a proc_state_scheme, int) kmon" where
  "wait addr =
     kbind (kget cur) (\<lambda>pi.
     kbind (get_proc pi) (\<lambda>p.
     kbind (kget procs) (\<lambda>ps.
     case zombie_child pi ps of
       Some np \<Rightarrow>
         kbind (get_proc np) (\<lambda>q.
         kbind (if addr \<noteq> 0
                then copyout (p_pagetable p) addr (le_bytes 4 (word_of_int (p_xstate q) :: uint32))
                else kret 0) (\<lambda>r.
         if r < 0 then kret (-1)
         else
           kseq (freeproc np)
                (kret (p_pid q))))
     | None \<Rightarrow>
         if \<not> havekids pi ps \<or> p_killed p then kret (-1) else sleep (ChanProc pi))))"

section \<open>Scheduling\<close>

text \<open>\<open>sched_pick\<close> is the loop of \<^verbatim>\<open>scheduler\<close> from slot \<open>k\<close> up to the switch to the first runnable
  process, and \<open>scheduler_round\<close> a full pass over the table, where \<open>run i\<close> stands for what
  happens between the switch to process \<open>i\<close> and its switch back.\<close>

definition sched_pick :: "nat \<Rightarrow> ('a proc_state_scheme, nat option) kmon" where
  "sched_pick k =
     kbind (kget procs) (\<lambda>ps.
     case find (\<lambda>i. p_state (ps ! i) = RUNNABLE) [k..<NPROC] of
       None \<Rightarrow> kret None
     | Some i \<Rightarrow>
         kseq (set_proc i (\<lambda>q. q\<lparr>p_state := RUNNING\<rparr>))
        (kseq (kmod (\<lambda>s. s\<lparr>cur := i\<rparr>))
              (kret (Some i))))"

primrec scheduler_round :: "(nat \<Rightarrow> 'a proc_state_scheme \<Rightarrow> 'a proc_state_scheme) \<Rightarrow> nat list \<Rightarrow>
    ('a proc_state_scheme, nat list) kmon" where
  "scheduler_round run [] = kret []"
| "scheduler_round run (i # is) =
     kbind (get_proc i) (\<lambda>q.
     if p_state q = RUNNABLE then
       kseq (set_proc i (\<lambda>q. q\<lparr>p_state := RUNNING\<rparr>))
      (kseq (kmod (\<lambda>s. s\<lparr>cur := i\<rparr>))
      (kseq (kmod (run i))
      (kbind (scheduler_round run is) (\<lambda>rest.
       kret (i # rest)))))
     else scheduler_round run is)"

definition yield :: "('a proc_state_scheme, 'b) kmon" where
  "yield =
     kbind (kget cur) (\<lambda>p.
     kseq (set_proc p (\<lambda>q. q\<lparr>p_state := RUNNABLE\<rparr>))
          (ksleep ChanSched))"

definition forkret :: "('a os_state_scheme, unit) kmon" where
  "forkret =
     kbind (kget first_forkret) (\<lambda>first.
     kwhen first
       (kseq (kmod (\<lambda>s. s\<lparr>first_forkret := False\<rparr>))
             (fsinit ROOTDEV)))"

end
