(* ===== verification/Sched.thy ===== *)
theory Sched
  imports Process Machine "HOL-Library.Sublist"
begin

text \<open>
  A pass of the scheduler of \<^verbatim>\<open>src/kernel/proc.c\<close>: every process that can run is run.
\<close>







end
