(* ===== verification/Exec.thy ===== *)
theory Exec
  imports Process
begin

text \<open>
  \<^verbatim>\<open>src/kernel/exec.c\<close>, with the headers of \<^verbatim>\<open>src/kernel/elf.h\<close> in their layout in the file, and
  \<^verbatim>\<open>sys_exec\<close> of \<^verbatim>\<open>src/kernel/sysfile.c\<close>. The argument strings are in kernel pages; \<^verbatim>\<open>argv\<close> is the
  list of their addresses up to the null pointer that ends it.
\<close>

section \<open>ELF headers\<close>

definition ELF_MAGIC :: uint32 where [params]: "ELF_MAGIC = 0x464C457F"
definition ELF_PROG_LOAD :: uint32 where [params]: "ELF_PROG_LOAD = 1"
definition ELFHDR_SIZE :: nat where [params]: "ELFHDR_SIZE = 64"
definition PROGHDR_SIZE :: nat where [params]: "PROGHDR_SIZE = 56"

definition get64 :: "nat \<Rightarrow> bytes \<Rightarrow> uint64" where
  "get64 off blk = le_word (get_bytes off 8 blk)"

record elfhdr =
  e_magic :: uint32
  e_entry :: uint64
  e_phoff :: uint64
  e_phnum :: ushort

definition decode_elfhdr :: "bytes \<Rightarrow> elfhdr" where
  "decode_elfhdr d = \<lparr>e_magic = get32 0 d, e_entry = get64 24 d, e_phoff = get64 32 d, e_phnum = get16 56 d\<rparr>"

record proghdr =
  ph_type :: uint32
  ph_off :: uint64
  ph_vaddr :: uint64
  ph_filesz :: uint64
  ph_memsz :: uint64

definition decode_proghdr :: "bytes \<Rightarrow> proghdr" where
  "decode_proghdr d = \<lparr>ph_type = get32 0 d, ph_off = get64 8 d, ph_vaddr = get64 16 d,
     ph_filesz = get64 32 d, ph_memsz = get64 40 d\<rparr>"

section \<open>Loading segments\<close>

primrec loadseg_loop :: "uint64 \<Rightarrow> uint64 \<Rightarrow> nat \<Rightarrow> uint32 \<Rightarrow> nat \<Rightarrow> nat list \<Rightarrow> ('a fs_state_scheme, int) kmon" where
  "loadseg_loop pagetable va ip offset sz [] = kret 0"
| "loadseg_loop pagetable va ip offset sz (i # is) =
     kbind (walkaddr pagetable (va + of_nat i)) (\<lambda>pa.
     if pa = 0 then kpanic ''loadseg: address should exist''
     else
       (let n = (if sz - i < PGSIZE then sz - i else PGSIZE) in
        kbind (readi ip (KernelDst pa) (offset + of_nat i) (of_nat n)) (\<lambda>(r, _).
        if r \<noteq> n then kret (-1)
        else loadseg_loop pagetable va ip offset sz is)))"

text \<open>The parameter \<^verbatim>\<open>sz\<close> is 32 bits wide; the pages are those below it.\<close>

definition loadseg :: "uint64 \<Rightarrow> uint64 \<Rightarrow> nat \<Rightarrow> uint32 \<Rightarrow> uint32 \<Rightarrow> ('a fs_state_scheme, int) kmon" where
  "loadseg pagetable va ip offset sz =
     (if va mod 4096 \<noteq> 0 then kpanic ''loadseg: va must be page aligned''
      else loadseg_loop pagetable va ip offset (unat sz)
             (map (\<lambda>k. k * PGSIZE) [0..<(unat sz + PGSIZE - 1) div PGSIZE]))"

text \<open>The loop over the program headers, from header \<open>k\<close> before the end at file offset \<open>off\<close>: whether
  it succeeded, and the size of the image.\<close>

primrec load_program :: "uint64 \<Rightarrow> nat \<Rightarrow> nat \<Rightarrow> uint32 \<Rightarrow> uint64 \<Rightarrow> ('a fs_state_scheme, bool \<times> uint64) kmon" where
  "load_program pagetable ip 0 off sz = kret (True, sz)"
| "load_program pagetable ip (Suc k) off sz =
     kbind (readi ip LocalDst off (of_nat PROGHDR_SIZE)) (\<lambda>(n, d).
     let ph = decode_proghdr d; off' = off + of_nat PROGHDR_SIZE in
     if n \<noteq> PROGHDR_SIZE then kret (False, sz)
     else if ph_type ph \<noteq> ELF_PROG_LOAD then load_program pagetable ip k off' sz
     else if ph_memsz ph < ph_filesz ph then kret (False, sz)
     else if ph_vaddr ph + ph_memsz ph < ph_vaddr ph then kret (False, sz)
     else
       kbind (uvmalloc pagetable sz (ph_vaddr ph + ph_memsz ph)) (\<lambda>sz1.
       if sz1 = 0 then kret (False, sz)
       else if ph_vaddr ph mod 4096 \<noteq> 0 then kret (False, sz1)
       else
         kbind (loadseg pagetable (ph_vaddr ph) ip (ucast (ph_off ph)) (ucast (ph_filesz ph))) (\<lambda>r.
         if r < 0 then kret (False, sz1)
         else load_program pagetable ip k off' sz1)))"

section \<open>The initial stack\<close>

text \<open>Pushing the strings: the addresses they got (\<^verbatim>\<open>ustack\<close>) and the stack pointer, or \<open>None\<close>
  for \<^verbatim>\<open>goto bad\<close>.\<close>

definition cstring_at :: "uint64 \<Rightarrow> (uint64 \<Rightarrow> uchar) \<Rightarrow> bytes" where
  "cstring_at a m = load_bytes a (strlen (load_bytes a PGSIZE m)) m"

primrec push_args :: "uint64 \<Rightarrow> uint64 \<Rightarrow> uint64 \<Rightarrow> uint64 list \<Rightarrow> uint64 list \<Rightarrow>
    ('a kmem_state_scheme, (uint64 \<times> uint64 list) option) kmon" where
  "push_args pagetable stackbase sp ustack [] = kret (Some (sp, ustack))"
| "push_args pagetable stackbase sp ustack (a # argv) =
     (if length ustack \<ge> MAXARG then kret None
      else
        kbind (kget (\<lambda>s. cstring_at a (mem s))) (\<lambda>str.
        let sp = sp - of_nat (length str + 1); sp = sp - sp mod 16 in
        if sp < stackbase then kret None
        else
          kbind (copyout pagetable sp (str @ [0])) (\<lambda>r.
          if r < 0 then kret None
          else push_args pagetable stackbase sp (ustack @ [sp]) argv)))"

text \<open>From \<^verbatim>\<open>sz = PGROUNDUP(sz)\<close> to the copy of \<^verbatim>\<open>ustack\<close>: the size, and stack pointer and \<^verbatim>\<open>argc\<close>
  unless it fails.\<close>

definition exec_stack :: "uint64 \<Rightarrow> uint64 \<Rightarrow> uint64 list \<Rightarrow> ('a kmem_state_scheme, uint64 \<times> (uint64 \<times> nat) option) kmon" where
  "exec_stack pagetable sz0 argv =
     (let sz = PGROUNDUP sz0 in
      kbind (uvmalloc pagetable sz (sz + 2 * 4096)) (\<lambda>sz1.
      if sz1 = 0 then kret (sz, None)
      else
        kseq (uvmclear pagetable (sz1 - 2 * 4096))
       (kbind (push_args pagetable (sz1 - 4096) sz1 [] argv) (\<lambda>r.
        case r of
          None \<Rightarrow> kret (sz1, None)
        | Some (sp, ustack) \<Rightarrow>
            let argc = length ustack; sp = sp - (of_nat argc + 1) * 8; sp = sp - sp mod 16 in
            if sp < sz1 - 4096 then kret (sz1, None)
            else
              kbind (copyout pagetable sp (concat (map (le_bytes 8) (ustack @ [0])))) (\<lambda>r.
              if r < 0 then kret (sz1, None)
              else kret (sz1, Some (sp, argc)))))))"

text \<open>The part of the path after the last slash.\<close>

fun basename :: "bytes \<Rightarrow> bytes \<Rightarrow> bytes" where
  "basename base [] = base"
| "basename base (c # s) = (if c = 0 then base else if c = slash then basename s s else basename base s)"

section \<open>exec\<close>

definition exec_bad :: "uint64 \<Rightarrow> uint64 \<Rightarrow> nat option \<Rightarrow> ('a fs_state_scheme, int) kmon" where
  "exec_bad pagetable sz ip =
     kseq (kwhen (pagetable \<noteq> 0) (proc_freepagetable pagetable sz))
    (kseq (case ip of None \<Rightarrow> kret () | Some ip \<Rightarrow> kseq (iunlockput ip) end_op)
          (kret (-1)))"

definition exec_commit :: "bytes \<Rightarrow> uint64 \<Rightarrow> uint64 \<Rightarrow> uint64 \<Rightarrow> uint64 \<Rightarrow> nat \<Rightarrow> ('a proc_state_scheme, int) kmon" where
  "exec_commit path pagetable sz entry sp argc =
     kbind (kget cur) (\<lambda>i.
     kbind myproc (\<lambda>p.
     kseq (set_proc i (\<lambda>q. q\<lparr>p_tf := (p_tf q)(Tf_a1 := sp, Tf_epc := entry, Tf_sp := sp),
             p_name := safestrcpy (p_name q) (basename path path) 16,
             p_pagetable := pagetable, p_sz := sz\<rparr>))
    (kseq (proc_freepagetable (p_pagetable p) (p_sz p))
          (kret (int argc)))))"

definition exec :: "bytes \<Rightarrow> uint64 list \<Rightarrow> ('a os_state_scheme, int) kmon" where
  "exec path argv =
     kseq begin_op
    (kbind (namei path) (\<lambda>r.
     case r of
       None \<Rightarrow> kseq end_op (kret (-1))
     | Some ip \<Rightarrow>
         kseq (ilock ip)
        (kbind (readi ip LocalDst 0 (of_nat ELFHDR_SIZE)) (\<lambda>(n, d).
         let elf = decode_elfhdr d in
         if n \<noteq> ELFHDR_SIZE \<or> e_magic elf \<noteq> ELF_MAGIC then exec_bad 0 0 (Some ip)
         else
           kbind (kget cur) (\<lambda>p.
           kbind (proc_pagetable p) (\<lambda>pagetable.
           if pagetable = 0 then exec_bad 0 0 (Some ip)
           else
             kbind (load_program pagetable ip (unat (e_phnum elf)) (ucast (e_phoff elf)) 0) (\<lambda>(ok, sz).
             if \<not> ok then exec_bad pagetable sz (Some ip)
             else
               kseq (iunlockput ip)
              (kseq end_op
              (kbind (exec_stack pagetable sz argv) (\<lambda>(sz, r).
               case r of
                 None \<Rightarrow> exec_bad pagetable sz None
               | Some (sp, argc) \<Rightarrow> exec_commit path pagetable sz (e_entry elf) sp argc))))))))))"

section \<open>The system call\<close>

text \<open>The loop that fetches the arguments, with room for \<open>k\<close> more: whether it succeeded, and the
  pages that hold strings.\<close>

primrec fetch_argv :: "nat \<Rightarrow> uint64 \<Rightarrow> uint64 list \<Rightarrow> ('a proc_state_scheme, bool \<times> uint64 list) kmon" where
  "fetch_argv 0 uargv argv = kret (False, argv)"
| "fetch_argv (Suc k) uargv argv =
     kbind (fetchaddr (uargv + 8 * of_nat (length argv))) (\<lambda>(r, uarg).
     if r < 0 then kret (False, argv)
     else if uarg = 0 then kret (True, argv)
     else
       kbind kalloc (\<lambda>pg.
       if pg = 0 then kret (False, argv)
       else
         kbind (fetchstr uarg PGSIZE) (\<lambda>(r, bs).
         kseq (set_mem (store_bytes pg bs))
         (if r < 0 then kret (False, argv @ [pg])
          else fetch_argv k uargv (argv @ [pg])))))"

definition sys_exec :: "('a os_state_scheme, int) kmon" where
  "sys_exec =
     kbind (argstr 0 MAXPATH) (\<lambda>(r, path).
     if r < 0 then kret (-1)
     else
       kbind (argaddr 1) (\<lambda>uargv.
       kbind (fetch_argv MAXARG uargv []) (\<lambda>(ok, argv).
       if ok then
         kbind (exec path argv) (\<lambda>ret.
         kseq (kfor argv kfree)
              (kret ret))
       else kseq (kfor argv kfree) (kret (-1)))))"

end
