(* ===== verification/Trap.thy ===== *)
theory Trap
  imports Exec
begin

text \<open>
  The system calls of \<^verbatim>\<open>src/kernel/sysproc.c\<close>, the dispatch of \<^verbatim>\<open>src/kernel/syscall.c\<close>, the traps
  and interrupts of \<^verbatim>\<open>src/kernel/trap.c\<close>, and the boot sequence of \<^verbatim>\<open>src/kernel/main.c\<close>. The
  machine registers a handler reads (\<^verbatim>\<open>scause\<close>, \<^verbatim>\<open>sepc\<close>, \<^verbatim>\<open>sstatus\<close>, and the interrupt number that
  the PLIC hands out) are its arguments. What the handlers print is left out.
\<close>

section \<open>sysproc.c\<close>

definition sys_exit :: "('a file_state_scheme, int) kmon" where
  "sys_exit = kbind (argint 0) (\<lambda>n. exit (sint n))"

definition sys_getpid :: "('a proc_state_scheme, int) kmon" where
  "sys_getpid = kbind myproc (\<lambda>p. kret (p_pid p))"

definition sys_fork :: "('a os_state_scheme, int) kmon" where
  "sys_fork = fork"

definition sys_wait :: "('a proc_state_scheme, int) kmon" where
  "sys_wait = kbind (argaddr 0) (\<lambda>p. wait p)"

text \<open>The old size is returned through an \<^verbatim>\<open>int\<close>.\<close>

definition sys_sbrk :: "('a proc_state_scheme, int) kmon" where
  "sys_sbrk =
     kbind (argint 0) (\<lambda>n.
     kbind myproc (\<lambda>p.
     kbind (growproc n) (\<lambda>r.
     kret (if r < 0 then -1 else sint (ucast (p_sz p) :: uint32)))))"

text \<open>The loop of \<^verbatim>\<open>sys_sleep\<close>, also from where it continues when the process is woken.\<close>

definition sys_sleep_loop :: "uint32 \<Rightarrow> uint32 \<Rightarrow> ('a os_state_scheme, int) kmon" where
  "sys_sleep_loop ticks0 n =
     kbind (kget ticks) (\<lambda>t.
     if t - ticks0 < n then
       kbind myproc (\<lambda>p. if p_killed p then kret (-1) else sleep ChanTicks)
     else kret 0)"

definition sys_sleep :: "('a os_state_scheme, int) kmon" where
  "sys_sleep = kbind (argint 0) (\<lambda>n. kbind (kget ticks) (\<lambda>ticks0. sys_sleep_loop ticks0 n))"

definition sys_kill :: "('a proc_state_scheme, int) kmon" where
  "sys_kill = kbind (argint 0) (\<lambda>pid. kill (sint pid))"

definition sys_uptime :: "('a os_state_scheme, int) kmon" where
  "sys_uptime = kbind (kget ticks) (\<lambda>xticks. kret (uint xticks))"

definition sys_force_fail :: "('a bio_state_scheme, int) kmon" where
  "sys_force_fail =
     kbind (argint 0) (\<lambda>pbn.
     if sint pbn \<ge> int LOGICAL_DISK_SIZE \<or> sint pbn < -1 then kret (-1)
     else kseq (kmod (\<lambda>s. s\<lparr>force_read_error_pbn := sint pbn\<rparr>)) (kret 0))"

definition sys_get_force_fail :: "('a bio_state_scheme, int) kmon" where
  "sys_get_force_fail = kget force_read_error_pbn"

definition sys_force_disk_fail :: "('a bio_state_scheme, int) kmon" where
  "sys_force_disk_fail =
     kbind (argint 0) (\<lambda>disk_id.
     if sint disk_id < -1 \<or> sint disk_id > 1 then kret (-1)
     else kseq (kmod (\<lambda>s. s\<lparr>force_disk_fail_id := sint disk_id\<rparr>)) (kret 0))"

section \<open>The dispatch of system calls\<close>

text \<open>The table \<^verbatim>\<open>syscalls\<close>, indexed by the numbers of \<^verbatim>\<open>src/kernel/syscall.h\<close>.\<close>

definition syscalls :: "int \<Rightarrow> ('a os_state_scheme, int) kmon option" where
  "syscalls num =
     (if num = 1 then Some sys_fork else if num = 2 then Some sys_exit
      else if num = 3 then Some sys_wait else if num = 4 then Some sys_pipe
      else if num = 5 then Some sys_read else if num = 6 then Some sys_kill
      else if num = 7 then Some sys_exec else if num = 8 then Some sys_fstat
      else if num = 9 then Some sys_chdir else if num = 10 then Some sys_dup
      else if num = 11 then Some sys_getpid else if num = 12 then Some sys_sbrk
      else if num = 13 then Some sys_sleep else if num = 14 then Some sys_uptime
      else if num = 15 then Some sys_open else if num = 16 then Some sys_write
      else if num = 17 then Some sys_mknod else if num = 18 then Some sys_unlink
      else if num = 19 then Some sys_link else if num = 20 then Some sys_mkdir
      else if num = 21 then Some sys_close else if num = 22 then Some sys_force_fail
      else if num = 23 then Some sys_get_force_fail else if num = 24 then Some sys_raw_read
      else if num = 25 then Some sys_get_disk_lbn else if num = 26 then Some sys_raw_write
      else if num = 27 then Some sys_force_disk_fail else if num = 28 then Some sys_chmod
      else if num = 29 then Some sys_symlink else None)"

definition set_tf :: "tfreg \<Rightarrow> uint64 \<Rightarrow> ('a proc_state_scheme, unit) kmon" where
  "set_tf r v = kbind (kget cur) (\<lambda>i. set_proc i (\<lambda>p. p\<lparr>p_tf := (p_tf p)(r := v)\<rparr>))"

definition syscall :: "('a os_state_scheme, unit) kmon" where
  "syscall =
     kbind myproc (\<lambda>p.
     case syscalls (sint (ucast (p_tf p Tf_a7) :: uint32)) of
       Some f \<Rightarrow> kbind f (\<lambda>r. set_tf Tf_a0 (word_of_int r))
     | None \<Rightarrow> set_tf Tf_a0 (-1))"

section \<open>Traps and interrupts\<close>

definition UART0_IRQ :: nat where [params]: "UART0_IRQ = 10"
definition VIRTIO0_IRQ :: nat where [params]: "VIRTIO0_IRQ = 1"

definition clockintr :: "('a os_state_scheme, unit) kmon" where
  "clockintr =
     kseq (kmod (\<lambda>s. s\<lparr>ticks := ticks s + 1\<rparr>))
          (wakeup ChanTicks)"

text \<open>The CPU that the model follows has number 0.\<close>

definition devintr :: "uint64 \<Rightarrow> nat \<Rightarrow> ('a os_state_scheme, nat) kmon" where
  "devintr scause irq =
     (if scause AND 0x8000000000000000 \<noteq> 0 \<and> scause AND 0xff = 9 then
        kseq (if irq = UART0_IRQ then uartintr
              else if irq = VIRTIO0_IRQ then virtio_disk_intr
              else kret ())
             (kret 1)
      else if scause = 0x8000000000000001 then
        kseq clockintr
             (kret 2)
      else kret 0)"

definition usertrapret :: "uint64 \<Rightarrow> uint64 \<Rightarrow> uint64 \<Rightarrow> ('a os_state_scheme, unit) kmon" where
  "usertrapret satp hartid usertrap_pc =
     kbind myproc (\<lambda>p.
     kseq (set_tf Tf_kernel_satp satp)
    (kseq (set_tf Tf_kernel_sp (p_kstack p + 4096))
    (kseq (set_tf Tf_kernel_trap usertrap_pc)
          (set_tf Tf_kernel_hartid hartid))))"

definition SSTATUS_SPP :: uint64 where [params]: "SSTATUS_SPP = push_bit 8 1"

text \<open>\<^verbatim>\<open>usertrap\<close> up to its call of \<^verbatim>\<open>usertrapret\<close>.\<close>

definition usertrap :: "uint64 \<Rightarrow> uint64 \<Rightarrow> uint64 \<Rightarrow> nat \<Rightarrow> ('a os_state_scheme, unit) kmon" where
  "usertrap sstatus sepc scause irq =
     (if sstatus AND SSTATUS_SPP \<noteq> 0 then kpanic ''usertrap: not from user mode''
      else
        kseq (set_tf Tf_epc sepc)
       (kbind (if scause = 8 then
                 kbind myproc (\<lambda>p.
                 if p_killed p then exit (-1)
                 else
                   kseq (set_tf Tf_epc (sepc + 4))
                  (kseq syscall
                        (kret 0)))
               else
                 kbind (devintr scause irq) (\<lambda>which_dev.
                 kseq (kwhen (which_dev = 0) (kbind (kget cur) (\<lambda>i. set_proc i (\<lambda>p. p\<lparr>p_killed := True\<rparr>))))
                      (kret which_dev))) (\<lambda>which_dev.
        kbind myproc (\<lambda>p.
        if p_killed p then exit (-1)
        else kwhen (which_dev = 2) yield))))"

text \<open>\<open>intr_on\<close> is \<^verbatim>\<open>intr_get()\<close>. Whether there is a current process is \<open>has_proc\<close>.\<close>

definition kerneltrap :: "uint64 \<Rightarrow> bool \<Rightarrow> uint64 \<Rightarrow> nat \<Rightarrow> bool \<Rightarrow> ('a os_state_scheme, unit) kmon" where
  "kerneltrap sstatus intr_on scause irq has_proc =
     (if sstatus AND SSTATUS_SPP = 0 then kpanic ''kerneltrap: not from supervisor mode''
      else if intr_on then kpanic ''kerneltrap: interrupts enabled''
      else
        kbind (devintr scause irq) (\<lambda>which_dev.
        if which_dev = 0 then kpanic ''kerneltrap''
        else
          kbind myproc (\<lambda>p.
          kwhen (which_dev = 2 \<and> has_proc \<and> p_state p = RUNNING) yield)))"

section \<open>Booting\<close>

text \<open>\<^verbatim>\<open>main\<close> on the first CPU, up to the scheduler. The steps left out only set device or trap
  registers, or initialise spin locks.\<close>

definition boot :: "('a os_state_scheme, unit) kmon" where
  "boot =
     kseq consoleinit
    (kseq kinit
    (kseq kvminit
    (kseq procinit
    (kseq binit
    (kseq iinit
          userinit)))))"

end
