(* ===== verification/Spinlock.thy ===== *)
theory Spinlock
  imports Params
begin

text \<open>
  \<^verbatim>\<open>src/kernel/spinlock.c\<close>: spin locks, and the nesting of interrupt disabling that they rely on.
  The state is that of several CPUs, since a lock is what they share. An operation is run by
  a CPU, its first argument. Taking a lock spins while another CPU has it; one attempt of the
  atomic exchange is a step, so that a spinning CPU is one whose steps leave the lock alone.
\<close>

section \<open>State\<close>

record cpu =
  noff :: int
  intena :: bool
  intr :: bool

record spinlock =
  lk_locked :: bool
  lk_cpu :: "nat option"

record lock_state =
  cpus :: "cpu list"
  locks :: "spinlock list"

definition upd_cpu :: "nat \<Rightarrow> (cpu \<Rightarrow> cpu) \<Rightarrow> (lock_state, unit) kmon" where
  "upd_cpu c f = kmod (\<lambda>s. s\<lparr>cpus := (cpus s)[c := f (cpus s ! c)]\<rparr>)"

definition upd_lock :: "nat \<Rightarrow> (spinlock \<Rightarrow> spinlock) \<Rightarrow> (lock_state, unit) kmon" where
  "upd_lock l f = kmod (\<lambda>s. s\<lparr>locks := (locks s)[l := f (locks s ! l)]\<rparr>)"

section \<open>Operations\<close>

definition initlock :: "nat \<Rightarrow> (lock_state, unit) kmon" where
  "initlock l = upd_lock l (\<lambda>_. \<lparr>lk_locked = False, lk_cpu = None\<rparr>)"

definition holding :: "nat \<Rightarrow> nat \<Rightarrow> (lock_state, bool) kmon" where
  "holding c l = kget (\<lambda>s. lk_locked (locks s ! l) \<and> lk_cpu (locks s ! l) = Some c)"

definition push_off :: "nat \<Rightarrow> (lock_state, unit) kmon" where
  "push_off c =
     kbind (kget (\<lambda>s. intr (cpus s ! c))) (\<lambda>old.
     kseq (upd_cpu c (\<lambda>x. x\<lparr>intr := False\<rparr>))
    (kseq (upd_cpu c (\<lambda>x. if noff x = 0 then x\<lparr>intena := old\<rparr> else x))
          (upd_cpu c (\<lambda>x. x\<lparr>noff := noff x + 1\<rparr>))))"

definition pop_off :: "nat \<Rightarrow> (lock_state, unit) kmon" where
  "pop_off c =
     kbind (kget (\<lambda>s. cpus s ! c)) (\<lambda>x.
     if intr x then kpanic ''pop_off - interruptible''
     else if noff x < 1 then kpanic ''pop_off''
     else
       kseq (upd_cpu c (\<lambda>x. x\<lparr>noff := noff x - 1\<rparr>))
            (upd_cpu c (\<lambda>x. if noff x = 0 \<and> intena x then x\<lparr>intr := True\<rparr> else x)))"

text \<open>\<^verbatim>\<open>acquire\<close> up to its loop, the atomic exchange of the loop, and what follows the loop; then one turn of the loop with what
  follows when it succeeds, whose result says whether the lock was taken.\<close>

definition acquire_enter :: "nat \<Rightarrow> nat \<Rightarrow> (lock_state, unit) kmon" where
  "acquire_enter c l =
     kseq (push_off c)
    (kbind (holding c l) (\<lambda>h.
     kwhen h (kpanic ''acquire'')))"

definition acquire_swap :: "nat \<Rightarrow> (lock_state, bool) kmon" where
  "acquire_swap l =
     kbind (kget (\<lambda>s. lk_locked (locks s ! l))) (\<lambda>old.
     kseq (upd_lock l (\<lambda>x. x\<lparr>lk_locked := True\<rparr>))
          (kret old))"

definition acquire_record :: "nat \<Rightarrow> nat \<Rightarrow> (lock_state, unit) kmon" where
  "acquire_record c l = upd_lock l (\<lambda>x. x\<lparr>lk_cpu := Some c\<rparr>)"

definition acquire_try :: "nat \<Rightarrow> nat \<Rightarrow> (lock_state, bool) kmon" where
  "acquire_try c l =
     kbind (acquire_swap l) (\<lambda>old.
     kseq (kwhen (\<not> old) (acquire_record c l))
          (kret (\<not> old)))"

text \<open>\<^verbatim>\<open>release\<close> up to the barrier, and from the store that frees the lock on.\<close>

definition release_clear :: "nat \<Rightarrow> nat \<Rightarrow> (lock_state, unit) kmon" where
  "release_clear c l =
     kbind (holding c l) (\<lambda>h.
     if \<not> h then kpanic ''release'' else upd_lock l (\<lambda>x. x\<lparr>lk_cpu := None\<rparr>))"

definition release_unlock :: "nat \<Rightarrow> nat \<Rightarrow> (lock_state, unit) kmon" where
  "release_unlock c l =
     kseq (upd_lock l (\<lambda>x. x\<lparr>lk_locked := False\<rparr>))
          (pop_off c)"

definition release :: "nat \<Rightarrow> nat \<Rightarrow> (lock_state, unit) kmon" where
  "release c l = kseq (release_clear c l) (release_unlock c l)"

section \<open>Interleavings\<close>

text \<open>What a CPU is about: running, spinning for a lock, about to enter itself as its holder, or about to free it.\<close>

datatype phase = Running | Spins nat | Records nat | Unlocks nat

record conc =
  sys :: lock_state
  phase_of :: "nat \<Rightarrow> phase"
  held :: "nat \<Rightarrow> nat list"
  wants_intr :: "nat \<Rightarrow> bool"

text \<open>A CPU may turn its interrupts on and off while it holds no lock; \<open>held\<close> are the locks of whose critical sections it is
  inside and \<open>wants_intr\<close> is how it last set its interrupts itself. The steps of different CPUs interleave in any order.\<close>

inductive lock_step :: "conc \<Rightarrow> conc \<Rightarrow> bool" where
  step_intr: "c < length (cpus (sys x)) \<Longrightarrow> phase_of x c = Running \<Longrightarrow> noff (cpus (sys x) ! c) = 0 \<Longrightarrow>
    lock_step x (x\<lparr>sys := (sys x)\<lparr>cpus := (cpus (sys x))[c := (cpus (sys x) ! c)\<lparr>intr := b\<rparr>]\<rparr>, wants_intr := (wants_intr x)(c := b)\<rparr>)"
| step_enter: "c < length (cpus (sys x)) \<Longrightarrow> l < length (locks (sys x)) \<Longrightarrow> phase_of x c = Running \<Longrightarrow>
    acquire_enter c l (sys x) = Ok () s \<Longrightarrow> lock_step x (x\<lparr>sys := s, phase_of := (phase_of x)(c := Spins l)\<rparr>)"
| step_spin: "phase_of x c = Spins l \<Longrightarrow> acquire_swap l (sys x) = Ok True s \<Longrightarrow> lock_step x (x\<lparr>sys := s\<rparr>)"
| step_swap: "phase_of x c = Spins l \<Longrightarrow> acquire_swap l (sys x) = Ok False s \<Longrightarrow>
    lock_step x (x\<lparr>sys := s, phase_of := (phase_of x)(c := Records l)\<rparr>)"
| step_record: "phase_of x c = Records l \<Longrightarrow> acquire_record c l (sys x) = Ok () s \<Longrightarrow>
    lock_step x (x\<lparr>sys := s, phase_of := (phase_of x)(c := Running), held := (held x)(c := l # held x c)\<rparr>)"
| step_clear: "phase_of x c = Running \<Longrightarrow> l \<in> set (held x c) \<Longrightarrow> release_clear c l (sys x) = Ok () s \<Longrightarrow>
    lock_step x (x\<lparr>sys := s, phase_of := (phase_of x)(c := Unlocks l), held := (held x)(c := remove1 l (held x c))\<rparr>)"
| step_unlock: "phase_of x c = Unlocks l \<Longrightarrow> release_unlock c l (sys x) = Ok () s \<Longrightarrow>
    lock_step x (x\<lparr>sys := s, phase_of := (phase_of x)(c := Running)\<rparr>)"

text \<open>At the start no CPU holds a lock and no lock is taken.\<close>

definition conc_init :: "conc \<Rightarrow> bool" where
  "conc_init x \<longleftrightarrow> (\<forall>c. phase_of x c = Running \<and> held x c = []) \<and>
     (\<forall>c < length (cpus (sys x)). noff (cpus (sys x) ! c) = 0 \<and> wants_intr x c = intr (cpus (sys x) ! c)) \<and>
     (\<forall>l < length (locks (sys x)). \<not> lk_locked (locks (sys x) ! l) \<and> lk_cpu (locks (sys x) ! l) = None)"

definition owns :: "conc \<Rightarrow> nat \<Rightarrow> nat \<Rightarrow> bool" where
  "owns x c l \<longleftrightarrow> l \<in> set (held x c) \<or> phase_of x c = Records l \<or> phase_of x c = Unlocks l"

text \<open>The invariant of a CPU and of a lock.\<close>

definition cpu_ok :: "nat \<Rightarrow> cpu \<Rightarrow> phase \<Rightarrow> nat list \<Rightarrow> bool \<Rightarrow> bool" where
  "cpu_ok n y ph h w \<longleftrightarrow>
     noff y = int (length h) + (if ph = Running then 0 else 1) \<and>
     (if noff y = 0 then intr y = w else \<not> intr y \<and> intena y = w) \<and>
     distinct h \<and> set h \<subseteq> {..<n} \<and>
     (case ph of Running \<Rightarrow> True | Spins l \<Rightarrow> l < n | Records l \<Rightarrow> l < n \<and> l \<notin> set h | Unlocks l \<Rightarrow> l < n \<and> l \<notin> set h)"

definition lock_ok :: "spinlock \<Rightarrow> (nat \<Rightarrow> bool) \<Rightarrow> (nat \<Rightarrow> bool) \<Rightarrow> bool" where
  "lock_ok y own holds \<longleftrightarrow>
     (lk_locked y \<longleftrightarrow> (\<exists>c. own c)) \<and> (\<forall>c d. own c \<longrightarrow> own d \<longrightarrow> c = d) \<and> (\<forall>c. lk_cpu y = Some c \<longleftrightarrow> holds c)"

definition cpu_inv :: "conc \<Rightarrow> nat \<Rightarrow> bool" where
  "cpu_inv x c \<longleftrightarrow> cpu_ok (length (locks (sys x))) (cpus (sys x) ! c) (phase_of x c) (held x c) (wants_intr x c)"

definition lock_inv :: "conc \<Rightarrow> nat \<Rightarrow> bool" where
  "lock_inv x l \<longleftrightarrow> lock_ok (locks (sys x) ! l) (\<lambda>c. owns x c l) (\<lambda>c. l \<in> set (held x c))"

definition conc_inv :: "conc \<Rightarrow> bool" where
  "conc_inv x \<longleftrightarrow> (\<forall>c < length (cpus (sys x)). cpu_inv x c) \<and> (\<forall>l < length (locks (sys x)). lock_inv x l) \<and>
     (\<forall>c. length (cpus (sys x)) \<le> c \<longrightarrow> phase_of x c = Running \<and> held x c = [])"

lemmas lock_defs = upd_cpu_def upd_lock_def push_off_def pop_off_def holding_def acquire_enter_def acquire_swap_def acquire_record_def
  release_clear_def release_unlock_def kget_def kmod_def kret_def kbind_def kseq_def kwhen_def kpanic_def

lemma conc_init_inv: "conc_init x \<Longrightarrow> conc_inv x"
  by (auto simp: conc_init_def conc_inv_def cpu_inv_def lock_inv_def cpu_ok_def lock_ok_def owns_def)

lemma conc_invD:
  assumes "conc_inv x"
  shows "c < length (cpus (sys x)) \<Longrightarrow> cpu_inv x c" and "l < length (locks (sys x)) \<Longrightarrow> lock_inv x l"
    and "phase_of x c \<noteq> Running \<or> held x c \<noteq> [] \<Longrightarrow> c < length (cpus (sys x))"
  using assms by (auto simp: conc_inv_def) (meson not_le)+

lemma owner_range:
  assumes "conc_inv x" and "owns x c l"
  shows "c < length (cpus (sys x))" and "l < length (locks (sys x))"
proof -
  show c: "c < length (cpus (sys x))" using assms(2) conc_invD(3) [OF assms(1), of c] by (cases "held x c") (auto simp: owns_def)
  show "l < length (locks (sys x))"
    using assms(2) conc_invD(1) [OF assms(1) c] by (auto simp: owns_def cpu_inv_def cpu_ok_def)
qed

text \<open>A step changes one CPU and one lock.\<close>

definition conc_upd :: "conc \<Rightarrow> nat \<Rightarrow> (cpu \<Rightarrow> cpu) \<Rightarrow> phase \<Rightarrow> nat list \<Rightarrow> bool \<Rightarrow> nat \<Rightarrow> (spinlock \<Rightarrow> spinlock) \<Rightarrow> conc" where
  "conc_upd x c f ph h w l g =
     x\<lparr>sys := (sys x)\<lparr>cpus := (cpus (sys x))[c := f (cpus (sys x) ! c)], locks := (locks (sys x))[l := g (locks (sys x) ! l)]\<rparr>,
       phase_of := (phase_of x)(c := ph), held := (held x)(c := h), wants_intr := (wants_intr x)(c := w)\<rparr>"

lemma conc_upd_simps [simp]:
  "length (cpus (sys (conc_upd x c f ph h w l g))) = length (cpus (sys x))"
  "length (locks (sys (conc_upd x c f ph h w l g))) = length (locks (sys x))"
  "c < length (cpus (sys x)) \<Longrightarrow> cpus (sys (conc_upd x c f ph h w l g)) ! d = (if d = c then f (cpus (sys x) ! c) else cpus (sys x) ! d)"
  "l < length (locks (sys x)) \<Longrightarrow> locks (sys (conc_upd x c f ph h w l g)) ! k = (if k = l then g (locks (sys x) ! l) else locks (sys x) ! k)"
  "phase_of (conc_upd x c f ph h w l g) d = (if d = c then ph else phase_of x d)"
  "held (conc_upd x c f ph h w l g) d = (if d = c then h else held x d)"
  "wants_intr (conc_upd x c f ph h w l g) d = (if d = c then w else wants_intr x d)"
  by (auto simp: conc_upd_def nth_list_update)

lemma conc_inv_upd:
  assumes inv: "conc_inv x" and c: "c < length (cpus (sys x))" and l: "l < length (locks (sys x))"
    and "cpu_inv (conc_upd x c f ph h w l g) c" and "lock_inv (conc_upd x c f ph h w l g) l"
    and same: "\<And>k. k \<noteq> l \<Longrightarrow> k \<in> set h \<longleftrightarrow> k \<in> set (held x c)" "\<And>k. k \<noteq> l \<Longrightarrow> ph = Records k \<or> ph = Unlocks k \<longleftrightarrow> phase_of x c = Records k \<or> phase_of x c = Unlocks k"
  shows "conc_inv (conc_upd x c f ph h w l g)"
proof -
  let ?y = "conc_upd x c f ph h w l g"
  have "cpu_inv ?y d" if "d < length (cpus (sys x))" "d \<noteq> c" for d
    using conc_invD(1) [OF inv that(1)] that(2) c by (simp add: cpu_inv_def)
  moreover have "lock_inv ?y k" if "k < length (locks (sys x))" "k \<noteq> l" for k
  proof -
    have "owns ?y d k \<longleftrightarrow> owns x d k" for d using same [OF that(2)] by (auto simp: owns_def)
    moreover have "k \<in> set (held ?y d) \<longleftrightarrow> k \<in> set (held x d)" for d using same(1) [OF that(2)] by simp
    ultimately show ?thesis using conc_invD(2) [OF inv that(1)] that(2) l by (simp add: lock_inv_def)
  qed
  ultimately show ?thesis using assms(4,5) inv c unfolding conc_inv_def by (metis conc_upd_simps(1,2,5,6) not_le)
qed

definition pushed :: "cpu \<Rightarrow> cpu" where
  "pushed y = y\<lparr>intr := False, intena := (if noff y = 0 then intr y else intena y), noff := noff y + 1\<rparr>"

definition popped :: "cpu \<Rightarrow> cpu" where
  "popped y = y\<lparr>noff := noff y - 1, intr := intr y \<or> noff y = 1 \<and> intena y\<rparr>"

lemma push_off_spec: "c < length (cpus s) \<Longrightarrow> push_off c s = Ok () (s\<lparr>cpus := (cpus s)[c := pushed (cpus s ! c)]\<rparr>)"
  by (cases s; cases "cpus s ! c") (simp add: lock_defs pushed_def)

lemma pop_off_spec:
  "c < length (cpus s) \<Longrightarrow> \<not> intr (cpus s ! c) \<Longrightarrow> 1 \<le> noff (cpus s ! c) \<Longrightarrow>
     pop_off c s = Ok () (s\<lparr>cpus := (cpus s)[c := popped (cpus s ! c)]\<rparr>)"
  by (cases s; cases "cpus s ! c") (auto simp: lock_defs popped_def)

lemma acquire_enter_spec:
  "c < length (cpus s) \<Longrightarrow>
     acquire_enter c l s =
       (if lk_locked (locks s ! l) \<and> lk_cpu (locks s ! l) = Some c then Panic ''acquire'' else Ok ())
         (s\<lparr>cpus := (cpus s)[c := pushed (cpus s ! c)]\<rparr>)"
  unfolding acquire_enter_def using push_off_spec [of c s] by (simp add: kseq_def kbind_def holding_def kget_def kwhen_def kret_def kpanic_def)

lemma acquire_swap_spec:
  "acquire_swap l s = Ok (lk_locked (locks s ! l)) (s\<lparr>locks := (locks s)[l := (locks s ! l)\<lparr>lk_locked := True\<rparr>]\<rparr>)"
  by (simp add: lock_defs)

lemma release_clear_spec:
  "lk_locked (locks s ! l) \<Longrightarrow> lk_cpu (locks s ! l) = Some c \<Longrightarrow>
     release_clear c l s = Ok () (s\<lparr>locks := (locks s)[l := (locks s ! l)\<lparr>lk_cpu := None\<rparr>]\<rparr>)"
  by (simp add: lock_defs)

lemma release_unlock_spec:
  "c < length (cpus s) \<Longrightarrow> \<not> intr (cpus s ! c) \<Longrightarrow> 1 \<le> noff (cpus s ! c) \<Longrightarrow>
     release_unlock c l s =
       Ok () (s\<lparr>locks := (locks s)[l := (locks s ! l)\<lparr>lk_locked := False\<rparr>], cpus := (cpus s)[c := popped (cpus s ! c)]\<rparr>)"
  unfolding release_unlock_def using pop_off_spec [of c "s\<lparr>locks := (locks s)[l := (locks s ! l)\<lparr>lk_locked := False\<rparr>]\<rparr>"]
  by (simp add: kseq_def kbind_def upd_lock_def kmod_def)

lemma lock_invI:
  assumes "\<And>c. owns y c l \<longleftrightarrow> own c" and "\<And>c. l \<in> set (held y c) \<longleftrightarrow> holds c" and "lock_ok (locks (sys y) ! l) own holds"
  shows "lock_inv y l"
  unfolding lock_inv_def assms(1,2) by (rule assms(3))

lemma unique_owner: "conc_inv x \<Longrightarrow> owns x c l \<Longrightarrow> owns x d l \<longleftrightarrow> d = c"
  using conc_invD(2) [of x l] owner_range [of x c l] by (auto simp: lock_inv_def lock_ok_def)

lemma held_holder:
  assumes "conc_inv x" and "owns x c l"
  shows "lk_locked (locks (sys x) ! l)" and "lk_cpu (locks (sys x) ! l) = (if l \<in> set (held x c) then Some c else None)"
proof -
  have ok: "lock_ok (locks (sys x) ! l) (\<lambda>c. owns x c l) (\<lambda>c. l \<in> set (held x c))"
    using conc_invD(2) [OF assms(1) owner_range(2) [OF assms]] by (simp add: lock_inv_def)
  show "lk_locked (locks (sys x) ! l)" using ok assms(2) unfolding lock_ok_def by blast
  have u: "d = c" if "l \<in> set (held x d)" for d using that unique_owner [OF assms, of d] by (simp add: owns_def)
  have iff: "lk_cpu (locks (sys x) ! l) = Some d \<longleftrightarrow> l \<in> set (held x d)" for d using ok by (simp add: lock_ok_def)
  show "lk_cpu (locks (sys x) ! l) = (if l \<in> set (held x c) then Some c else None)"
  proof (cases "lk_cpu (locks (sys x) ! l)")
    case None
    then show ?thesis using iff [of c] by simp
  next
    case (Some d)
    then show ?thesis using iff [of d] u [of d] by simp
  qed
qed

lemma step_enter_inv:
  assumes inv: "conc_inv x" and c: "c < length (cpus (sys x))" "phase_of x c = Running" and l: "l < length (locks (sys x))"
  shows "conc_inv (conc_upd x c pushed (Spins l) (held x c) (wants_intr x c) l id)"
proof (rule conc_inv_upd [OF inv c(1) l])
  let ?y = "conc_upd x c pushed (Spins l) (held x c) (wants_intr x c) l id"
  show "cpu_inv ?y c" using conc_invD(1) [OF inv c(1)] c l by (auto simp: cpu_inv_def cpu_ok_def pushed_def split: if_splits)
  have "owns ?y d l \<longleftrightarrow> owns x d l" for d using c by (auto simp: owns_def)
  then show "lock_inv ?y l" using conc_invD(2) [OF inv l] l unfolding lock_inv_def [of x] by (intro lock_invI) simp_all
qed (use c in auto)

lemma step_swap_inv:
  assumes inv: "conc_inv x" and ph: "phase_of x c = Spins l" and free: "\<not> lk_locked (locks (sys x) ! l)"
  shows "conc_inv (conc_upd x c id (Records l) (held x c) (wants_intr x c) l (\<lambda>y. y\<lparr>lk_locked := True\<rparr>))"
proof -
  let ?y = "conc_upd x c id (Records l) (held x c) (wants_intr x c) l (\<lambda>y. y\<lparr>lk_locked := True\<rparr>)"
  have c: "c < length (cpus (sys x))" using conc_invD(3) [OF inv, of c] ph by simp
  have l: "l < length (locks (sys x))" using conc_invD(1) [OF inv c] ph by (simp add: cpu_inv_def cpu_ok_def)
  have no: "\<not> owns x d l" for d using conc_invD(2) [OF inv l] free by (simp add: lock_inv_def lock_ok_def)
  show ?thesis
  proof (rule conc_inv_upd [OF inv c l])
    show "cpu_inv ?y c" using conc_invD(1) [OF inv c] c no [of c] ph by (auto simp: cpu_inv_def cpu_ok_def owns_def)
    have "owns ?y d l \<longleftrightarrow> d = c" for d using no [of d] by (auto simp: owns_def)
    then show "lock_inv ?y l"
      using conc_invD(2) [OF inv l] l no by (intro lock_invI [of _ _ "\<lambda>d. d = c" "\<lambda>d. l \<in> set (held x d)"]) (auto simp: lock_inv_def lock_ok_def)
  qed (use ph in auto)
qed

lemma step_record_inv:
  assumes inv: "conc_inv x" and ph: "phase_of x c = Records l"
  shows "conc_inv (conc_upd x c id Running (l # held x c) (wants_intr x c) l (\<lambda>y. y\<lparr>lk_cpu := Some c\<rparr>))"
proof -
  let ?y = "conc_upd x c id Running (l # held x c) (wants_intr x c) l (\<lambda>y. y\<lparr>lk_cpu := Some c\<rparr>)"
  have o: "owns x c l" using ph by (simp add: owns_def)
  note cl = owner_range [OF inv o]
  note u = unique_owner [OF inv o] and h = held_holder [OF inv o]
  show ?thesis
  proof (rule conc_inv_upd [OF inv cl])
    show "cpu_inv ?y c" using conc_invD(1) [OF inv cl(1)] cl ph by (auto simp: cpu_inv_def cpu_ok_def)
    have "owns ?y d l \<longleftrightarrow> d = c" "l \<in> set (held ?y d) \<longleftrightarrow> d = c" for d using u [of d] by (auto simp: owns_def)
    then show "lock_inv ?y l" by (rule lock_invI) (use cl h in \<open>auto simp: lock_ok_def\<close>)
  qed (use ph in auto)
qed

lemma step_clear_inv:
  assumes inv: "conc_inv x" and ph: "phase_of x c = Running" "l \<in> set (held x c)"
  shows "conc_inv (conc_upd x c id (Unlocks l) (remove1 l (held x c)) (wants_intr x c) l (\<lambda>y. y\<lparr>lk_cpu := None\<rparr>))"
proof -
  let ?y = "conc_upd x c id (Unlocks l) (remove1 l (held x c)) (wants_intr x c) l (\<lambda>y. y\<lparr>lk_cpu := None\<rparr>)"
  have o: "owns x c l" using ph by (simp add: owns_def)
  note cl = owner_range [OF inv o]
  note u = unique_owner [OF inv o] and h = held_holder [OF inv o]
  have ci: "cpu_ok (length (locks (sys x))) (cpus (sys x) ! c) Running (held x c) (wants_intr x c)"
    using conc_invD(1) [OF inv cl(1)] ph(1) by (simp add: cpu_inv_def)
  then have di: "distinct (held x c)" "length (held x c) = Suc (length (remove1 l (held x c)))"
    using ph(2) length_pos_if_in_set [OF ph(2)] by (simp_all add: cpu_ok_def length_remove1)
  show ?thesis
  proof (rule conc_inv_upd [OF inv cl])
    show "cpu_inv ?y c" using ci di cl by (auto simp: cpu_inv_def cpu_ok_def dest: notin_set_remove1)
    have "owns ?y d l \<longleftrightarrow> d = c" "l \<in> set (held ?y d) \<longleftrightarrow> False" for d using u [of d] di(1) by (auto simp: owns_def)
    then show "lock_inv ?y l" by (rule lock_invI) (use cl h in \<open>auto simp: lock_ok_def\<close>)
  qed (use ph di in auto)
qed

lemma step_unlock_inv:
  assumes inv: "conc_inv x" and ph: "phase_of x c = Unlocks l"
  shows "conc_inv (conc_upd x c popped Running (held x c) (wants_intr x c) l (\<lambda>y. y\<lparr>lk_locked := False\<rparr>))"
proof -
  let ?y = "conc_upd x c popped Running (held x c) (wants_intr x c) l (\<lambda>y. y\<lparr>lk_locked := False\<rparr>)"
  have o: "owns x c l" using ph by (simp add: owns_def)
  note cl = owner_range [OF inv o]
  note u = unique_owner [OF inv o] and h = held_holder [OF inv o]
  have ci: "cpu_ok (length (locks (sys x))) (cpus (sys x) ! c) (Unlocks l) (held x c) (wants_intr x c)"
    using conc_invD(1) [OF inv cl(1)] ph(1) by (simp add: cpu_inv_def)
  show ?thesis
  proof (rule conc_inv_upd [OF inv cl])
    show "cpu_inv ?y c" using ci cl by (auto simp: cpu_inv_def cpu_ok_def popped_def split: if_splits)
    have "owns ?y d l \<longleftrightarrow> False" "l \<in> set (held ?y d) \<longleftrightarrow> False" for d using u [of d] ci by (auto simp: owns_def cpu_ok_def)
    then show "lock_inv ?y l" by (rule lock_invI) (use cl h ci in \<open>auto simp: lock_ok_def cpu_ok_def\<close>)
  qed (use ph in auto)
qed

lemma step_intr_inv:
  assumes inv: "conc_inv x" and c: "c < length (cpus (sys x))" "phase_of x c = Running" "noff (cpus (sys x) ! c) = 0"
  shows "conc_inv (x\<lparr>sys := (sys x)\<lparr>cpus := (cpus (sys x))[c := (cpus (sys x) ! c)\<lparr>intr := b\<rparr>]\<rparr>, wants_intr := (wants_intr x)(c := b)\<rparr>)"
    (is "conc_inv ?y")
proof -
  have "cpu_inv ?y d" if "d < length (cpus (sys x))" for d
    using conc_invD(1) [OF inv that] c by (auto simp: cpu_inv_def cpu_ok_def nth_list_update)
  moreover have "lock_inv ?y k" if "k < length (locks (sys x))" for k
    using conc_invD(2) [OF inv that] by (simp add: lock_inv_def owns_def)
  ultimately show ?thesis using inv by (simp add: conc_inv_def)
qed

text \<open>The code of \<^verbatim>\<open>release\<close> runs through in a CPU that is inside the critical section.\<close>

lemma conc_cpu:
  assumes "conc_inv x" and "phase_of x c \<noteq> Running \<or> held x c \<noteq> []"
  shows "c < length (cpus (sys x))" and "\<not> intr (cpus (sys x) ! c)" and "1 \<le> noff (cpus (sys x) ! c)"
proof -
  show c: "c < length (cpus (sys x))" by (rule conc_invD(3) [OF assms])
  have ok: "cpu_ok (length (locks (sys x))) (cpus (sys x) ! c) (phase_of x c) (held x c) (wants_intr x c)"
    using conc_invD(1) [OF assms(1) c] by (simp add: cpu_inv_def)
  then show n: "1 \<le> noff (cpus (sys x) ! c)" using assms(2) by (cases "held x c") (auto simp: cpu_ok_def)
  then show "\<not> intr (cpus (sys x) ! c)" using ok by (simp add: cpu_ok_def split: if_splits)
qed

lemma lock_step_inv: "lock_step x y \<Longrightarrow> conc_inv x \<Longrightarrow> conc_inv y"
proof (induction rule: lock_step.induct)
  case (step_intr c x b)
  then show ?case by (intro step_intr_inv)
next
  case (step_enter c x l s)
  then have "x\<lparr>sys := s, phase_of := (phase_of x)(c := Spins l)\<rparr> = conc_upd x c pushed (Spins l) (held x c) (wants_intr x c) l id"
    by (auto simp: acquire_enter_spec conc_upd_def split: if_splits)
  then show ?case using step_enter_inv [OF step_enter(5,1,3,2)] by simp
next
  case (step_spin x c l s)
  then have "lk_locked (locks (sys x) ! l)" by (simp add: acquire_swap_spec)
  then have "(locks (sys x) ! l)\<lparr>lk_locked := True\<rparr> = locks (sys x) ! l" by (cases "locks (sys x) ! l") simp
  then have "s = sys x" using step_spin(2) by (simp add: acquire_swap_spec)
  then show ?case using step_spin(3) by simp
next
  case (step_swap x c l s)
  then have "x\<lparr>sys := s, phase_of := (phase_of x)(c := Records l)\<rparr> =
      conc_upd x c id (Records l) (held x c) (wants_intr x c) l (\<lambda>y. y\<lparr>lk_locked := True\<rparr>)"
    by (auto simp: acquire_swap_spec conc_upd_def)
  then show ?case using step_swap_inv [OF step_swap(3,1)] step_swap(2) by (simp add: acquire_swap_spec)
next
  case (step_record x c l s)
  then have "x\<lparr>sys := s, phase_of := (phase_of x)(c := Running), held := (held x)(c := l # held x c)\<rparr> =
      conc_upd x c id Running (l # held x c) (wants_intr x c) l (\<lambda>y. y\<lparr>lk_cpu := Some c\<rparr>)"
    by (auto simp: acquire_record_def upd_lock_def kmod_def conc_upd_def)
  then show ?case using step_record_inv [OF step_record(3,1)] by simp
next
  case (step_clear x c l s)
  have o: "owns x c l" using step_clear(2) by (simp add: owns_def)
  have "x\<lparr>sys := s, phase_of := (phase_of x)(c := Unlocks l), held := (held x)(c := remove1 l (held x c))\<rparr> =
      conc_upd x c id (Unlocks l) (remove1 l (held x c)) (wants_intr x c) l (\<lambda>y. y\<lparr>lk_cpu := None\<rparr>)"
    using step_clear(2,3) held_holder [OF step_clear(4) o] by (auto simp: release_clear_spec conc_upd_def)
  then show ?case using step_clear_inv [OF step_clear(4,1,2)] by simp
next
  case (step_unlock x c l s)
  have "phase_of x c \<noteq> Running \<or> held x c \<noteq> []" using step_unlock(1) by simp
  from release_unlock_spec [OF conc_cpu [OF step_unlock(3) this], of l]
  have "x\<lparr>sys := s, phase_of := (phase_of x)(c := Running)\<rparr> =
      conc_upd x c popped Running (held x c) (wants_intr x c) l (\<lambda>y. y\<lparr>lk_locked := False\<rparr>)"
    using step_unlock(2) by (auto simp: conc_upd_def)
  then show ?case using step_unlock_inv [OF step_unlock(3,1)] by simp
qed

lemma lock_steps_inv: "lock_step\<^sup>*\<^sup>* x y \<Longrightarrow> conc_inv x \<Longrightarrow> conc_inv y"
  by (induction rule: rtranclp_induct) (auto intro: lock_step_inv)

lemma release_returns:
  assumes "conc_inv x" and "l \<in> set (held x c)"
  shows "\<exists>s. release c l (sys x) = Ok () s"
proof -
  have o: "owns x c l" and h: "phase_of x c \<noteq> Running \<or> held x c \<noteq> []" using assms(2) by (auto simp: owns_def)
  let ?s = "(sys x)\<lparr>locks := (locks (sys x))[l := (locks (sys x) ! l)\<lparr>lk_cpu := None\<rparr>]\<rparr>"
  have "release_clear c l (sys x) = Ok () ?s" using held_holder [OF assms(1) o] assms(2) by (intro release_clear_spec) auto
  moreover have "\<exists>s. release_unlock c l ?s = Ok () s" using release_unlock_spec [of c ?s l] conc_cpu [OF assms(1) h] by simp
  ultimately show ?thesis by (auto simp: release_def kseq_def kbind_def)
qed

text \<open>C30. Spin locks exclude each other under every interleaving of the CPUs, down to the single stores of \<^verbatim>\<open>acquire\<close> and \<^verbatim>\<open>release\<close>: no two
  CPUs are inside the critical section of a lock; a CPU that is inside one has its interrupts off, and a CPU that is outside all of
  them has its interrupts as it last set them itself; the code of \<^verbatim>\<open>release\<close> does not panic in a CPU that holds the lock; and a CPU that spins for a lock takes it with
  its next exchange when no CPU owns it.\<close>

theorem spinlock_mutual_exclusion:
  assumes "conc_init x0" and "lock_step\<^sup>*\<^sup>* x0 x"
  shows "(\<forall>c d l. l \<in> set (held x c) \<longrightarrow> l \<in> set (held x d) \<longrightarrow> c = d) \<and>
     (\<forall>c. held x c \<noteq> [] \<longrightarrow> \<not> intr (cpus (sys x) ! c)) \<and>
     (\<forall>c < length (cpus (sys x)). phase_of x c = Running \<longrightarrow> held x c = [] \<longrightarrow> intr (cpus (sys x) ! c) = wants_intr x c) \<and>
     (\<forall>c. \<forall>l \<in> set (held x c). \<exists>s. release c l (sys x) = Ok () s) \<and>
     (\<forall>c l. phase_of x c = Spins l \<longrightarrow> (\<forall>d. \<not> owns x d l) \<longrightarrow> (\<exists>s. acquire_swap l (sys x) = Ok False s))"
proof -
  have inv: "conc_inv x" using lock_steps_inv [OF assms(2) conc_init_inv [OF assms(1)]] .
  have "c = d" if "l \<in> set (held x c)" "l \<in> set (held x d)" for c d l
    using unique_owner [OF inv, of c l d] that by (simp add: owns_def)
  moreover have "intr (cpus (sys x) ! c) = wants_intr x c" if "c < length (cpus (sys x))" "phase_of x c = Running" "held x c = []" for c
    using conc_invD(1) [OF inv that(1)] that by (simp add: cpu_inv_def cpu_ok_def)
  moreover have "\<exists>s. acquire_swap l (sys x) = Ok False s" if "phase_of x c = Spins l" "\<forall>d. \<not> owns x d l" for c l
  proof -
    have c: "c < length (cpus (sys x))" using conc_invD(3) [OF inv, of c] that by simp
    have "l < length (locks (sys x))" using conc_invD(1) [OF inv c] that by (simp add: cpu_inv_def cpu_ok_def)
    then show ?thesis using conc_invD(2) [OF inv] that(2) by (simp add: acquire_swap_spec lock_inv_def lock_ok_def)
  qed
  ultimately show ?thesis using conc_cpu(2) [OF inv] release_returns [OF inv] by blast
qed

definition two_cpus :: conc where
  "two_cpus = \<lparr>sys = \<lparr>cpus = replicate 2 \<lparr>noff = 0, intena = False, intr = True\<rparr>, locks = [\<lparr>lk_locked = False, lk_cpu = None\<rparr>]\<rparr>,
     phase_of = (\<lambda>_. Running), held = (\<lambda>_. []), wants_intr = (\<lambda>_. True)\<rparr>"

theorem spinlock_mutual_exclusion_witness:
  "\<exists>x. lock_step\<^sup>*\<^sup>* two_cpus x \<and> held x 1 = [0] \<and> \<not> intr (cpus (sys x) ! 1)"
proof -
  have i: "conc_init two_cpus" by (auto simp: conc_init_def two_cpus_def nth_Cons' numeral_2_eq_2)
  define x1 where "x1 = two_cpus\<lparr>sys := (sys two_cpus)\<lparr>cpus := (cpus (sys two_cpus))[1 := pushed (cpus (sys two_cpus) ! 1)]\<rparr>, phase_of := (phase_of two_cpus)(1 := Spins 0)\<rparr>"
  define x2 where "x2 = x1\<lparr>sys := (sys x1)\<lparr>locks := (locks (sys x1))[0 := (locks (sys x1) ! 0)\<lparr>lk_locked := True\<rparr>]\<rparr>, phase_of := (phase_of x1)(1 := Records 0)\<rparr>"
  define x3 where "x3 = x2\<lparr>sys := (sys x2)\<lparr>locks := (locks (sys x2))[0 := (locks (sys x2) ! 0)\<lparr>lk_cpu := Some 1\<rparr>]\<rparr>, phase_of := (phase_of x2)(1 := Running),
      held := (held x2)(1 := 0 # held x2 1)\<rparr>"
  have "lock_step two_cpus x1" unfolding x1_def by (rule step_enter) (simp_all add: acquire_enter_spec two_cpus_def)
  moreover have "lock_step x1 x2" unfolding x2_def by (rule step_swap) (simp_all add: acquire_swap_spec x1_def two_cpus_def)
  moreover have "lock_step x2 x3" unfolding x3_def by (rule step_record) (simp_all add: acquire_record_def upd_lock_def kmod_def x2_def)
  ultimately have r: "lock_step\<^sup>*\<^sup>* two_cpus x3" by (blast intro: converse_rtranclp_into_rtranclp)
  have h: "held x3 1 = [0]" by (simp add: x3_def x2_def x1_def two_cpus_def)
  then have "\<not> intr (cpus (sys x3) ! 1)" using spinlock_mutual_exclusion [OF i r] by (metis list.discI)
  then show ?thesis using r h by blast
qed

end
