(* ===== verification/Uart_Correct.thy ===== *)
theory Uart_Correct
  imports Console Ring Machine_Fs
begin

text \<open>
  The transmit buffer of \<^verbatim>\<open>src/kernel/uart.c\<close> as a circular buffer, and the order of the bytes that the driver sends.
\<close>

definition uart_ok :: "uart \<Rightarrow> bool" where
  "uart_ok u \<longleftrightarrow> length (u_tx_buf u) = UART_TX_BUF_SIZE \<and> u_tx_w u < UART_TX_BUF_SIZE \<and> u_tx_r u < UART_TX_BUF_SIZE"

definition uart_len :: "uart \<Rightarrow> nat" where
  "uart_len u = (u_tx_w u + UART_TX_BUF_SIZE - u_tx_r u) mod UART_TX_BUF_SIZE"

definition uart_queue :: "uart \<Rightarrow> bytes" where
  "uart_queue u = ring_list UART_TX_BUF_SIZE (u_tx_buf u) (u_tx_r u) (uart_len u)"

lemma length_uart_queue [simp]: "length (uart_queue u) = uart_len u"
  by (simp add: uart_queue_def)

lemma uart_len_cases:
  assumes "uart_ok u"
  shows "uart_len u = (if u_tx_r u \<le> u_tx_w u then u_tx_w u - u_tx_r u else u_tx_w u + UART_TX_BUF_SIZE - u_tx_r u)"
  using assms by (auto simp: uart_len_def uart_ok_def params mod_if)

lemma uart_slot: "uart_ok u \<Longrightarrow> u_tx_w u = (u_tx_r u + uart_len u) mod UART_TX_BUF_SIZE"
  using uart_len_cases [of u] by (auto simp: uart_ok_def params mod_if)

lemma uart_full: "uart_ok u \<Longrightarrow> (u_tx_w u + 1) mod UART_TX_BUF_SIZE = u_tx_r u \<longleftrightarrow> uart_len u = UART_TX_BUF_SIZE - 1"
  using uart_len_cases [of u] by (auto simp: uart_ok_def params mod_if)

lemma uart_empty: "uart_ok u \<Longrightarrow> u_tx_w u = u_tx_r u \<longleftrightarrow> uart_queue u = []"
  using uart_len_cases [of u] length_uart_queue [of u] by (auto simp: uart_ok_def params simp del: length_uart_queue split: if_splits)

lemma uart_put_ok: "uart_ok u \<Longrightarrow> uart_ok (uart_put c u)"
  by (simp add: uart_ok_def uart_put_def params)

lemma uart_drop_ok: "uart_ok u \<Longrightarrow> uart_ok (uart_drop u)"
  by (simp add: uart_ok_def uart_drop_def params)

lemma uart_put_len: "uart_ok u \<Longrightarrow> uart_len u < UART_TX_BUF_SIZE - 1 \<Longrightarrow> uart_len (uart_put c u) = Suc (uart_len u)"
  using uart_len_cases [of u] uart_len_cases [OF uart_put_ok, of u c] by (auto simp: uart_ok_def uart_put_def params mod_if split: if_splits)

lemma uart_drop_len: "uart_ok u \<Longrightarrow> 0 < uart_len u \<Longrightarrow> uart_len u = Suc (uart_len (uart_drop u))"
  using uart_len_cases [of u] uart_len_cases [OF uart_drop_ok, of u] by (auto simp: uart_ok_def uart_drop_def params mod_if split: if_splits)

interpretation uart_ring: ring_buffer "UART_TX_BUF_SIZE - 1" uart_ok uart_queue uart_put uart_front uart_drop
proof
  fix s :: uart and e
  assume ok: "uart_ok s"
  show "length (uart_queue s) \<le> UART_TX_BUF_SIZE - 1" using uart_len_cases [OF ok] ok by (auto simp: uart_ok_def params)
  show "uart_ok (uart_put e s)" by (rule uart_put_ok [OF ok])
  show "uart_queue (uart_put e s) = uart_queue s @ [e]" if "length (uart_queue s) < UART_TX_BUF_SIZE - 1"
  proof -
    have l: "uart_len (uart_put e s) = Suc (uart_len s)" "uart_len s < UART_TX_BUF_SIZE" using that uart_put_len [OF ok] by (simp_all add: params)
    have "u_tx_buf (uart_put e s) = (u_tx_buf s)[(u_tx_r s + uart_len s) mod UART_TX_BUF_SIZE := e]" "u_tx_r (uart_put e s) = u_tx_r s"
      using uart_slot [OF ok] by (simp_all add: uart_put_def)
    then show ?thesis using l ok ring_list_put [of "u_tx_buf s" UART_TX_BUF_SIZE "uart_len s" "u_tx_r s" e] by (simp add: uart_queue_def uart_ok_def)
  qed
  show "uart_ok (uart_drop s)" by (rule uart_drop_ok [OF ok])
  assume "uart_queue s \<noteq> []"
  then have l: "uart_len s = Suc (uart_len (uart_drop s))" using uart_drop_len [OF ok] by (metis length_uart_queue length_greater_0_conv)
  show "uart_queue (uart_drop s) = tl (uart_queue s)" "uart_front s = hd (uart_queue s)"
  proof -
    have "u_tx_buf (uart_drop s) = u_tx_buf s" "u_tx_r (uart_drop s) = Suc (u_tx_r s) mod UART_TX_BUF_SIZE" by (simp_all add: uart_drop_def)
    then show "uart_queue (uart_drop s) = tl (uart_queue s)"
      unfolding uart_queue_def l by (simp only: ring_list_mod ring_list_drop)
    show "uart_front s = hd (uart_queue s)" unfolding uart_queue_def l ring_list_hd using ok by (simp add: uart_ok_def uart_front_def)
  qed
qed

section \<open>Sending\<close>

text \<open>The bytes handed to the driver: sent to the device, or waiting in the buffer.\<close>

definition uart_stream :: "uart \<Rightarrow> bytes" where
  "uart_stream u = u_sent u @ uart_queue u"

definition always_idle :: "uart \<Rightarrow> bool" where
  "always_idle u \<longleftrightarrow> u_wait u = 0 \<and> (\<forall>n. u_busy u n = 0)"

lemma uart_other:
  "uart_ok (u\<lparr>u_wait := k\<rparr>) = uart_ok u" "uart_ok (u\<lparr>u_sent := x\<rparr>) = uart_ok u"
  "uart_queue (u\<lparr>u_wait := k\<rparr>) = uart_queue u" "uart_queue (u\<lparr>u_sent := x\<rparr>) = uart_queue u"
  "u_sent (uart_drop u) = u_sent u" "u_busy (uart_drop u) = u_busy u" "u_wait (uart_drop u) = u_wait u"
  "u_sent (uart_put c u) = u_sent u" "u_busy (uart_put c u) = u_busy u" "u_wait (uart_put c u) = u_wait u"
  by (simp_all add: uart_ok_def uart_queue_def uart_len_def uart_drop_def uart_put_def)

lemma uart_wakeup [simp]: "wakeup ch s = Ok () (s\<lparr>procs := map (wake ch) (procs s)\<rparr>)"
  by (simp add: wakeup_def kmod_def)

lemma uartstart_loop_spec:
  "uart_ok (uart s) \<Longrightarrow>
    \<exists>s'. uartstart_loop k s = Ok () s' \<and> uart_ok (uart s') \<and> uart_stream (uart s') = uart_stream (uart s) \<and>
      (\<exists>xs. u_sent (uart s') = u_sent (uart s) @ xs) \<and>
      (always_idle (uart s) \<longrightarrow> length (uart_queue (uart s)) < k \<longrightarrow> uart_queue (uart s') = [])"
proof (induction k arbitrary: s)
  case 0
  then show ?case by (simp add: kret_def)
next
  case (Suc k)
  let ?u = "uart s"
  show ?case
  proof (cases "uart_queue ?u = []")
    case True
    then show ?thesis using Suc.prems uart_empty [OF Suc.prems] by (simp add: kbind_def kget_def kret_def)
  next
    case ne: False
    note ring = uart_ring.rest_ok [OF Suc.prems ne] uart_ring.rest_queue [OF Suc.prems ne] uart_ring.front_queue [OF Suc.prems ne]
    have w: "u_tx_w ?u \<noteq> u_tx_r ?u" using uart_empty [OF Suc.prems] ne by simp
    show ?thesis
    proof (cases "u_wait ?u = 0")
      case False
      then show ?thesis using w Suc.prems
        by (simp add: tx_idle_def upd_uart_def kbind_def kseq_def kget_def kmod_def kret_def uart_other uart_stream_def always_idle_def)
    next
      case True
      define u' where "u' = (uart_drop ?u)\<lparr>u_sent := u_sent ?u @ [uart_front ?u], u_wait := u_busy ?u (length (u_sent ?u))\<rparr>"
      define t where "t = s\<lparr>procs := map (wake ChanUart) (procs s), uart := u'\<rparr>"
      have eq: "uartstart_loop (Suc k) s = uartstart_loop k t"
        using w True by (simp add: t_def u'_def tx_idle_def write_thr_def upd_uart_def kbind_def kseq_def kget_def kmod_def kret_def uart_drop_def)
      have u': "uart_ok u'" "uart_queue u' = tl (uart_queue ?u)" "uart_stream u' = uart_stream ?u" "u_busy u' = u_busy ?u" "u_sent u' = u_sent ?u @ [uart_front ?u]"
        using ring ne by (simp_all add: u'_def uart_other uart_stream_def)
      obtain s' xs where r: "uartstart_loop k t = Ok () s'" "uart_ok (uart s')" "uart_stream (uart s') = uart_stream ?u"
        "u_sent (uart s') = u_sent u' @ xs" "always_idle u' \<longrightarrow> length (uart_queue u') < k \<longrightarrow> uart_queue (uart s') = []"
        using Suc.IH [of t] u' by (auto simp: t_def)
      have "always_idle ?u \<Longrightarrow> always_idle u'" by (simp add: always_idle_def u'_def uart_other)
      moreover have "length (uart_queue ?u) = Suc (length (uart_queue u'))" using ne unfolding u'(2) by (cases "uart_queue ?u") simp_all
      ultimately have "always_idle ?u \<longrightarrow> length (uart_queue ?u) < Suc k \<longrightarrow> uart_queue (uart s') = []" using r(5) by linarith
      moreover have "u_sent (uart s') = u_sent ?u @ uart_front ?u # xs" using r(4) u'(5) by simp
      ultimately show ?thesis unfolding eq using r(1-3) by blast
    qed
  qed
qed

text \<open>C33. The UART driver neither loses, duplicates nor reorders bytes: when there is room, \<^verbatim>\<open>uartputc\<close> returns, the bytes that the device has got and those
  that wait in the buffer are together what they were, followed by the new byte, and what the device had got stays; all of them are with the device
  if it is always ready. When the buffer is full, \<^verbatim>\<open>uartputc\<close> sleeps and leaves the driver as it is.\<close>

theorem uartputc_order:
  assumes "uart_ok (uart s)"
  shows "if length (uart_queue (uart s)) < UART_TX_BUF_SIZE - 1 then
       \<exists>s'. uartputc c s = Ok () s' \<and> uart_ok (uart s') \<and>
         u_sent (uart s') @ uart_queue (uart s') = u_sent (uart s) @ uart_queue (uart s) @ [c] \<and>
         (\<exists>xs. u_sent (uart s') = u_sent (uart s) @ xs) \<and> (always_idle (uart s) \<longrightarrow> uart_queue (uart s') = [])
     else \<exists>s'. uartputc c s = Sleep ChanUart s' \<and> uart s' = uart s"
proof (cases "length (uart_queue (uart s)) < UART_TX_BUF_SIZE - 1")
  case True
  let ?t = "s\<lparr>uart := uart_put c (uart s)\<rparr>"
  note put = uart_ring.put_ok [OF assms True, of c] uart_ring.put_queue [OF assms True, of c]
  have "length (uart_queue (uart ?t)) < UART_TX_BUF_SIZE" "always_idle (uart s) \<Longrightarrow> always_idle (uart ?t)"
    using True put by (simp_all add: always_idle_def uart_other uart_put_len assms)
  then obtain s' where "uartstart ?t = Ok () s'" "uart_ok (uart s')" "uart_stream (uart s') = uart_stream (uart ?t)"
      "\<exists>xs. u_sent (uart s') = u_sent (uart s) @ xs" "always_idle (uart s) \<longrightarrow> uart_queue (uart s') = []"
    using uartstart_loop_spec [of ?t UART_TX_BUF_SIZE] put(1) by (auto simp: uartstart_def uart_other)
  moreover have "uartputc c s = uartstart ?t"
    using True uart_full [OF assms] by (simp add: uartputc_def upd_uart_def kbind_def kseq_def kget_def kmod_def)
  ultimately show ?thesis using True put by (auto simp: uart_stream_def uart_other)
next
  case False
  then have "uart_len (uart s) = UART_TX_BUF_SIZE - 1" using uart_ring.bound [OF assms] by simp
  then show ?thesis using False uart_full [OF assms]
    by (simp add: uartputc_def sleep_def upd_proc_def kbind_def kseq_def kget_def kmod_def ksleep_def)
qed

definition uart_machine :: cons_state where
  "uart_machine = machine (with_bufs []) sample_image
     \<lparr>log = open_log, sb = sample_sb, icache = [],
      uart = \<lparr>u_tx_buf = replicate UART_TX_BUF_SIZE 0, u_tx_w = 30, u_tx_r = 30, u_rhr = [], u_sent = [1], u_wait = 0, u_busy = (\<lambda>_. 0)\<rparr>,
      cons = \<lparr>c_buf = [], c_r = 0, c_w = 0, c_e = 0\<rparr>\<rparr>"

theorem uartputc_order_witness: "\<exists>s'. uartputc 65 uart_machine = Ok () s' \<and> u_sent (uart s') = [1, 65]"
proof -
  have u: "uart uart_machine = \<lparr>u_tx_buf = replicate UART_TX_BUF_SIZE 0, u_tx_w = 30, u_tx_r = 30, u_rhr = [], u_sent = [1], u_wait = 0, u_busy = (\<lambda>_. 0)\<rparr>"
    by (simp add: uart_machine_def machine_def)
  have ok: "uart_ok (uart uart_machine)" "uart_queue (uart uart_machine) = []"
    by (simp_all add: u uart_ok_def uart_queue_def uart_len_def ring_list_def params)
  have "length (uart_queue (uart uart_machine)) < UART_TX_BUF_SIZE - 1" "always_idle (uart uart_machine)" "u_sent (uart uart_machine) = [1]"
    unfolding ok(2) by (simp_all add: u always_idle_def params)
  then show ?thesis using uartputc_order [OF ok(1), of 65] ok(2) by auto
qed

end
