(* ===== verification/Fs_Correct.thy ===== *)
theory Fs_Correct
  imports Machine_Fs
begin

text \<open>
  The correctness of the lower file-system layers of \<^verbatim>\<open>src/kernel/fs.c\<close>, from the block allocator to the
  contents of a file and its inode, inside a transaction and across its commit.
\<close>

section \<open>Blocks\<close>

text \<open>C6. \<^verbatim>\<open>balloc\<close> returns the least free block, zero-filled and marked in the bitmap; no other block changes
  but bitmap blocks, and no other block changes its status.\<close>

theorem balloc_least_free:
  assumes "txn s v L {}" and "layout_ok (sb s) (log s) v" and "card L + 2 \<le> log_cap (log s)"
    and "free_blocks (sb s) v \<noteq> {}"
  shows "\<exists>n s' v' L'. balloc ROOTDEV s = Ok n s' \<and> txn s' v' L' {} \<and> n = Min (free_blocks (sb s) v) \<and>
     v' n = replicate BSIZE 0 \<and> free_blocks (sb s) v' = free_blocks (sb s) v - {n} \<and> layout_ok (sb s) (log s) v' \<and>
     (\<forall>b. b \<noteq> n \<longrightarrow> b \<notin> bitmap_blocks (sb s) \<longrightarrow> v' b = v b)"
proof -
  have "balloc_room s (sb s) L {}" using assms(3) log_cap_NBUF [of "log s"] by (simp add: balloc_room_def)
  then obtain n s' v' L' where 1: "balloc ROOTDEV s = Ok n s'" "txn s' v' L' {}" "allocated (sb s) n v v'"
    "\<forall>c<n. block_used (sb s) v c"
    using balloc_allocates [OF assms(1,2) _ assms(4)] by auto
  have "n = Min (free_blocks (sb s) v)"
  proof (rule Min_eqI [symmetric])
    show "n \<le> c" if "c \<in> free_blocks (sb s) v" for c
      using that 1(4) by (metis (mono_tags, lifting) free_blocks_def mem_Collect_eq not_le)
  qed (use allocated_free [OF 1(3)] in auto)
  then show ?thesis
    using 1 allocated_free [OF 1(3)] allocated_layout [OF 1(3) assms(2)] by (auto simp: allocated_def)
qed

theorem balloc_least_free_witness:
  "\<exists>n s'. balloc ROOTDEV sample_fs = Ok n s' \<and> n = 48"
proof -
  have "Min {48..<1000 :: nat} = 48" by (rule Min_eqI) auto
  then show ?thesis
    using balloc_least_free [OF sample_fs_txn] sample_layout by (auto simp: sample_free log_cap_open_log)
qed

text \<open>C7. A block that \<^verbatim>\<open>balloc\<close> returned can be freed again, and \<^verbatim>\<open>bfree\<close> restores the set of free blocks.\<close>

theorem balloc_bfree_roundtrip:
  assumes t: "txn s v L {}" and ly: "layout_ok (sb s) (log s) v" and cap: "card L + 3 \<le> log_cap (log s)"
    and free: "free_blocks (sb s) v \<noteq> {}"
  shows "\<exists>n s' s'' v'. balloc ROOTDEV s = Ok n s' \<and> bfree ROOTDEV n s' = Ok () s'' \<and> c_view (acache s'') = v' \<and>
     free_blocks (sb s) v' = free_blocks (sb s) v"
proof -
  have "balloc_room s (sb s) L {}" using cap log_cap_NBUF [of "log s"] by (simp add: balloc_room_def)
  then obtain n s' v' L' where 1: "balloc ROOTDEV s = Ok n s'" "tstep {} s s'" "txn s' v' L' {}" "allocated (sb s) n v v'"
    "card L' \<le> card L + 2" using balloc_allocates [OF t ly _ free] by auto
  have e: "sb s' = sb s" "log_cap (log s') = log_cap (log s)" "log_area (log s') = log_area (log s)"
    using tstep_sb [OF 1(2)] tstep_log [OF 1(2)] by simp_all
  have n: "n < sb_size (sb s)" "block_used (sb s) v' n" "layout_ok (sb s') (log s') v'"
    using 1(4) allocated_layout [OF 1(4) ly] area_cong(1) [OF e(3)] e(1) by (auto simp: allocated_def free_blocks_def)
  obtain s'' where 2: "bfree ROOTDEV n s' = Ok () s''" "txn s'' (v'(BBLOCK n (sb s) := mark_free (sb s) n v')) (insert (BBLOCK n (sb s)) L') {}"
    using bfree_spec [OF 1(3) n(3)] n e cap 1(5) log_cap_NBUF [of "log s"] by auto
  have "block_used (sb s) (v'(BBLOCK n (sb s) := mark_free (sb s) n v')) c \<longleftrightarrow> block_used (sb s) v' c \<and> c \<noteq> n" for c
    using free_mark [of v' n "sb s" _ c] txn_length [OF 1(3)] by auto
  then have "free_blocks (sb s) (v'(BBLOCK n (sb s) := mark_free (sb s) n v')) = free_blocks (sb s) v"
    using 1(4) by (auto simp: allocated_def free_blocks_def)
  then show ?thesis using 1(1) 2 txnD(4) [OF 2(2)] by auto
qed


theorem balloc_bfree_roundtrip_witness:
  "\<exists>n s' s''. balloc ROOTDEV sample_fs = Ok n s' \<and> bfree ROOTDEV n s' = Ok () s'' \<and>
     free_blocks sample_sb (c_view (acache s'')) = {48..<1000}"
  using balloc_bfree_roundtrip [OF sample_fs_txn] sample_layout by (auto simp: sample_free log_cap_open_log)

text \<open>C22. Freeing a block that is free panics.\<close>

theorem bfree_free_panics:
  assumes "txn s v L {}" and "layout_ok (sb s) (log s) v" and "b < sb_size (sb s)" and "\<not> block_used (sb s) v b"
  shows "\<exists>s'. bfree ROOTDEV b s = Panic ''freeing free block'' s'"
proof -
  have "card (L \<union> {}) < NBUF" using txn_card(2) [OF assms(1)] log_wf_bound [OF txnD(2) [OF assms(1)]] by simp
  then show ?thesis using bfree_panics [OF assms(1-4)] by simp
qed

theorem bfree_free_panics_witness: "\<exists>s'. bfree ROOTDEV 700 sample_fs = Panic ''freeing free block'' s'"
  using bfree_free_panics [OF sample_fs_txn, of 700] sample_layout sample_used [of 700] by (simp add: sample_sb_def)

text \<open>C23. Inside a transaction with room for two more blocks in the log, on a disk whose layout is well formed, \<^verbatim>\<open>balloc\<close> panics when
  every block is in use and otherwise returns a block other than 0. So it never returns 0 there, and the checks of its callers
  for 0 do not fire.\<close>

theorem balloc_exhausted_panics:
  assumes "txn s v L {}" and "layout_ok (sb s) (log s) v" and "card L + 2 \<le> log_cap (log s)"
  shows "if free_blocks (sb s) v = {} then \<exists>s'. balloc ROOTDEV s = Panic ''balloc: out of blocks'' s'
         else \<exists>n s'. balloc ROOTDEV s = Ok n s' \<and> n \<noteq> 0"
proof (cases "free_blocks (sb s) v = {}")
  case True
  have "balloc_room s (sb s) L {}" using assms(3) log_cap_NBUF [of "log s"] by (simp add: balloc_room_def)
  moreover have "\<forall>c < sb_size (sb s). block_used (sb s) v c" using True by (auto simp: free_blocks_def)
  moreover have "i * BPB < sb_size (sb s)" if "i < (sb_size (sb s) + BPB - 1) div BPB" for i
  proof -
    have "Suc i * BPB \<le> sb_size (sb s) + BPB - 1" using that by (metis Suc_leI div_times_less_eq_dividend mult_le_mono1 order_trans)
    then show ?thesis by (simp add: params)
  qed
  ultimately show ?thesis
    using balloc_full [OF assms(1,2), of "[0..<(sb_size (sb s) + BPB - 1) div BPB]"] True by (simp add: balloc_def)
next
  case False
  have "balloc_room s (sb s) L {}" using assms(3) log_cap_NBUF [of "log s"] by (simp add: balloc_room_def)
  then obtain n s' v' where "balloc ROOTDEV s = Ok n s'" "allocated (sb s) n v v'"
    using balloc_allocates [OF assms(1,2) _ False] by auto
  moreover from this have "n \<noteq> 0" using layoutD(4) [OF assms(2), of n] by (auto simp: allocated_def free_blocks_def)
  ultimately show ?thesis using False by auto
qed

definition full_image :: disk where
  "full_image = (\<lambda>_. replicate BSIZE 255)"

definition full_fs :: fs_state where
  "full_fs = machine (with_bufs []) full_image \<lparr>log = open_log, sb = sample_sb, icache = [sample_inode]\<rparr>"

theorem balloc_exhausted_panics_witness:
  "(\<exists>s'. balloc ROOTDEV full_fs = Panic ''balloc: out of blocks'' s') \<and> (\<exists>n s'. balloc ROOTDEV sample_fs = Ok n s' \<and> n \<noteq> 0)"
proof -
  have t: "txn full_fs full_image {} {}"
    unfolding full_fs_def
    by (rule machine_txn) (simp_all add: full_image_def log_wf_def open_log_def params logged_def)
  have s: "sb full_fs = sample_sb" "log full_fs = open_log" by (simp_all add: full_fs_def machine_def)
  have u: "block_used sample_sb full_image b" for b
    using ones_and_bmask by (simp add: block_used_def full_image_def params)
  have "layout_ok sample_sb open_log full_image"
    unfolding layout_ok_def sample_blocks using u by (auto simp: sample_sb_def)
  moreover have "free_blocks sample_sb full_image = {}" using u by (simp add: free_blocks_def)
  ultimately have "\<exists>s'. balloc ROOTDEV full_fs = Panic ''balloc: out of blocks'' s'"
    using balloc_exhausted_panics [OF t] by (simp add: s log_cap_open_log)
  moreover have "\<exists>n s'. balloc ROOTDEV sample_fs = Ok n s' \<and> n \<noteq> 0"
    using balloc_exhausted_panics [OF sample_fs_txn] sample_layout by (auto simp: sample_free log_cap_open_log)
  ultimately show ?thesis by blast
qed

section \<open>Files\<close>

text \<open>C5. \<^verbatim>\<open>bmap\<close> returns the block of the file, which is there afterwards: zero-filled if the file did not have it.
  The file stays well formed, keeps its other blocks, and every block in use but the bitmap and the
  file's own indirect block keeps its contents.\<close>

theorem bmap_extends_file:
  assumes "file_at s v L ip x" and "bn < MAXFILE" and "card L + 5 \<le> log_cap (log s)"
    and "2 \<le> card (free_blocks (sb s) v)"
  shows "\<exists>s' v' L' x'. bmap ip bn s = Ok (blk x' v' bn) s' \<and> file_at s' v' L' ip x' \<and> blk x' v' bn \<noteq> 0 \<and>
     (blk x v bn = 0 \<longrightarrow> v' (blk x' v' bn) = replicate BSIZE 0) \<and>
     (\<forall>k<MAXFILE. k \<noteq> bn \<or> blk x v bn \<noteq> 0 \<longrightarrow> blk x' v' k = blk x v k) \<and>
     (\<forall>b < sb_size (sb s). block_used (sb s) v b \<longrightarrow> b \<notin> bitmap_blocks (sb s) \<longrightarrow> b \<noteq> indirect x \<longrightarrow> v' b = v b)"
proof -
  obtain s' v' L' x' where "bmap ip bn s = Ok (blk x' v' bn) s'" "bmapped s v L 2 ip x bn s' v' L' x'"
    using bmap_spec [OF assms] by blast
  then show ?thesis
    by (intro exI [of _ s'] exI [of _ v'] exI [of _ L'] exI [of _ x']) (simp add: bmapped_def grown_def)
qed

theorem bmap_extends_file_witness:
  "\<exists>a s' v'. bmap 0 100 sample_fs = Ok a s' \<and> a \<noteq> 0 \<and> v' a = replicate BSIZE 0 \<and> v' 32 = sample_image 32"
proof -
  have "(100 :: nat) < MAXFILE" by (simp add: params)
  from bmap_extends_file [OF sample_file(1) this] obtain s' v' L' x' where
    "bmap 0 100 sample_fs = Ok (blk x' v' 100) s'" "blk x' v' 100 \<noteq> 0"
    "blk sample_inode sample_image 100 = 0 \<longrightarrow> v' (blk x' v' 100) = replicate BSIZE 0"
    "\<forall>b < sb_size sample_sb. block_used sample_sb sample_image b \<longrightarrow> b \<notin> bitmap_blocks sample_sb \<longrightarrow> b \<noteq> indirect sample_inode \<longrightarrow>
       v' b = sample_image b"
    by (auto simp: log_cap_open_log sample_free)
  moreover from this(4) have "v' 32 = sample_image 32"
    using sample_used [of 32] by (simp add: sample_blocks sample_inode_simps)
  ultimately show ?thesis
    using \<open>100 < MAXFILE\<close> by (intro exI [of _ "blk x' v' 100"] exI [of _ s'] exI [of _ v']) (simp add: sample_inode_simps)
qed

text \<open>C3. What was written is what is read back: \<^verbatim>\<open>readi\<close> at the offset of a \<^verbatim>\<open>writei\<close> returns the bytes written.\<close>

theorem readi_after_writei:
  assumes f: "file_at s v L ip x" and full: "file_full x v" and off: "unat off \<le> i_size x"
    and lim: "unat off + length bs \<le> MAXFILE * BSIZE" and bs: "bs \<noteq> []" and src: "supplies s src bs"
    and inum: "i_inum x < sb_ninodes (sb s)"
    and L: "card L + 6 * span_blocks (unat off) (length bs) + 1 \<le> log_cap (log s)"
    and free: "2 * span_blocks (unat off) (length bs) \<le> card (free_blocks (sb s) v)" and cur: "cur s < length (procs s)"
  shows "\<exists>s' s''. writei ip src off (of_nat (length bs)) s = Ok (int (length bs)) s' \<and>
     readi ip LocalDst off (of_nat (length bs)) s' = Ok (length bs, bs) s''"
proof -
  obtain s' v' L' x' where 1: "writei ip src off (of_nat (length bs)) s = Ok (int (length bs)) s'" "fstep {} s s'"
     "file_at s' v' L' ip x'" "file_full x' v'" "contents x' v' = put_bytes (unat off) bs (contents x v)"
     "card L' \<le> card L + 6 * span_blocks (unat off) (length bs) + 1"
    using writei_spec [OF assms] by blast
  note n = of_nat_length32 [OF lim]
  have len: "unat off + length bs \<le> length (contents x' v')"
    using 1(5) off by (simp add: put_bytes_def contents_def)
  have "unat off \<le> i_size x'" using len by (simp add: contents_def)
  moreover have "unat off + unat (of_nat (length bs) :: uint32) < 2 ^ 32" using n(1) lim by (simp add: params)
  moreover have "card L' < NBUF" using 1(6) L log_cap_NBUF [of "log s"] by linarith
  moreover have "get_bytes (unat off) (length bs) (contents x' v') = bs"
    unfolding 1(5) using off by (simp add: put_bytes_def get_bytes_def contents_def)
  ultimately obtain s'' where "readi ip LocalDst off (of_nat (length bs)) s' = Ok (length bs, bs) s''"
    using readi_spec [OF 1(3,4), of off "of_nat (length bs)"] n(1) by auto
  then show ?thesis using 1(1) by blast
qed

theorem readi_after_writei_witness:
  "\<exists>s' s''. writei 0 (LocalSrc [104, 105]) 0 2 sample_fs = Ok 2 s' \<and> readi 0 LocalDst 0 2 s' = Ok (2, [104, 105]) s''"
  using readi_after_writei [OF sample_file _ _ _ supplies_local, where off = 0 and bs = "[104, 105]"]
  by (simp add: span_blocks_def log_cap_open_log sample_free sample_inode_simps params numeral_2_eq_2)


text \<open>A file of a quiescent file system: no transaction is open and the log is empty.\<close>

definition file_idle :: "'a fs_state_scheme \<Rightarrow> (nat \<Rightarrow> bytes) \<Rightarrow> nat \<Rightarrow> inode \<Rightarrow> bool" where
  "file_idle s v ip x \<longleftrightarrow>
     log_quiet s \<and> lg_outstanding (log s) = 0 \<and> lg_n (log s) = 0 \<and> \<not> lg_committing (log s) \<and> c_view (acache s) = v \<and>
     layout_ok (sb s) (log s) v \<and> ip < length (icache s) \<and> icache s ! ip = x \<and> i_dev x = ROOTDEV \<and>
     file_wf (sb s) (log s) v x"

lemma begin_op_file:
  assumes "file_idle s v ip x"
  shows "\<exists>s'. begin_op s = Ok () s' \<and> file_at s' v {} ip x \<and> s' = s\<lparr>log := (log s)\<lparr>lg_outstanding := 1\<rparr>\<rparr>"
proof -
  note i = assms [unfolded file_idle_def]
  let ?s = "s\<lparr>log := (log s)\<lparr>lg_outstanding := 1\<rparr>\<rparr>"
  have run: "begin_op s = Ok () ?s" using i by (simp add: begin_op_def set_log_def params)
  obtain s' where "begin_op s = Ok () s'" "txn s' v (set (logged (log s))) {}"
    using begin_op_spec [of s] i by (auto simp: params)
  then have "txn ?s v {} {}" using run i by (simp add: logged_def)
  moreover have "log_area (log ?s) = log_area (log s)" by (simp add: log_area_def)
  ultimately have "file_at ?s v {} ip x" using i area_cong [of "log ?s" "log s"] by (simp add: file_at_def)
  then show ?thesis using run by simp
qed

lemma contents_cong:
  assumes full: "file_full x v" and wf: "file_wf y l v x" and same: "\<And>b. b \<notin> log_area l \<Longrightarrow> w b = v b"
  shows "contents x w = contents x v"
proof -
  have "indirect x \<noteq> 0 \<Longrightarrow> w (indirect x) = v (indirect x)"
    using file_wfD(2) [OF wf] same by (simp add: data_block_def)
  then have blk: "blk x w k = blk x v k" for k by (auto simp: blk_def)
  have "file_byte x w i = file_byte x v i" if i: "i < i_size x" for i
  proof -
    have "i div BSIZE * BSIZE < i_size x" using le_less_trans [OF div_times_less_eq_dividend i] .
    then have m: "blk x v (i div BSIZE) \<noteq> 0" using full unfolding file_full_def by blast
    have k: "i div BSIZE < MAXFILE" using i full by (intro div_BSIZE_less) (simp add: file_full_def)
    have "blk x v (i div BSIZE) \<notin> log_area l" using file_wfD(3) [OF wf k m] by (simp add: data_block_def)
    then show ?thesis using same by (simp add: file_byte_def blk)
  qed
  then show ?thesis by (simp add: contents_def)
qed

lemma lstep_icache:
  assumes "lstep B s (t :: 'a fs_state_scheme)"
  shows "icache t = icache s"
proof -
  have "bframe (s\<lparr>log := log t\<rparr>) t" using assms by (simp add: lstep_def bstep_def)
  then obtain ps bs v dk tr lk where
    *: "t = s\<lparr>log := log t, procs := ps, bufs := bs, vdisk := v, disk := dk, disk_trace := tr, links := lk\<rparr>"
    by (auto simp: bframe_def)
  show ?thesis using arg_cong [OF *, of icache] by simp
qed

text \<open>C2. A write in a transaction of its own is durable: when \<^verbatim>\<open>end_op\<close> returns, the disk itself holds the file
  with the bytes written, and its inode.\<close>

theorem write_transaction_durable:
  assumes idle: "file_idle s v ip x" and full: "file_full x v" and off: "unat off \<le> i_size x"
    and lim: "unat off + length bs \<le> MAXFILE * BSIZE" and bs: "bs \<noteq> []" and src: "supplies s src bs"
    and inum: "i_inum x < sb_ninodes (sb s)"
    and room: "6 * span_blocks (unat off) (length bs) + 1 \<le> log_cap (log s)"
    and free: "2 * span_blocks (unat off) (length bs) \<le> card (free_blocks (sb s) v)" and cur: "cur s < length (procs s)"
  shows "\<exists>s'. kseq begin_op (kbind (writei ip src off (of_nat (length bs))) (\<lambda>r. kseq end_op (kret r))) s = Ok (int (length bs)) s' \<and>
     contents (icache s' ! ip) (disk s') = put_bytes (unat off) bs (contents x v) \<and>
     same_on_disk (load_dinode (dinode_off (i_inum x)) (disk s' (IBLOCK (i_inum x) (sb s))) y) (icache s' ! ip)"
proof -
  note i = idle [unfolded file_idle_def]
  let ?s = "s\<lparr>log := (log s)\<lparr>lg_outstanding := 1\<rparr>\<rparr>" and ?ib = "IBLOCK (i_inum x) (sb s)"
  have b: "begin_op s = Ok () ?s" "file_at ?s v {} ip x" using begin_op_file [OF idle] by auto
  have src': "supplies ?s src bs" by (rule supplies_frame [OF _ _ src]) (simp_all add: myproc_of_def)
  have "card ({} :: nat set) + 6 * span_blocks (unat off) (length bs) + 1 \<le> log_cap (log ?s)"
    using room by (simp add: log_cap_def)
  from writei_spec [OF b(2) full off lim bs src' _ this, where y = y] inum free cur obtain s1 v1 L1 x1 where
    1: "writei ip src off (of_nat (length bs)) ?s = Ok (int (length bs)) s1" "fstep {} ?s s1" "file_at s1 v1 L1 ip x1"
     "file_full x1 v1" "contents x1 v1 = put_bytes (unat off) bs (contents x v)"
     "same_on_disk (load_dinode (dinode_off (i_inum x)) (v1 ?ib) y) x1" by auto
  note F1 = file_atD [OF 1(3)]
  have st: "log_static (log s1) = log_static (log ?s)" "log_area (log s1) = log_area (log s)" "sb s1 = sb s"
    using 1(2) fstep_log [OF 1(2)] fstep_sb [OF 1(2)] by (simp_all add: fstep_def tstep_def log_area_def)
  then have "lg_outstanding (log s1) = 1" "\<not> lg_committing (log s1)" using i by (simp_all add: log_static_def)
  from end_op_spec [OF F1(1) this] obtain s2 where 2: "end_op s1 = Ok () s2" "lstep {} s1 s2"
    "\<forall>b. b \<notin> log_area (log s1) \<longrightarrow> c_view (acache s2) b = v1 b" "c_disk (acache s2) = c_view (acache s2)" by blast
  have ic: "icache s2 ! ip = x1" using F1(4) lstep_icache [OF 2(2)] by simp
  have d: "disk s2 b = v1 b" if "b \<notin> log_area (log s1)" for b using 2(3,4) that by (simp add: acache_def)
  have "?ib \<in> inode_blocks (sb s)" using inum by (simp add: inode_blocks_def)
  then have "?ib \<notin> log_area (log s1)" using layoutD(3) i st(2) by auto
  then have "disk s2 ?ib = v1 ?ib" by (rule d)
  moreover have "contents x1 (disk s2) = contents x1 v1" by (rule contents_cong [OF 1(4) F1(6) d])
  ultimately show ?thesis using b(1) 1(1,5,6) 2(1) ic by simp
qed


definition idle_fs :: fs_state where
  "idle_fs = machine (with_bufs []) sample_image
     \<lparr>log = open_log\<lparr>lg_outstanding := 0\<rparr>, sb = sample_sb, icache = [sample_inode]\<rparr>"

lemma idle_fs_simps [simp]:
  "log idle_fs = open_log\<lparr>lg_outstanding := 0\<rparr>" "sb idle_fs = sample_sb" "icache idle_fs = [sample_inode]"
  "cur idle_fs = 0" "length (procs idle_fs) = 1"
  by (simp_all add: idle_fs_def machine_def)

lemma idle_fs_file: "file_idle idle_fs sample_image 0 sample_inode"
proof -
  have wf: "log_wf (open_log\<lparr>lg_outstanding := 0\<rparr>)" by (simp add: log_wf_def open_log_def params logged_def)
  have la: "log_area (open_log\<lparr>lg_outstanding := 0\<rparr>) = log_area open_log" by (simp add: log_area_def)
  note m = blank_machine [where dk = sample_image, OF sample_image_length, where x = "\<lparr>log = open_log\<lparr>lg_outstanding := 0\<rparr>, sb = sample_sb, icache = [sample_inode]\<rparr>"]
  have "log_quiet idle_fs" "c_view (acache idle_fs) = sample_image"
    using wf m [folded idle_fs_def] by (simp_all add: log_quiet_def) (simp add: open_log_def logged_def)
  then show ?thesis
    using sample_file(1) area_cong [OF la] sample_layout
    by (simp add: file_idle_def file_at_def) (simp add: open_log_def)
qed

theorem write_transaction_durable_witness:
  "\<exists>s'. kseq begin_op (kbind (writei 0 (LocalSrc [104, 105]) 0 2) (\<lambda>r. kseq end_op (kret r))) idle_fs = Ok 2 s' \<and>
     contents (icache s' ! 0) (disk s') = [104, 105]"
proof -
  have c: "put_bytes 0 bs (contents sample_inode v) = bs" for bs v
    by (simp add: put_bytes_def contents_def sample_inode_simps)
  have l: "log_cap (open_log\<lparr>lg_outstanding := 0\<rparr>) = 29" by (simp add: log_cap_def open_log_def params)
  show ?thesis
    using write_transaction_durable [OF idle_fs_file sample_file(2) _ _ _ supplies_local, where off = 0 and bs = "[104, 105]"]
    by (auto simp: span_blocks_def l sample_free sample_inode_simps params c numeral_2_eq_2)
qed

text \<open>C8. What \<^verbatim>\<open>iupdate\<close> stores, \<^verbatim>\<open>ilock\<close> loads into another entry of the inode cache: type, link count, size,
  mode, permissions and block addresses. The device numbers are not part of the inode on the disk:
  the entry keeps those it had.\<close>

theorem ilock_after_iupdate:
  assumes t: "txn s v L {}" and ly: "layout_ok (sb s) (log s) v" and cap: "card L < log_cap (log s)"
    and x: "ip < length (icache s)" "x = icache s ! ip" "i_dev x = ROOTDEV" "inode_fits x" "i_type x \<noteq> 0" "i_inum x < sb_ninodes (sb s)"
    and z: "jp < length (icache s)" "jp \<noteq> ip" "z = icache s ! jp" "i_dev z = ROOTDEV" "i_inum z = i_inum x"
      "i_ref z \<ge> 1" "\<not> i_valid z" "\<not> slk_locked (i_lock z)"
  shows "\<exists>s' s''. iupdate ip s = Ok () s' \<and> ilock jp s' = Ok () s'' \<and> same_on_disk (icache s'' ! jp) x \<and> i_valid (icache s'' ! jp) \<and>
     i_major (icache s'' ! jp) = i_major z \<and> i_minor (icache s'' ! jp) = i_minor z"
proof -
  let ?b = "IBLOCK (i_inum x) (sb s)" and ?off = "dinode_off (i_inum x)"
  have "?b \<in> inode_blocks (sb s)" using x(6) by (simp add: inode_blocks_def)
  note b = layoutD(3) [OF ly this]
  have room: "card L < NBUF" "card (insert ?b L) < NBUF"
    using cap log_cap_NBUF [of "log s"] txn_card(1) [OF t] by (auto simp: card_insert_if)
  let ?d = "store_dinode ?off x (v ?b)"
  obtain s1 where 1: "iupdate ip s = Ok () s1" "tstep {} s s1" "txn s1 (v(?b := ?d)) (insert ?b L) {}"
    using iupdate_spec [OF t x(2,3)] b cap room by auto
  have e: "icache s1 = icache s" "sb s1 = sb s" using tstep_sb [OF 1(2)] by simp_all
  have len: "?off + DINODE_SIZE \<le> length (v ?b)" using dinode_off_bound txn_length [OF t] by simp
  have same: "same_on_disk (load_dinode ?off ?d z) x" by (rule load_store_dinode [OF len x(4)])
  then have ty: "dinode_type ?off ?d \<noteq> 0" using x(5) by (simp add: same_on_disk_def)
  obtain s2 where 2: "ilock jp s1 = Ok () s2"
     "icache s2 = (icache s)[jp := (load_dinode ?off ?d z)\<lparr>i_lock := \<lparr>slk_locked = True, slk_pid = p_pid (myproc_of s1)\<rparr>, i_valid := True\<rparr>]"
    using ilock_load [OF 1(3), of jp z] z e b room ty by auto
  show ?thesis using 1(1) 2 same z(1) by (intro exI [of _ s1] exI [of _ s2]) (simp add: same_on_disk_def)
qed

definition two_inodes_fs :: fs_state where
  "two_inodes_fs = sample_fs\<lparr>icache := [sample_inode,
     sample_inode\<lparr>i_valid := False, i_lock := \<lparr>slk_locked = False, slk_pid = 0\<rparr>, i_type := 0, i_major := 7\<rparr>]\<rparr>"

theorem ilock_after_iupdate_witness:
  "\<exists>s' s''. iupdate 0 two_inodes_fs = Ok () s' \<and> ilock 1 s' = Ok () s'' \<and> i_type (icache s'' ! 1) = 2 \<and> i_major (icache s'' ! 1) = 7"
proof -
  have t: "txn two_inodes_fs sample_image {} {}" unfolding two_inodes_fs_def using sample_fs_txn by simp
  have s: "sb two_inodes_fs = sample_sb" "log two_inodes_fs = open_log"
    "icache two_inodes_fs = [sample_inode, sample_inode\<lparr>i_valid := False, i_lock := \<lparr>slk_locked = False, slk_pid = 0\<rparr>, i_type := 0, i_major := 7\<rparr>]"
    by (simp_all add: two_inodes_fs_def)
  have i: "inode_fits sample_inode" "i_type sample_inode = 2" "i_ref sample_inode = 1"
    by (simp_all add: inode_fits_def sample_inode_def)
  show ?thesis
    using ilock_after_iupdate [OF t _ _ _ refl, of 0 1, OF _ _ _ _ _ _ _ _ _ refl] sample_layout i
    by (auto simp: s log_cap_open_log sample_inode_simps same_on_disk_def)
qed

end
