(* ===== verification/Dir_Spec.thy ===== *)
theory Dir_Spec
  imports Fs_Data
begin

text \<open>
  The inode cache and directories of \<^verbatim>\<open>src/kernel/fs.c\<close>: \<^verbatim>\<open>iget\<close>, and \<^verbatim>\<open>dirlookup\<close> and \<^verbatim>\<open>dirlink\<close> as a search in and an
  insertion into the list of entries that the contents of a directory are.
\<close>

section \<open>The inode cache\<close>

text \<open>At most one entry in use per inode.\<close>

definition icache_ok :: "inode list \<Rightarrow> bool" where
  "icache_ok ic \<longleftrightarrow>
     length ic = NINODE \<and> (\<forall>x\<in>set ic. 0 \<le> i_ref x) \<and>
     (\<forall>i<NINODE. \<forall>j<NINODE. i_ref (ic ! i) > 0 \<longrightarrow> i_ref (ic ! j) > 0 \<longrightarrow>
        i_dev (ic ! i) = i_dev (ic ! j) \<longrightarrow> i_inum (ic ! i) = i_inum (ic ! j) \<longrightarrow> i = j)"

definition caches :: "nat \<Rightarrow> nat \<Rightarrow> inode \<Rightarrow> bool" where
  "caches dev inum x \<longleftrightarrow> i_ref x > 0 \<and> i_dev x = dev \<and> i_inum x = inum"

lemma icache_okD:
  assumes "icache_ok ic"
  shows "length ic = NINODE" and "i < NINODE \<Longrightarrow> 0 \<le> i_ref (ic ! i)"
    and "i < NINODE \<Longrightarrow> j < NINODE \<Longrightarrow> caches d n (ic ! i) \<Longrightarrow> caches d n (ic ! j) \<Longrightarrow> i = j"
proof -
  show len: "length ic = NINODE" and "i < NINODE \<Longrightarrow> 0 \<le> i_ref (ic ! i)" using assms by (simp_all add: icache_ok_def)
  show "i < NINODE \<Longrightarrow> j < NINODE \<Longrightarrow> caches d n (ic ! i) \<Longrightarrow> caches d n (ic ! j) \<Longrightarrow> i = j"
    using assms by (simp add: icache_ok_def caches_def)
qed

lemma iget_hit:
  assumes "icache_ok (icache s)" and "i < NINODE" and "caches dev inum (icache s ! i)"
  shows "iget dev inum s = Ok i (s\<lparr>icache := (icache s)[i := (icache s ! i)\<lparr>i_ref := i_ref (icache s ! i) + 1\<rparr>]\<rparr>)"
proof -
  have "\<not> caches dev inum (icache s ! j)" if "j < i" for j
    using icache_okD(3) [OF assms(1,2) _ assms(3), of j] assms(2) that by auto
  then have "find (\<lambda>i. caches dev inum (icache s ! i)) [0..<NINODE] = Some i"
    using assms(2,3) by (simp add: find_upt_Some)
  then show ?thesis by (simp add: iget_def set_inode_def upd_inode_def caches_def)
qed

lemma iget_miss:
  assumes "icache_ok (icache s)" and "\<forall>j<NINODE. \<not> caches dev inum (icache s ! j)"
    and "i < NINODE" "i_ref (icache s ! i) = 0" "\<forall>j<i. i_ref (icache s ! j) \<noteq> 0"
  shows "iget dev inum s = Ok i (s\<lparr>icache := (icache s)[i := (icache s ! i)\<lparr>i_dev := dev, i_inum := inum, i_ref := 1, i_valid := False\<rparr>]\<rparr>)"
proof -
  have "find (\<lambda>i. i_ref (icache s ! i) > 0 \<and> i_dev (icache s ! i) = dev \<and> i_inum (icache s ! i) = inum) [0..<NINODE] = None"
    using assms(2) by (simp add: find_upt_None caches_def)
  moreover have "find (\<lambda>i. i_ref (icache s ! i) = 0) [0..<NINODE] = Some i"
    using assms(3-5) by (simp add: find_upt_Some)
  ultimately show ?thesis by (simp add: iget_def set_inode_def upd_inode_def)
qed

lemma icache_ok_upd:
  assumes ok: "icache_ok ic" and i: "i < NINODE" and y: "0 \<le> i_ref y"
    and u: "\<And>j. j < NINODE \<Longrightarrow> j \<noteq> i \<Longrightarrow> 0 < i_ref y \<Longrightarrow> \<not> caches (i_dev y) (i_inum y) (ic ! j)"
  shows "icache_ok (ic[i := y])"
proof -
  have "\<forall>x\<in>set (ic[i := y]). 0 \<le> i_ref x" using ok y set_update_subset_insert [of ic i y] by (auto simp: icache_ok_def)
  moreover have "j = k" if "j < NINODE" "k < NINODE" "caches d n (ic[i := y] ! j)" "caches d n (ic[i := y] ! k)" for j k d n
  proof -
    have "length ic = NINODE" by (rule icache_okD(1) [OF ok])
    then have at: "ic[i := y] ! l = (if l = i then y else ic ! l)" if "l < NINODE" for l using that by simp
    consider "j = i" "k = i" | "j = i" "k \<noteq> i" | "j \<noteq> i" "k = i" | "j \<noteq> i" "k \<noteq> i" by blast
    then show ?thesis
    proof cases
      case 2 then show ?thesis using that at u [of k] by (simp add: caches_def)
    next
      case 3 then show ?thesis using that at u [of j] by (simp add: caches_def)
    next
      case 4 then show ?thesis using that at icache_okD(3) [OF ok] by simp
    qed simp
  qed
  ultimately show ?thesis using icache_okD(1) [OF ok] unfolding icache_ok_def by (simp add: caches_def)
qed

lemma iget_spec:
  assumes ok: "icache_ok (icache s)"
    and room: "\<exists>i<NINODE. caches dev inum (icache s ! i) \<or> i_ref (icache s ! i) = 0"
  shows "\<exists>i y. iget dev inum s = Ok i (s\<lparr>icache := (icache s)[i := y]\<rparr>) \<and> i < NINODE \<and> caches dev inum y \<and>
     icache_ok ((icache s)[i := y]) \<and> i_ref y = i_ref (icache s ! i) + 1 \<and>
     (caches dev inum (icache s ! i) \<and> y = (icache s ! i)\<lparr>i_ref := i_ref (icache s ! i) + 1\<rparr> \<or>
      i_ref (icache s ! i) = 0 \<and> \<not> i_valid y \<and> i_lock y = i_lock (icache s ! i))"
proof (cases "\<exists>i<NINODE. caches dev inum (icache s ! i)")
  case True
  then obtain i where i: "i < NINODE" "caches dev inum (icache s ! i)" by blast
  let ?y = "(icache s ! i)\<lparr>i_ref := i_ref (icache s ! i) + 1\<rparr>"
  have y: "caches dev inum ?y" "i_dev ?y = dev" "i_inum ?y = inum" using i(2) by (simp_all add: caches_def)
  have "icache_ok ((icache s)[i := ?y])"
  proof (rule icache_ok_upd [OF ok i(1)])
    show "\<not> caches (i_dev ?y) (i_inum ?y) (icache s ! j)" if "j < NINODE" "j \<noteq> i" for j
      unfolding y using icache_okD(3) [OF ok i(1) that(1) i(2)] that(2) by auto
  qed (use i(2) in \<open>simp add: caches_def\<close>)
  then show ?thesis using iget_hit [OF ok i] i y(1) by (intro exI [of _ i] exI [of _ ?y]) simp
next
  case False
  then have none: "\<forall>j<NINODE. \<not> caches dev inum (icache s ! j)" by blast
  obtain k where k: "k < NINODE" "i_ref (icache s ! k) = 0" using none room by blast
  define i where "i = (LEAST i. i_ref (icache s ! i) = 0)"
  have i: "i_ref (icache s ! i) = 0" "i < NINODE" "\<forall>j<i. i_ref (icache s ! j) \<noteq> 0"
    unfolding i_def using k LeastI [of "\<lambda>i. i_ref (icache s ! i) = 0", OF k(2)] Least_le [of "\<lambda>i. i_ref (icache s ! i) = 0", OF k(2)]
    by (auto dest: not_less_Least)
  let ?y = "(icache s ! i)\<lparr>i_dev := dev, i_inum := inum, i_ref := 1, i_valid := False\<rparr>"
  have "icache_ok ((icache s)[i := ?y])"
    by (rule icache_ok_upd [OF ok i(2)]) (use none in simp_all)
  then show ?thesis
    using iget_miss [OF ok none i(2,1,3)] i(1,2) by (intro exI [of _ i] exI [of _ ?y]) (simp add: caches_def)
qed


section \<open>Directories\<close>

text \<open>A directory is a list of entries; \<open>dir_find name c\<close> is the first one in use with the name.\<close>

definition dir_entry :: "bytes \<Rightarrow> nat \<Rightarrow> bytes" where
  "dir_entry c k = get_bytes (k * DIRENT_SIZE) DIRENT_SIZE c"

definition dir_match :: "bytes \<Rightarrow> bytes \<Rightarrow> nat \<Rightarrow> bool" where
  "dir_match name c k \<longleftrightarrow> de_inum (dir_entry c k) \<noteq> 0 \<and> namecmp name (de_name (dir_entry c k)) = 0"

definition dir_find :: "bytes \<Rightarrow> bytes \<Rightarrow> nat option" where
  "dir_find name c = find (dir_match name c) [0..<length c div DIRENT_SIZE]"

definition dir_at :: "'a fs_state_scheme \<Rightarrow> (nat \<Rightarrow> bytes) \<Rightarrow> nat set \<Rightarrow> nat \<Rightarrow> inode \<Rightarrow> bool" where
  "dir_at s v L dp x \<longleftrightarrow> file_at s v L dp x \<and> file_full x v \<and> i_type x = T_DIR \<and> DIRENT_SIZE dvd i_size x"

lemma dir_atD:
  assumes "dir_at s v L dp x"
  shows "file_at s v L dp x" and "file_full x v" and "i_type x = T_DIR" and "DIRENT_SIZE dvd i_size x"
  using assms by (simp_all add: dir_at_def)

lemma length_contents [simp]: "length (contents x v) = i_size x"
  by (simp add: contents_def)

lemma dirent_offs_dvd: "DIRENT_SIZE dvd sz \<Longrightarrow> dirent_offs sz = map (\<lambda>k. k * DIRENT_SIZE) [0..<sz div DIRENT_SIZE]"
  by (auto simp: dirent_offs_def params elim!: dvdE)

lemma read_entry:
  assumes d: "dir_at s v L dp x" and L: "card L < NBUF" and k: "k < i_size x div DIRENT_SIZE"
  shows "\<exists>s'. readi dp LocalDst (of_nat (k * DIRENT_SIZE)) (of_nat DIRENT_SIZE) s = Ok (DIRENT_SIZE, dir_entry (contents x v) k) s' \<and>
     tstep {} s s' \<and> dir_at s' v L dp x \<and> length (dir_entry (contents x v) k) = DIRENT_SIZE"
proof -
  note D = dir_atD [OF d]
  have "Suc k * DIRENT_SIZE \<le> i_size x"
    using k by (metis Suc_leI div_times_less_eq_dividend mult_le_mono1 order_trans)
  then have kb: "k * DIRENT_SIZE + DIRENT_SIZE \<le> i_size x" by simp
  have mx: "i_size x \<le> MAXFILE * BSIZE" using D(2) by (simp add: file_full_def)
  have u: "unat (of_nat (k * DIRENT_SIZE) :: uint32) = k * DIRENT_SIZE" "unat (of_nat DIRENT_SIZE :: uint32) = DIRENT_SIZE"
    using kb mx by (intro unat_of_nat_small; simp add: params)+
  have len: "length (dir_entry (contents x v) k) = DIRENT_SIZE" using kb by (simp add: dir_entry_def)
  obtain s' where 1: "readi dp LocalDst (of_nat (k * DIRENT_SIZE)) (of_nat DIRENT_SIZE) s = Ok (DIRENT_SIZE, dir_entry (contents x v) k) s'"
    "tstep {} s s'" "txn s' v L {}"
    using readi_spec [OF D(1,2) L, of "of_nat (k * DIRENT_SIZE)" "of_nat DIRENT_SIZE"] kb mx len
    unfolding u dir_entry_def by (auto simp: params)
  then show ?thesis using file_at_tstep [OF D(1) 1(2,3)] D len by (auto simp: dir_at_def)
qed

lemma dirlookup_loop_spec:
  assumes "dir_at s v L dp x" and "card L < NBUF" and "\<forall>k\<in>set ks. k < i_size x div DIRENT_SIZE"
  shows "\<exists>s'. tstep {} s s' \<and> dir_at s' v L dp x \<and>
     dirlookup_loop dp name (map (\<lambda>k. k * DIRENT_SIZE) ks) s =
     (case find (dir_match name (contents x v)) ks of
        None \<Rightarrow> Ok None s'
      | Some k \<Rightarrow> kbind (iget ROOTDEV (de_inum (dir_entry (contents x v) k))) (\<lambda>ip. kret (Some (ip, k * DIRENT_SIZE))) s')"
  using assms
proof (induction ks arbitrary: s)
  case Nil
  then show ?case using tstep_refl [OF txnD(1) [OF file_atD(1) [OF dir_atD(1) [OF Nil(1)]]]] by auto
next
  case (Cons k ks)
  obtain s1 where 1: "readi dp LocalDst (of_nat (k * DIRENT_SIZE)) (of_nat DIRENT_SIZE) s = Ok (DIRENT_SIZE, dir_entry (contents x v) k) s1"
    "tstep {} s s1" "dir_at s1 v L dp x"
    using read_entry [OF Cons(2,3)] Cons(4) by auto
  show ?case
  proof (cases "dir_match name (contents x v) k")
    case True
    then show ?thesis
      using 1 file_atD(4,5) [OF dir_atD(1) [OF 1(3)]]
      by (intro exI [of _ s1]) (simp add: dir_match_def get_inode_def)
  next
    case False
    obtain s2 where "tstep {} s1 s2" "dir_at s2 v L dp x" "dirlookup_loop dp name (map (\<lambda>k. k * DIRENT_SIZE) ks) s1 =
     (case find (dir_match name (contents x v)) ks of
        None \<Rightarrow> Ok None s2
      | Some k \<Rightarrow> kbind (iget ROOTDEV (de_inum (dir_entry (contents x v) k))) (\<lambda>ip. kret (Some (ip, k * DIRENT_SIZE))) s2)"
      using Cons.IH [OF 1(3) Cons(3)] Cons(4) by auto
    moreover have "dirlookup_loop dp name (map (\<lambda>k. k * DIRENT_SIZE) (k # ks)) s = dirlookup_loop dp name (map (\<lambda>k. k * DIRENT_SIZE) ks) s1"
      using 1(1) False by (auto simp: dir_match_def)
    ultimately show ?thesis
      using False tstep_trans0 [OF 1(2)] by (intro exI [of _ s2]) simp
  qed
qed

lemma dirlookup_spec:
  assumes d: "dir_at s v L dp x" and L: "card L < NBUF"
  shows "\<exists>s'. tstep {} s s' \<and> dir_at s' v L dp x \<and>
     dirlookup dp name s =
     (case dir_find name (contents x v) of
        None \<Rightarrow> Ok None s'
      | Some k \<Rightarrow> kbind (iget ROOTDEV (de_inum (dir_entry (contents x v) k))) (\<lambda>ip. kret (Some (ip, k * DIRENT_SIZE))) s')"
  using dirlookup_loop_spec [OF d L, of "[0..<i_size x div DIRENT_SIZE]" name] dir_atD(3,4) [OF d] file_atD(4) [OF dir_atD(1) [OF d]]
  by (simp add: dirlookup_def get_inode_def dirent_offs_dvd dir_find_def)

text \<open>The entry that \<^verbatim>\<open>dirlink\<close> writes: the first free one, or a new one at the end.\<close>

definition free_slot :: "bytes \<Rightarrow> nat" where
  "free_slot c = (case find (\<lambda>k. de_inum (dir_entry c k) = 0) [0..<length c div DIRENT_SIZE] of
     None \<Rightarrow> length c div DIRENT_SIZE | Some k \<Rightarrow> k)"

lemma dirlink_loop_spec:
  assumes "dir_at s v L dp x" and "card L < NBUF" and "\<forall>k\<in>set ks. k < i_size x div DIRENT_SIZE"
  shows "\<exists>s'. tstep {} s s' \<and> dir_at s' v L dp x \<and>
     dirlink_loop dp (map (\<lambda>k. k * DIRENT_SIZE) ks) e s =
     Ok (case find (\<lambda>k. de_inum (dir_entry (contents x v) k) = 0) ks of None \<Rightarrow> e | Some k \<Rightarrow> k * DIRENT_SIZE) s'"
  using assms
proof (induction ks arbitrary: s)
  case Nil
  then show ?case using tstep_refl [OF txnD(1) [OF file_atD(1) [OF dir_atD(1) [OF Nil(1)]]]] by auto
next
  case (Cons k ks)
  obtain s1 where 1: "readi dp LocalDst (of_nat (k * DIRENT_SIZE)) (of_nat DIRENT_SIZE) s = Ok (DIRENT_SIZE, dir_entry (contents x v) k) s1"
    "tstep {} s s1" "dir_at s1 v L dp x"
    using read_entry [OF Cons(2,3)] Cons(4) by auto
  obtain s2 where "tstep {} s1 s2" "dir_at s2 v L dp x" "dirlink_loop dp (map (\<lambda>k. k * DIRENT_SIZE) ks) e s1 =
     Ok (case find (\<lambda>k. de_inum (dir_entry (contents x v) k) = 0) ks of None \<Rightarrow> e | Some k \<Rightarrow> k * DIRENT_SIZE) s2"
    using Cons.IH [OF 1(3) Cons(3)] Cons(4) by auto
  then show ?case
    using 1 tstep_trans0 [OF 1(2)]
    by (cases "de_inum (dir_entry (contents x v) k) = 0") (auto split: option.splits)
qed


lemma strncmp_strncpy: "strncmp p (strncpy p n) n = 0"
  by (induction n arbitrary: p) (simp_all add: at0_def split: list.splits)

lemma length_strncpy: "length (strncpy p n) = n"
  by (induction p n rule: strncpy.induct) simp_all

lemma dirent_fields:
  assumes "inum < 2 ^ 16"
  shows "length (dirent name inum) = DIRENT_SIZE" and "de_inum (dirent name inum) = inum" and "de_name (dirent name inum) = strncpy name DIRSIZ"
proof -
  have len: "length (put_bytes 2 (strncpy name DIRSIZ) (replicate DIRENT_SIZE 0)) = DIRENT_SIZE"
    by (simp add: length_strncpy params)
  then show "length (dirent name inum) = DIRENT_SIZE" by (simp add: dirent_def length_put16 params)
  show "de_inum (dirent name inum) = inum"
    using len assms by (simp add: de_inum_def dirent_def get16_put16 params unat_of_nat_small)
  show "de_name (dirent name inum) = strncpy name DIRSIZ"
    using len by (simp add: de_name_def dirent_def put16_def get_put_disjoint get_put_same length_strncpy params)
qed

lemma free_slot_facts:
  shows "free_slot c \<le> length c div DIRENT_SIZE" and "free_slot c < length c div DIRENT_SIZE \<Longrightarrow> de_inum (dir_entry c (free_slot c)) = 0"
proof -
  let ?f = "find (\<lambda>k. de_inum (dir_entry c k) = 0) [0..<length c div DIRENT_SIZE]"
  have "free_slot c \<le> length c div DIRENT_SIZE \<and> (free_slot c < length c div DIRENT_SIZE \<longrightarrow> de_inum (dir_entry c (free_slot c)) = 0)"
  proof (cases ?f)
    case None
    then show ?thesis by (simp add: free_slot_def)
  next
    case (Some k)
    then have "free_slot c = k" by (simp add: free_slot_def)
    then show ?thesis using Some by (auto simp: find_upt_Some)
  qed
  then show "free_slot c \<le> length c div DIRENT_SIZE" "free_slot c < length c div DIRENT_SIZE \<Longrightarrow> de_inum (dir_entry c (free_slot c)) = 0"
    by simp_all
qed

text \<open>The directory with the new entry.\<close>

definition dir_insert :: "bytes \<Rightarrow> nat \<Rightarrow> bytes \<Rightarrow> bytes" where
  "dir_insert name inum c = put_bytes (free_slot c * DIRENT_SIZE) (dirent name inum) c"

lemma dir_insert_entry:
  assumes c: "DIRENT_SIZE dvd length c" and i: "inum < 2 ^ 16"
  shows "free_slot c < length (dir_insert name inum c) div DIRENT_SIZE" and "DIRENT_SIZE dvd length (dir_insert name inum c)"
    and "k < length (dir_insert name inum c) div DIRENT_SIZE \<Longrightarrow>
      dir_entry (dir_insert name inum c) k = (if k = free_slot c then dirent name inum else dir_entry c k)"
    and "k < length (dir_insert name inum c) div DIRENT_SIZE \<Longrightarrow> k \<noteq> free_slot c \<Longrightarrow> k < length c div DIRENT_SIZE"
    and "length c div DIRENT_SIZE \<le> length (dir_insert name inum c) div DIRENT_SIZE"
proof -
  obtain n where n: "length c = n * DIRENT_SIZE" using c by (metis dvd_div_mult_self)
  let ?j = "free_slot c"
  have D: "0 < DIRENT_SIZE" by (simp add: params)
  have j: "?j \<le> n" using free_slot_facts(1) [of c] n D by simp
  have le: "length (dirent name inum) = DIRENT_SIZE" by (rule dirent_fields(1) [OF i])
  have jb: "?j * DIRENT_SIZE \<le> length c" using j n by simp
  have "Suc ?j * DIRENT_SIZE \<le> n * DIRENT_SIZE" if "?j < n" using that by (intro mult_le_mono1) simp
  then have len: "length (dir_insert name inum c) = (if ?j < n then n else Suc n) * DIRENT_SIZE"
    using jb j n le by (auto simp: dir_insert_def put_bytes_def)
  then have dv: "length (dir_insert name inum c) div DIRENT_SIZE = (if ?j < n then n else Suc n)" using D by simp
  show "?j < length (dir_insert name inum c) div DIRENT_SIZE" "DIRENT_SIZE dvd length (dir_insert name inum c)"
    "length c div DIRENT_SIZE \<le> length (dir_insert name inum c) div DIRENT_SIZE"
    using dv len j n D by auto
  show "k < length (dir_insert name inum c) div DIRENT_SIZE \<Longrightarrow> k \<noteq> ?j \<Longrightarrow> k < length c div DIRENT_SIZE"
    using dv j n D by (auto split: if_splits)
  assume k: "k < length (dir_insert name inum c) div DIRENT_SIZE"
  show "dir_entry (dir_insert name inum c) k = (if k = ?j then dirent name inum else dir_entry c k)"
  proof (cases "k = ?j")
    case True
    then show ?thesis using get_put_at [OF jb le [symmetric]] by (simp add: dir_entry_def dir_insert_def)
  next
    case False
    show ?thesis
    proof (cases "k < ?j")
      case True
      have "k * DIRENT_SIZE + DIRENT_SIZE \<le> ?j * DIRENT_SIZE" using mult_le_mono1 [OF Suc_leI [OF True], of DIRENT_SIZE] by simp
      then show ?thesis using get_put_before [OF _ jb, of "k * DIRENT_SIZE" DIRENT_SIZE "dirent name inum"] False
        by (simp add: dir_entry_def dir_insert_def)
    next
      case F: False
      then have "?j < k" using False by simp
      then have "?j * DIRENT_SIZE + length (dirent name inum) \<le> k * DIRENT_SIZE"
        using mult_le_mono1 [OF Suc_leI, of ?j k DIRENT_SIZE] le by simp
      then show ?thesis using get_put_after [OF _ jb, of "dirent name inum" "k * DIRENT_SIZE" DIRENT_SIZE] False
        by (simp add: dir_entry_def dir_insert_def)
    qed
  qed
qed

lemma dir_find_None: "dir_find nm c = None \<longleftrightarrow> (\<forall>k. \<not> (k < length c div DIRENT_SIZE \<and> dir_match nm c k))"
  unfolding dir_find_def find_upt_None by blast

lemma dir_find_Some:
  "dir_find nm c = Some k \<longleftrightarrow> (k < length c div DIRENT_SIZE \<and> dir_match nm c k) \<and> (\<forall>j<k. \<not> (j < length c div DIRENT_SIZE \<and> dir_match nm c j))"
  unfolding dir_find_def find_upt_Some by (meson less_trans)

text \<open>The name is found in the new directory; every other name is found where it was.\<close>

lemma dir_find_insert:
  assumes c: "DIRENT_SIZE dvd length c" and i: "0 < inum" "inum < 2 ^ 16" and no: "dir_find name c = None"
  shows "dir_find name (dir_insert name inum c) = Some (free_slot c)"
proof -
  let ?c = "dir_insert name inum c"
  note e = dir_insert_entry [OF c i(2), where name = name]
  have "dir_match name ?c (free_slot c)"
    using e(3) [OF e(1)] i dirent_fields [OF i(2)] by (simp add: dir_match_def namecmp_def strncmp_strncpy)
  moreover have "\<not> dir_match name ?c k" if k: "k < free_slot c" for k
  proof -
    have "k < length c div DIRENT_SIZE" "k < length ?c div DIRENT_SIZE" using k free_slot_facts(1) [of c] e(1) by linarith+
    then show ?thesis using no e(3) [of k] k by (simp add: dir_find_def find_upt_None dir_match_def)
  qed
  ultimately show ?thesis using e(1) by (simp add: dir_find_def find_upt_Some)
qed

lemma dir_find_insert_other:
  assumes c: "DIRENT_SIZE dvd length c" and i: "inum < 2 ^ 16" and ne: "namecmp nm (strncpy name DIRSIZ) \<noteq> 0"
  shows "dir_find nm (dir_insert name inum c) = dir_find nm c"
proof -
  let ?c = "dir_insert name inum c"
  note e = dir_insert_entry [OF c i, where name = name]
  have m: "k < length ?c div DIRENT_SIZE \<and> dir_match nm ?c k \<longleftrightarrow> k < length c div DIRENT_SIZE \<and> dir_match nm c k" for k
  proof (cases "k = free_slot c")
    case True
    then show ?thesis
      using e(3) [OF e(1)] ne dirent_fields [OF i] free_slot_facts(2) [of c] by (auto simp: dir_match_def)
  next
    case False
    then show ?thesis using e(3) [of k] e(4) [of k] e(5) by (auto simp: dir_match_def)
  qed
  have "dir_find nm ?c = None \<longleftrightarrow> dir_find nm c = None" unfolding dir_find_None m ..
  moreover have "dir_find nm ?c = Some k \<longleftrightarrow> dir_find nm c = Some k" for k unfolding dir_find_Some m ..
  ultimately show ?thesis by (cases "dir_find nm c") simp_all
qed


lemma span_entry: "span_blocks (k * DIRENT_SIZE) DIRENT_SIZE = 1"
proof -
  have "(k * 16 + 15) div 1024 = (k * 16 + 15) div 16 div 64" "k * 16 div 1024 = k * 16 div 16 div 64" for k :: nat
    by (simp_all add: div_mult2_eq [symmetric])
  then have "(k * 16 + 15) div 1024 = k * 16 div 1024" for k :: nat by simp
  then show ?thesis by (simp add: span_blocks_def params)
qed

lemma dirlink_spec:
  assumes d: "dir_at s v L dp x" and no: "dir_find name (contents x v) = None" and i: "inum < 2 ^ 16"
    and inum: "i_inum x < sb_ninodes (sb s)" and sz: "i_size x + DIRENT_SIZE \<le> MAXFILE * BSIZE"
    and L: "card L + 7 \<le> log_cap (log s)" and free: "2 \<le> card (free_blocks (sb s) v)" and cur: "cur s < length (procs s)"
  shows "\<exists>s' v' L' x'. dirlink dp name inum s = Ok 0 s' \<and> fstep {} s s' \<and> icache s' = (icache s)[dp := x'] \<and>
     dir_at s' v' L' dp x' \<and> contents x' v' = dir_insert name inum (contents x v) \<and>
     (\<exists>n as. x' = x\<lparr>i_size := n, i_addrs := as\<rparr>) \<and> card L' \<le> card L + 7"
proof -
  let ?c = "contents x v" and ?n = "i_size x div DIRENT_SIZE"
  have LN: "card L < NBUF" using L log_cap_NBUF [of "log s"] by simp
  obtain s1 where 1: "tstep {} s s1" "dir_at s1 v L dp x" "dirlookup dp name s = Ok None s1"
    using dirlookup_spec [OF d LN, of name] no by auto
  obtain s2 where 2: "tstep {} s1 s2" "dir_at s2 v L dp x"
    "dirlink_loop dp (dirent_offs (i_size x)) (length (dirent_offs (i_size x)) * DIRENT_SIZE) s1 = Ok (free_slot ?c * DIRENT_SIZE) s2"
    using dirlink_loop_spec [OF 1(2) LN, of "[0..<?n]" "?n * DIRENT_SIZE"] dir_atD(4) [OF d]
    by (auto simp: dirent_offs_dvd free_slot_def split: option.splits)
  note D = dir_atD [OF 2(2)]
  have st: "fstep {} s s2" using tstep_fstep [OF tstep_trans0 [OF 1(1) 2(1)]] .
  have e: "sb s2 = sb s" "log_cap (log s2) = log_cap (log s)" "icache s2 = icache s"
    using tstep_sb [OF tstep_trans0 [OF 1(1) 2(1)]] fstep_log [OF st] by simp_all
  have cur2: "cur s2 < length (procs s2)" using cur fstep_proc(1) [OF st] woken_length [OF fstep_proc(2) [OF st]] by simp
  have fs: "free_slot ?c * DIRENT_SIZE \<le> i_size x"
    using free_slot_facts(1) [of ?c] by (metis div_times_less_eq_dividend length_contents mult_le_mono1 order_trans)
  define off where "off = (of_nat (free_slot ?c * DIRENT_SIZE) :: uint32)"
  have off: "unat off = free_slot ?c * DIRENT_SIZE"
    unfolding off_def using fs sz by (intro unat_of_nat_small) (simp add: params)
  have len: "length (dirent name inum) = DIRENT_SIZE" by (rule dirent_fields(1) [OF i])
  then have ne: "dirent name inum \<noteq> []" by (auto simp: params)
  have o: "unat off \<le> i_size x" "unat off + length (dirent name inum) \<le> MAXFILE * BSIZE" using off fs sz len by simp_all
  have sp: "span_blocks (unat off) (length (dirent name inum)) = 1" unfolding off len by (rule span_entry)
  have r: "i_inum x < sb_ninodes (sb s2)" "card L + 6 * 1 + 1 \<le> log_cap (log s2)" "2 * 1 \<le> card (free_blocks (sb s2) v)"
    using inum L free e by simp_all
  note w = writei_spec [OF D(1,2) o ne supplies_local, where y = x, unfolded sp, OF r cur2, unfolded off len]
  obtain s3 v3 L3 x3 where 3: "writei dp (LocalSrc (dirent name inum)) off (of_nat DIRENT_SIZE) s2 = Ok (int DIRENT_SIZE) s3"
    "fstep {} s2 s3" "icache s3 = (icache s2)[dp := x3]" "file_at s3 v3 L3 dp x3" "file_full x3 v3"
    "contents x3 v3 = dir_insert name inum ?c" "\<exists>n as. x3 = x\<lparr>i_size := n, i_addrs := as\<rparr>" "card L3 \<le> card L + 6 * 1 + 1"
    unfolding dir_insert_def using w by blast
  have "DIRENT_SIZE dvd length (contents x3 v3)" using dir_insert_entry(2) [of ?c inum name] D(4) i 3(6) by simp
  then have "dir_at s3 v3 L3 dp x3" using 3(4,5,7) D(3) by (auto simp: dir_at_def)
  moreover have "dirlink dp name inum s = Ok 0 s3"
    using 1(3) 2(3) 3(1) file_atD(4) [OF dir_atD(1) [OF 1(2)]] by (simp add: dirlink_def get_inode_def off_def)
  ultimately show ?thesis
    using 3 fstep_trans0 [OF st 3(2)] e(3) by (intro exI [of _ s3] exI [of _ v3] exI [of _ L3] exI [of _ x3]) simp
qed

end
