(* ===== verification/Dir_Correct.thy ===== *)
theory Dir_Correct
  imports Dir_Spec Machine_Fs
begin

text \<open>
  The correctness of the inode cache and of directory entries of \<^verbatim>\<open>src/kernel/fs.c\<close>.
\<close>

text \<open>C9. \<^verbatim>\<open>iget\<close> returns an entry for the inode with one more reference; at most one entry in use stands for
  an inode, and the other entries are unchanged.\<close>

theorem iget_keeps_cache:
  assumes "icache_ok (icache s)" and "\<exists>i<NINODE. caches dev inum (icache s ! i) \<or> i_ref (icache s ! i) = 0"
  shows "\<exists>i s'. iget dev inum s = Ok i s' \<and> i < NINODE \<and> caches dev inum (icache s' ! i) \<and> icache_ok (icache s') \<and>
     i_ref (icache s' ! i) = i_ref (icache s ! i) + 1 \<and> (\<forall>j<NINODE. j \<noteq> i \<longrightarrow> icache s' ! j = icache s ! j)"
proof -
  obtain i y where "iget dev inum s = Ok i (s\<lparr>icache := (icache s)[i := y]\<rparr>)" "i < NINODE" "caches dev inum y"
    "icache_ok ((icache s)[i := y])" "i_ref y = i_ref (icache s ! i) + 1" using iget_spec [OF assms] by blast
  then show ?thesis using icache_okD(1) [OF assms(1)] by (intro exI [of _ i] exI [of _ "s\<lparr>icache := (icache s)[i := y]\<rparr>"]) simp
qed

text \<open>A directory in an inode cache whose other entries are free.\<close>

definition sample_dir :: inode where
  "sample_dir = sample_inode\<lparr>i_type := T_DIR\<rparr>"

definition dir_fs :: fs_state where
  "dir_fs = sample_fs\<lparr>icache := sample_dir # replicate (NINODE - 1) (sample_inode\<lparr>i_ref := 0\<rparr>)\<rparr>"

lemma dir_fs_simps [simp]:
  "log dir_fs = open_log" "sb dir_fs = sample_sb" "cur dir_fs = 0" "length (procs dir_fs) = 1"
  "icache dir_fs = sample_dir # replicate (NINODE - 1) (sample_inode\<lparr>i_ref := 0\<rparr>)"
  by (simp_all add: dir_fs_def)

lemma sample_dir_simps:
  "indirect sample_dir = 0" "k < MAXFILE \<Longrightarrow> blk sample_dir v k = 0" "i_addrs sample_dir = i_addrs sample_inode"
  "i_dev sample_dir = ROOTDEV" "i_size sample_dir = 0" "i_inum sample_dir = 5" "i_type sample_dir = T_DIR" "contents sample_dir v = []"
  by (simp_all add: sample_dir_def sample_inode_def blk_def indirect_def contents_def del: replicate_Suc)

lemma dir_fs_ok: "icache_ok (icache dir_fs)"
  by (auto simp: icache_ok_def nth_Cons' sample_dir_def sample_inode_def NINODE_def)

lemma dir_fs_at: "dir_at dir_fs sample_image {} 0 sample_dir"
proof -
  have "txn dir_fs sample_image {} {}" unfolding dir_fs_def using sample_fs_txn by simp
  then show ?thesis
    using sample_layout by (simp add: dir_at_def file_at_def file_wf_def file_full_def sample_dir_simps sample_inode_simps)
qed

theorem iget_keeps_cache_witness:
  "\<exists>i s'. iget ROOTDEV 9 dir_fs = Ok i s' \<and> icache_ok (icache s')"
proof -
  have "1 < NINODE \<and> i_ref (icache dir_fs ! 1) = 0" by (simp add: NINODE_def)
  then show ?thesis using iget_keeps_cache [OF dir_fs_ok, of ROOTDEV 9] by blast
qed

text \<open>C4. A name that \<^verbatim>\<open>dirlink\<close> entered is found by \<^verbatim>\<open>dirlookup\<close>, with the inode it was linked to; the other names of
  the directory are found where they were before.\<close>

theorem dirlookup_after_dirlink:
  assumes d: "dir_at s v L dp x" and no: "dir_find name (contents x v) = None" and i: "0 < inum" "inum < 2 ^ 16"
    and inum: "i_inum x < sb_ninodes (sb s)" and sz: "i_size x + DIRENT_SIZE \<le> MAXFILE * BSIZE"
    and L: "card L + 7 \<le> log_cap (log s)" and free: "2 \<le> card (free_blocks (sb s) v)" and cur: "cur s < length (procs s)"
    and ok: "icache_ok (icache s)" and room: "\<exists>j<NINODE. j \<noteq> dp \<and> i_ref (icache s ! j) = 0"
  shows "\<exists>s' v' x' ip off s''. dirlink dp name inum s = Ok 0 s' \<and> dirlookup dp name s' = Ok (Some (ip, off)) s'' \<and>
     caches ROOTDEV inum (icache s'' ! ip) \<and> x' = icache s' ! dp \<and> v' = c_view (acache s') \<and>
     (\<forall>nm. namecmp nm (strncpy name DIRSIZ) \<noteq> 0 \<longrightarrow> dir_find nm (contents x' v') = dir_find nm (contents x v))"
proof -
  obtain s1 v1 L1 x1 where 1: "dirlink dp name inum s = Ok 0 s1" "fstep {} s s1" "icache s1 = (icache s)[dp := x1]"
     "dir_at s1 v1 L1 dp x1" "contents x1 v1 = dir_insert name inum (contents x v)"
     "\<exists>n as. x1 = x\<lparr>i_size := n, i_addrs := as\<rparr>" "card L1 \<le> card L + 7"
    using dirlink_spec [OF d no i(2) inum sz L free cur] by blast
  have dv: "DIRENT_SIZE dvd length (contents x v)" using dir_atD(4) [OF d] by simp
  note F = file_atD [OF dir_atD(1) [OF d]]
  have f: "dir_find name (contents x1 v1) = Some (free_slot (contents x v))"
    unfolding 1(5) by (rule dir_find_insert [OF dv i no])
  have "de_inum (dir_entry (contents x1 v1) (free_slot (contents x v))) = inum"
    unfolding 1(5) using dir_insert_entry(1,3) [OF dv i(2), where name = name] dirent_fields(2) [OF i(2)] by simp
  moreover have "card L1 < NBUF" using 1(7) L log_cap_NBUF [of "log s"] by simp
  ultimately obtain s2 where 2: "tstep {} s1 s2" "dirlookup dp name s1 =
      kbind (iget ROOTDEV inum) (\<lambda>ip. kret (Some (ip, free_slot (contents x v) * DIRENT_SIZE))) s2"
    using dirlookup_spec [OF 1(4), of name] f by auto
  have ic: "icache s2 = (icache s)[dp := x1]" using tstep_sb [OF 2(1)] 1(3) by simp
  have dp: "dp < NINODE" using F(3) icache_okD(1) [OF ok] by simp
  have "icache_ok (icache s2)"
    unfolding ic
  proof (rule icache_ok_upd [OF ok dp])
    show "0 \<le> i_ref x1" using 1(6) icache_okD(2) [OF ok dp] F(4) by auto
    show "\<not> caches (i_dev x1) (i_inum x1) (icache s ! j)" if "j < NINODE" "j \<noteq> dp" "0 < i_ref x1" for j
      using icache_okD(3) [OF ok that(1) dp, of "i_dev x" "i_inum x"] that 1(6) F(4) by (auto simp: caches_def)
  qed
  moreover have "\<exists>j<NINODE. caches ROOTDEV inum (icache s2 ! j) \<or> i_ref (icache s2 ! j) = 0"
    using room unfolding ic by (metis nth_list_update_neq)
  ultimately obtain ip y where 3: "iget ROOTDEV inum s2 = Ok ip (s2\<lparr>icache := (icache s2)[ip := y]\<rparr>)" "ip < NINODE" "caches ROOTDEV inum y"
    using iget_spec by blast
  have "ip < length (icache s2)" using 3(2) ic icache_okD(1) [OF ok] by simp
  then have "caches ROOTDEV inum (icache (s2\<lparr>icache := (icache s2)[ip := y]\<rparr>) ! ip)" using 3(3) by simp
  moreover have "dirlookup dp name s1 = Ok (Some (ip, free_slot (contents x v) * DIRENT_SIZE)) (s2\<lparr>icache := (icache s2)[ip := y]\<rparr>)"
    using 2(2) 3(1) by simp
  moreover have "icache s1 ! dp = x1" "c_view (acache s1) = v1"
    using file_atD(4) [OF dir_atD(1) [OF 1(4)]] txnD(4) [OF file_atD(1) [OF dir_atD(1) [OF 1(4)]]] by simp_all
  ultimately show ?thesis
    using 1(1,5) dir_find_insert_other [OF dv i(2)] by (metis (no_types, lifting))
qed

theorem dirlookup_after_dirlink_witness:
  "\<exists>s' ip off s''. dirlink 0 [97] 9 dir_fs = Ok 0 s' \<and> dirlookup 0 [97] s' = Ok (Some (ip, off)) s'' \<and>
     caches ROOTDEV 9 (icache s'' ! ip)"
proof -
  have no: "dir_find [97] (contents sample_dir sample_image) = None" by (simp add: sample_dir_simps dir_find_def)
  have "1 < NINODE \<and> 1 \<noteq> (0 :: nat) \<and> i_ref (icache dir_fs ! 1) = 0" by (simp add: NINODE_def)
  then have room: "\<exists>j<NINODE. j \<noteq> 0 \<and> i_ref (icache dir_fs ! j) = 0" by blast
  show ?thesis
    using dirlookup_after_dirlink [OF dir_fs_at no _ _ _ _ _ _ _ dir_fs_ok room, of 9]
    by (auto simp: sample_dir_simps log_cap_open_log sample_free params)
qed

end
