(* ===== verification/Path.thy ===== *)
theory Path
  imports Fs
begin

text \<open>
  The elements of a path: what the calls of \<^verbatim>\<open>skipelem\<close> in \<^verbatim>\<open>namex\<close> of \<^verbatim>\<open>src/kernel/fs.c\<close> deliver one after the other.
\<close>

function path_elems :: "bytes \<Rightarrow> bytes list" where
  "path_elems path = (case skipelem path of None \<Rightarrow> [] | Some (path', name) \<Rightarrow> name # path_elems path')"
  by pat_completeness auto
termination
  by (relation "measure length") (auto dest: skipelem_shorter)

declare path_elems.simps [simp del]

text \<open>What \<^verbatim>\<open>skipelem\<close> stores of an element.\<close>

definition elem_name :: "bytes \<Rightarrow> bytes" where
  "elem_name e = (if length e \<ge> DIRSIZ then take DIRSIZ e else e @ [0])"

definition is_elem :: "bytes \<Rightarrow> bool" where
  "is_elem e \<longleftrightarrow> e \<noteq> [] \<and> list_all path_char e"

text \<open>A path: slashes, elements that are each followed by one or more slashes, at most one element without a slash after it, and the NUL.\<close>

definition path_text :: "nat \<Rightarrow> (bytes \<times> nat) list \<Rightarrow> bytes \<Rightarrow> bytes \<Rightarrow> bytes" where
  "path_text k es l junk = replicate k slash @ concat (map (\<lambda>(e, n). e @ replicate (Suc n) slash) es) @ l @ 0 # junk"

lemma dropWhile_slashes: "dropWhile (\<lambda>c. c = slash) (replicate k slash @ xs) = dropWhile (\<lambda>c. c = slash) xs"
  by (induction k) simp_all

lemma elem_split:
  assumes "list_all path_char e" and "\<not> path_char x"
  shows "takeWhile path_char (e @ x # xs) = e" and "dropWhile path_char (e @ x # xs) = x # xs"
  using assms by (induction e) auto

lemma skipelem_elem:
  assumes "is_elem e" and "x = slash \<or> x = 0"
  shows "skipelem (replicate k slash @ e @ x # xs) = Some (dropWhile (\<lambda>c. c = slash) (x # xs), elem_name e)"
proof -
  obtain c cs where e: "e = c # cs" "path_char c" "list_all path_char e" using assms(1) by (cases e) (auto simp: is_elem_def)
  have "dropWhile (\<lambda>c. c = slash) (replicate k slash @ e @ x # xs) = e @ x # xs"
    using e by (simp add: dropWhile_slashes path_char_def)
  moreover have "at0 (e @ x # xs) \<noteq> 0" using e by (simp add: at0_def path_char_def)
  moreover have "\<not> path_char x" using assms(2) by (auto simp: path_char_def)
  ultimately show ?thesis using elem_split [OF e(3), of x xs] by (simp add: skipelem_def elem_name_def Let_def)
qed

lemma skipelem_end: "skipelem (replicate k slash @ 0 # xs) = None"
proof -
  have "dropWhile (\<lambda>c. c = slash) (replicate k slash @ 0 # xs) = 0 # xs" unfolding dropWhile_slashes by (simp add: slash_def)
  then show ?thesis by (simp add: skipelem_def at0_def)
qed

lemma path_elems_slashes: "path_elems (dropWhile (\<lambda>c. c = slash) xs) = path_elems xs"
proof -
  have "skipelem (dropWhile (\<lambda>c. c = slash) xs) = skipelem xs" by (simp add: skipelem_def)
  then show ?thesis by (simp add: path_elems.simps)
qed

text \<open>C34. Path lookup sees the elements of a path in order, whatever the number of slashes before, between and after them: the calls of \<^verbatim>\<open>skipelem\<close>
  deliver each element once, cut to \<open>DIRSIZ\<close> bytes or with a NUL after it, and then report the end of the path.\<close>

theorem path_elements:
  assumes "list_all (\<lambda>(e, n). is_elem e) es" and "l = [] \<or> is_elem l"
  shows "path_elems (path_text k es l junk) = map (elem_name \<circ> fst) es @ (if l = [] then [] else [elem_name l])"
  using assms(1)
proof (induction es arbitrary: k)
  case Nil
  show ?case
  proof (cases "l = []")
    case True
    then show ?thesis using skipelem_end [of k junk] by (simp add: path_text_def path_elems.simps)
  next
    case False
    then have "skipelem (path_text k [] l junk) = Some (0 # junk, elem_name l)"
      using skipelem_elem [of l 0 k junk] assms(2) by (simp add: path_text_def slash_def)
    then show ?thesis using False skipelem_end [of 0 junk] by (simp add: path_elems.simps [of "path_text k [] l junk"] path_elems.simps [of "0 # junk"])
  qed
next
  case (Cons en es)
  obtain e n where en: "en = (e, n)" "is_elem e" using Cons.prems by (cases en) auto
  have "path_text k (en # es) l junk = replicate k slash @ e @ slash # path_text n es l junk"
    by (simp add: path_text_def en)
  then have s: "skipelem (path_text k (en # es) l junk) = Some (dropWhile (\<lambda>c. c = slash) (slash # path_text n es l junk), elem_name e)"
    using skipelem_elem [OF en(2)] by simp
  have "slash # path_text n es l junk = path_text (Suc n) es l junk" by (simp add: path_text_def)
  then have "path_elems (path_text k (en # es) l junk) = elem_name e # path_elems (path_text (Suc n) es l junk)"
    using s path_elems_slashes by (simp add: path_elems.simps [of "path_text k (en # es) l junk"])
  then show ?case using Cons.IH [of "Suc n"] Cons.prems by (simp add: en)
qed

theorem path_elements_witness:
  "path_elems ([47, 47, 97, 47, 98, 98, 47, 47] @ [99, 0, 7]) = [[97, 0], [98, 98, 0], [99, 0]]"
proof -
  have r: "replicate 2 (47 :: uchar) = [47, 47]" by code_simp
  have "path_text 2 [([97], 0), ([98, 98], 1)] [99] [7] = [47, 47, 97, 47, 98, 98, 47, 47] @ [99, 0, 7]"
    by (simp add: path_text_def slash_def r)
  moreover have "is_elem [97]" "is_elem [98, 98]" "is_elem [99]" by (simp_all add: is_elem_def path_char_def slash_def)
  ultimately show ?thesis
    using path_elements [of "[([97], 0), ([98, 98], 1)]" "[99]" 2 "[7]"] by (simp add: elem_name_def DIRSIZ_def)
qed

end
