(* ===== verification/Slots.thy ===== *)
theory Slots
  imports Kmonad
begin

text \<open>
  The contract of an allocator of slots, which the page allocator meets. A slot that is handed out
  is not handed out again before it is released, and none is lost.
\<close>

text \<open>A client takes slots and releases ones it holds, by their position in the list it keeps.\<close>

datatype slot_op = Take_slot | Release_slot nat

fun slot_run :: "('s, 'r) kmon \<Rightarrow> ('r \<Rightarrow> 'x option) \<Rightarrow> ('x \<Rightarrow> ('s, unit) kmon) \<Rightarrow> slot_op list \<Rightarrow> 'x list \<Rightarrow> ('s, 'x list) kmon" where
  "slot_run alloc slot release [] held = kret held"
| "slot_run alloc slot release (Take_slot # ops) held =
     kbind alloc (\<lambda>r. slot_run alloc slot release ops (case slot r of None \<Rightarrow> held | Some x \<Rightarrow> x # held))"
| "slot_run alloc slot release (Release_slot i # ops) held =
     (if i < length held
      then kseq (release (held ! i)) (slot_run alloc slot release ops (take i held @ drop (Suc i) held))
      else slot_run alloc slot release ops held)"

locale slot_allocator =
  fixes avail :: "'s \<Rightarrow> 'x set \<Rightarrow> bool"
    and valid :: "'x \<Rightarrow> bool"
    and alloc :: "('s, 'r) kmon"
    and slot :: "'r \<Rightarrow> 'x option"
    and release :: "'x \<Rightarrow> ('s, unit) kmon"
  assumes alloc_one: "avail s F \<Longrightarrow> F \<noteq> {} \<Longrightarrow>
      \<exists>r x s'. alloc s = Ok r s' \<and> slot r = Some x \<and> x \<in> F \<and> valid x \<and> avail s' (F - {x})"
    and alloc_none: "avail s {} \<Longrightarrow> \<exists>r s'. alloc s = Ok r s' \<and> slot r = None \<and> avail s' {}"
    and release_one: "avail s F \<Longrightarrow> valid x \<Longrightarrow> x \<notin> F \<Longrightarrow> \<exists>s'. release x s = Ok () s' \<and> avail s' (insert x F)"
begin

lemma run_partition:
  assumes "avail s F" and "distinct held" and "set held \<inter> F = {}" and "\<forall>x \<in> set held. valid x"
  shows "\<exists>held' s' F'. slot_run alloc slot release ops held s = Ok held' s' \<and> avail s' F' \<and> distinct held' \<and>
     set held' \<inter> F' = {} \<and> set held' \<union> F' = set held \<union> F"
  using assms
proof (induction ops arbitrary: s F held)
  case (Cons op ops)
  show ?case
  proof (cases op)
    case Take_slot
    show ?thesis
    proof (cases "F = {}")
      case True
      then obtain r s' where "alloc s = Ok r s'" "slot r = None" "avail s' {}" using alloc_none Cons.prems(1) by blast
      then show ?thesis using Cons.IH [of s' "{}" held] Cons.prems True Take_slot by simp
    next
      case False
      obtain r x s' where 1: "alloc s = Ok r s'" "slot r = Some x" "x \<in> F" "valid x" "avail s' (F - {x})"
        using alloc_one [OF Cons.prems(1) False] by blast
      have "distinct (x # held)" "set (x # held) \<inter> (F - {x}) = {}" "\<forall>x \<in> set (x # held). valid x"
        "set (x # held) \<union> (F - {x}) = set held \<union> F" using 1 Cons.prems by auto
      then show ?thesis using Cons.IH [OF 1(5), of "x # held"] 1 Take_slot by simp
    qed
  next
    case (Release_slot i)
    show ?thesis
    proof (cases "i < length held")
      case True
      let ?h = "take i held @ drop (Suc i) held" and ?x = "held ! i"
      have h: "held = take i held @ ?x # drop (Suc i) held" by (rule id_take_nth_drop [OF True])
      have "distinct (take i held @ ?x # drop (Suc i) held)" using Cons.prems(2) h by simp
      then have d: "distinct ?h" "?x \<notin> set ?h" by auto
      have "set held = set (take i held @ ?x # drop (Suc i) held)" using h by simp
      then have sh: "set held = insert ?x (set ?h)" by simp
      have "valid ?x" "?x \<notin> F" using Cons.prems(3,4) sh by auto
      then obtain s' where "release ?x s = Ok () s'" "avail s' (insert ?x F)" using release_one [OF Cons.prems(1)] by blast
      moreover have "set ?h \<inter> insert ?x F = {}" "\<forall>x \<in> set ?h. valid x" "set ?h \<union> insert ?x F = set held \<union> F"
        using d sh Cons.prems by auto
      ultimately show ?thesis using Cons.IH [of s' "insert ?x F" ?h] d(1) True Release_slot by simp
    next
      case False
      then show ?thesis using Cons Release_slot by simp
    qed
  qed
qed auto

end

end
