(* ===== verification/Kalloc_Spec.thy ===== *)
theory Kalloc_Spec
  imports Vm_Spec Slots
begin

text \<open>
  The free list of \<^verbatim>\<open>src/kernel/kalloc.c\<close> as a list of pages, and the page allocator as an instance of the
  contract of \<^verbatim>\<open>Slots\<close>.
\<close>

unbundle bit_operations_syntax

section \<open>Pages\<close>

definition in_page :: "uint64 \<Rightarrow> uint64 \<Rightarrow> bool" where
  "in_page p x \<longleftrightarrow> unat (x - p) < PGSIZE"

lemma unat_mod_page: "p mod 4096 = 0 \<Longrightarrow> unat (p :: uint64) mod 4096 = 0"
  using unat_mod [of p 4096] by simp

lemma in_page_iff:
  assumes "p mod 4096 = 0"
  shows "in_page p x \<longleftrightarrow> unat x div 4096 = unat p div 4096"
proof -
  have "unat p mod 4096 = 0" by (rule unat_mod_page [OF assms])
  then obtain q where q: "unat p = 4096 * q" by (metis dvdE mod_0_imp_dvd)
  have p: "unat p < 18446744073709551616" using unsigned_less [of p, where ?'a = nat] by simp
  show ?thesis
  proof (cases "unat p \<le> unat x")
    case True
    then have "in_page p x \<longleftrightarrow> unat x < 4096 * Suc q" using q by (auto simp: in_page_def PGSIZE_def unat_sub_if')
    also have "\<dots> \<longleftrightarrow> unat x div 4096 = q" using True q by (auto intro!: div_nat_eqI)
    finally show ?thesis using q by simp
  next
    case False
    then have "\<not> in_page p x" using p q by (auto simp: in_page_def PGSIZE_def unat_sub_if')
    moreover have "unat x div 4096 < q" using False q by (simp add: div_less_iff_less_mult)
    ultimately show ?thesis using q by simp
  qed
qed

definition is_page :: "uint64 \<Rightarrow> uint64 \<Rightarrow> bool" where
  "is_page e p \<longleftrightarrow> p mod 4096 = 0 \<and> e \<le> p \<and> p < PHYSTOP \<and> p \<noteq> 0"

lemma in_page_unique:
  assumes "in_page p x" and "in_page q x" and "p mod 4096 = 0" and "q mod 4096 = 0"
  shows "p = q"
proof -
  have m: "unat p mod 4096 = 0" "unat q mod 4096 = 0" using assms(3,4) by (simp_all add: unat_mod_page)
  have "unat p div 4096 = unat q div 4096" using assms by (simp add: in_page_iff)
  then have "unat p = unat q" using m by (metis div_mult_mod_eq)
  then show ?thesis by (rule unat_eqI)
qed

lemma ld64_frame: "(\<And>x. in_page p x \<Longrightarrow> m' x = m x) \<Longrightarrow> ld64 p m' = ld64 p m"
  unfolding ld64_def load_bytes_def
  by (rule arg_cong [where f = le_word]) (auto simp: in_page_def PGSIZE_def unat_of_nat_small)

section \<open>The free list\<close>

fun free_list :: "(uint64 \<Rightarrow> uchar) \<Rightarrow> uint64 \<Rightarrow> uint64 list \<Rightarrow> bool" where
  "free_list m r [] \<longleftrightarrow> r = 0"
| "free_list m r (p # ps) \<longleftrightarrow> r = p \<and> free_list m (ld64 p m) ps"

definition kmem_ok :: "uint64 \<Rightarrow> 'a kmem_state_scheme \<Rightarrow> uint64 list \<Rightarrow> bool" where
  "kmem_ok e s ps \<longleftrightarrow> kend s = e \<and> free_list (mem s) (freelist s) ps \<and> distinct ps \<and> (\<forall>p \<in> set ps. is_page e p)"

lemma free_list_frame:
  assumes "\<And>p x. p \<in> set ps \<Longrightarrow> in_page p x \<Longrightarrow> m' x = m x"
  shows "free_list m' r ps = free_list m r ps"
  using assms
proof (induction ps arbitrary: r)
  case (Cons p ps)
  have "ld64 p m' = ld64 p m" by (rule ld64_frame) (use Cons.prems in auto)
  moreover have "free_list m' r ps = free_list m r ps" for r by (rule Cons.IH) (use Cons.prems in auto)
  ultimately show ?case by simp
qed simp

lemma kfree_spec:
  assumes "kmem_ok e s ps" and "is_page e p" and "p \<notin> set ps"
  shows "\<exists>m. kfree p s = Ok () (s\<lparr>mem := m, freelist := p\<rparr>) \<and> kmem_ok e (s\<lparr>mem := m, freelist := p\<rparr>) (p # ps) \<and>
     (\<forall>x. \<not> in_page p x \<longrightarrow> m x = mem s x)"
proof -
  let ?m = "st64 p (freelist s) (memset p 1 PGSIZE (mem s))"
  have f: "?m x = mem s x" if "\<not> in_page p x" for x
    using that by (simp add: st64_def store_bytes_def memset_eq in_page_def PGSIZE_def)
  have "free_list ?m (freelist s) ps"
    using assms in_page_unique [of _ _ p] f
    by (subst free_list_frame [of _ _ "mem s"]) (auto simp: kmem_ok_def is_page_def)
  then have "kmem_ok e (s\<lparr>mem := ?m, freelist := p\<rparr>) (p # ps)" using assms by (simp add: kmem_ok_def)
  moreover have "kfree p s = Ok () (s\<lparr>mem := ?m, freelist := p\<rparr>)"
    using assms by (simp add: kfree_def is_page_def kmem_ok_def set_mem_def not_less not_le)
  ultimately show ?thesis using f by blast
qed

lemma kalloc_spec:
  assumes "kmem_ok e s (p # ps)"
  shows "\<exists>m. kalloc s = Ok p (s\<lparr>mem := m, freelist := ld64 p (mem s)\<rparr>) \<and>
     kmem_ok e (s\<lparr>mem := m, freelist := ld64 p (mem s)\<rparr>) ps \<and> p \<noteq> 0 \<and>
     (\<forall>x. m x = (if in_page p x then 5 else mem s x))"
proof -
  let ?m = "memset p 5 PGSIZE (mem s)"
  have f: "?m x = (if in_page p x then 5 else mem s x)" for x
    by (simp add: memset_eq in_page_def PGSIZE_def)
  have k: "freelist s = p" "p \<noteq> 0" using assms by (auto simp: kmem_ok_def is_page_def)
  have "free_list ?m (ld64 p (mem s)) ps"
    using assms in_page_unique [of _ _ p] f
    by (subst free_list_frame [of _ _ "mem s"]) (auto simp: kmem_ok_def is_page_def)
  then have "kmem_ok e (s\<lparr>mem := ?m, freelist := ld64 p (mem s)\<rparr>) ps" using assms by (simp add: kmem_ok_def)
  moreover have "kalloc s = Ok p (s\<lparr>mem := ?m, freelist := ld64 p (mem s)\<rparr>)"
    using k by (simp add: kalloc_def kwhen_def set_mem_def)
  ultimately show ?thesis using f k by blast
qed

lemma kalloc_empty: "kmem_ok e s [] \<Longrightarrow> kalloc s = Ok 0 s"
  by (simp add: kmem_ok_def kalloc_def kwhen_def)


section \<open>Initialisation\<close>

lemma aligned_iff: "(p :: uint64) mod 4096 = 0 \<longleftrightarrow> 4096 dvd unat p"
proof -
  have "p mod 4096 = 0 \<longleftrightarrow> unat (p mod 4096) = 0" by (metis unat_eq_0)
  then show ?thesis using unat_mod [of p 4096] by (simp add: dvd_eq_mod_eq_0)
qed

lemma aligned_step:
  assumes "4096 dvd a" and "4096 dvd (b :: nat)" and "a < b"
  shows "a + 4096 \<le> b"
proof -
  obtain i j where "a = 4096 * i" "b = 4096 * j" using assms(1,2) by (elim dvdE)
  then show ?thesis using assms(3) by simp
qed

lemma freerange_loop_spec:
  assumes "kmem_ok e s ps" and "p mod 4096 = 0" and "e \<le> p" and "p \<noteq> 0" and "pe \<le> PHYSTOP" and "pe mod 4096 = 0"
    and "\<forall>q \<in> set ps. q < p"
  shows "\<exists>s' qs. freerange_loop p pe s = Ok () s' \<and> kmem_ok e s' qs \<and> set qs = set ps \<union> {q. q mod 4096 = 0 \<and> p \<le> q \<and> q < pe}"
  using assms
proof (induction p pe arbitrary: s ps rule: freerange_loop.induct)
  case (1 p pe)
  show ?case
  proof (cases "unat p + PGSIZE \<le> unat pe")
    case True
    note u = freerange_step [OF True]
    have lt: "p < p + 4096" "p < pe" using u True by (simp_all add: word_less_nat_alt PGSIZE_def)
    have pg: "is_page e p" using "1.prems" lt by (simp add: is_page_def order.strict_trans2)
    have np: "p \<notin> set ps" using "1.prems"(7) by auto
    obtain s1 where s1: "kfree p s = Ok () s1" "kmem_ok e s1 (p # ps)" using kfree_spec [OF "1.prems"(1) pg np] by blast
    have pd: "4096 dvd unat p" "4096 dvd unat pe" using "1.prems"(2,6) by (simp_all add: aligned_iff)
    have m: "(p + 4096) mod 4096 = 0" unfolding aligned_iff u using pd by (simp add: PGSIZE_def)
    have "e \<le> p + 4096" "p + 4096 \<noteq> 0" "\<forall>q \<in> set (p # ps). q < p + 4096"
      using lt "1.prems"(3,7) by (auto intro: order.trans less_imp_le order.strict_trans)
    then obtain s' qs where *: "freerange_loop (p + 4096) pe s1 = Ok () s'" "kmem_ok e s' qs"
      "set qs = set (p # ps) \<union> {q. q mod 4096 = 0 \<and> p + 4096 \<le> q \<and> q < pe}"
      using "1.IH" [OF True s1(2) m _ _ "1.prems"(5,6)] by blast
    have "p \<le> q \<longleftrightarrow> q = p \<or> p + 4096 \<le> q" if "q mod 4096 = 0" for q
    proof -
      have "unat p < unat q \<longleftrightarrow> unat p + 4096 \<le> unat q"
        using aligned_step [OF pd(1), of "unat q"] that by (auto simp: aligned_iff)
      then show ?thesis using u unfolding le_less [of p q] word_less_nat_alt word_le_nat_alt by (auto simp: PGSIZE_def dest: unat_eqI)
    qed
    then have "q mod 4096 = 0 \<and> p \<le> q \<and> q < pe \<longleftrightarrow> q = p \<or> q mod 4096 = 0 \<and> p + 4096 \<le> q \<and> q < pe" for q
      using lt(2) "1.prems"(2) by (metis order_refl)
    then have "set qs = set ps \<union> {q. q mod 4096 = 0 \<and> p \<le> q \<and> q < pe}"
      unfolding *(3) by (simp only: list.set(2)) blast
    then show ?thesis using * s1 True by (subst freerange_loop.simps) auto
  next
    case False
    have "\<not> (q mod 4096 = 0 \<and> p \<le> q \<and> q < pe)" for q
    proof
      assume q: "q mod 4096 = 0 \<and> p \<le> q \<and> q < pe"
      then have "unat q + 4096 \<le> unat pe"
        using aligned_step [of "unat q" "unat pe"] "1.prems"(6) by (auto simp: aligned_iff word_less_nat_alt)
      then show False using False q by (simp add: word_le_nat_alt PGSIZE_def)
    qed
    then have "set ps \<union> {q. q mod 4096 = 0 \<and> p \<le> q \<and> q < pe} = set ps" by (simp only: empty_def [symmetric] Un_empty_right simp_thms)
    then show ?thesis
      using False "1.prems"(1) by (intro exI [of _ s] exI [of _ ps]) (simp add: freerange_loop.simps)
  qed
qed


lemma PGROUNDUP_props:
  assumes "unat a < 2 ^ 63"
  shows "PGROUNDUP a mod 4096 = 0" and "a \<le> PGROUNDUP a" and "\<And>q. q mod 4096 = 0 \<Longrightarrow> a \<le> q \<longleftrightarrow> PGROUNDUP a \<le> q"
proof -
  have u: "unat (a + 4095) = unat a + 4095" using assms by (simp add: unat_word_ariths)
  have "PGROUNDUP a = PGROUNDDOWN (a + 4095)" by (simp add: PGROUNDUP_def PGROUNDDOWN_def algebra_simps)
  then have r: "unat (PGROUNDUP a) = (unat a + 4095) div 4096 * 4096" using u by (simp add: unat_PGROUNDDOWN)
  show "PGROUNDUP a mod 4096 = 0" unfolding aligned_iff r by simp
  have "(unat a + 4095) mod 4096 < 4096" by simp
  then have lo: "unat a \<le> (unat a + 4095) div 4096 * 4096"
    using div_mult_mod_eq [of "unat a + 4095" 4096] by linarith
  then show "a \<le> PGROUNDUP a" by (simp add: word_le_nat_alt r)
  show "a \<le> q \<longleftrightarrow> PGROUNDUP a \<le> q" if q: "q mod 4096 = 0" for q
  proof -
    obtain j where "unat q = 4096 * j" using q by (auto simp: aligned_iff)
    then have "unat a \<le> unat q \<longleftrightarrow> (unat a + 4095) div 4096 * 4096 \<le> unat q"
      using div_less_iff_less_mult [of 4096 "unat a + 4095" "Suc j"] by auto
    then show ?thesis by (simp add: word_le_nat_alt r)
  qed
qed

lemma kinit_spec:
  assumes "kend s = e" and "freelist s = 0" and "0 < e" and "e \<le> PHYSTOP"
  shows "\<exists>s' ps. kinit s = Ok () s' \<and> kmem_ok e s' ps \<and> set ps = {p. is_page e p}"
proof -
  have lt: "unat e < 2 ^ 63" using assms(4) by (simp add: word_le_nat_alt params)
  note r = PGROUNDUP_props [OF lt]
  have "kmem_ok e s []" using assms by (simp add: kmem_ok_def)
  moreover have "PGROUNDUP e \<noteq> 0" using r(2) assms(3) by auto
  moreover have "PHYSTOP mod 4096 = 0" by (simp add: params)
  ultimately obtain s' ps where "freerange_loop (PGROUNDUP e) PHYSTOP s = Ok () s'" "kmem_ok e s' ps"
    "set ps = {q. q mod 4096 = 0 \<and> PGROUNDUP e \<le> q \<and> q < PHYSTOP}"
    using freerange_loop_spec [of e s "[]" "PGROUNDUP e" PHYSTOP] r by auto
  moreover have "{q. q mod 4096 = 0 \<and> PGROUNDUP e \<le> q \<and> q < PHYSTOP} = {p. is_page e p}"
    unfolding is_page_def using r(3) assms(3) by (intro Collect_cong) (metis leD)
  ultimately show ?thesis using assms(1) by (intro exI [of _ s'] exI [of _ ps]) (simp add: kinit_def freerange_def)
qed

section \<open>The contract\<close>

definition kmem_avail :: "uint64 \<Rightarrow> 'a kmem_state_scheme \<Rightarrow> uint64 set \<Rightarrow> bool" where
  "kmem_avail e s F \<longleftrightarrow> (\<exists>ps. kmem_ok e s ps \<and> set ps = F)"

definition page_of :: "uint64 \<Rightarrow> uint64 option" where
  "page_of r = (if r = 0 then None else Some r)"

interpretation kmem: slot_allocator "kmem_avail e" "is_page e" kalloc page_of kfree for e
proof
  fix s F and x :: uint64
  assume a: "kmem_avail e s F"
  then obtain ps where ps: "kmem_ok e s ps" "set ps = F" by (auto simp: kmem_avail_def)
  show "\<exists>r x s'. kalloc s = Ok r s' \<and> page_of r = Some x \<and> x \<in> F \<and> is_page e x \<and> kmem_avail e s' (F - {x})" if ne: "F \<noteq> {}"
  proof -
    obtain p qs where c: "ps = p # qs" using ne ps(2) by (cases ps) auto
    then have "is_page e p" "p \<in> F" "set qs = F - {p}" using ps by (auto simp: kmem_ok_def)
    then show ?thesis using kalloc_spec [of e s p qs] ps(1) c by (auto simp: kmem_avail_def page_of_def)
  qed
  show "\<exists>s'. kfree x s = Ok () s' \<and> kmem_avail e s' (insert x F)" if "is_page e x" "x \<notin> F"
    using kfree_spec [OF ps(1) that(1)] that(2) ps(2) by (auto simp: kmem_avail_def intro!: exI [of _ "x # ps"])
next
  fix s
  assume "kmem_avail e s {}"
  then show "\<exists>r s'. kalloc s = Ok r s' \<and> page_of r = None \<and> kmem_avail e s' {}"
    by (auto simp: kmem_avail_def page_of_def kalloc_empty)
qed

end
