(* ===== verification/Vm_Correct.thy ===== *)
theory Vm_Correct
  imports Kalloc_Spec Machine_Vm
begin

text \<open>
  The correctness of memory: the memory functions of \<^verbatim>\<open>src/kernel/string.c\<close>, the page allocator, and the copies
  between kernel and user space.
\<close>

section \<open>Memory functions\<close>

text \<open>C15. \<^verbatim>\<open>memmove\<close> copies as if through a buffer of its own, however the two regions overlap.\<close>

theorem memmove_overlapping:
  assumes "unat src + unat n < 2 ^ 64"
  shows "memmove dst src n m = store_bytes dst (load_bytes src (unat n) m) m"
  by (rule memmove_store [OF assms])

theorem memmove_overlapping_witness:
  "memmove 101 100 3 (\<lambda>a. ucast a) = store_bytes 101 [100, 101, 102] (\<lambda>a. ucast a)"
  using memmove_overlapping [of 100 3 101 "\<lambda>a. ucast a"] by (simp add: load_bytes_def upt_rec)

section \<open>The page allocator\<close>

text \<open>C14. \<^verbatim>\<open>kinit\<close> returns, and the free list then holds every page between the end of the kernel and the end of
  memory, each once.\<close>

theorem kinit_frees_memory:
  assumes "freelist s = 0" and "0 < kend s" and "kend s \<le> PHYSTOP"
  shows "\<exists>s' ps. kinit s = Ok () s' \<and> free_list (mem s') (freelist s') ps \<and> distinct ps \<and>
     set ps = {p. p mod 4096 = 0 \<and> kend s \<le> p \<and> p < PHYSTOP}"
proof -
  have "is_page (kend s) p \<longleftrightarrow> p mod 4096 = 0 \<and> kend s \<le> p \<and> p < PHYSTOP" for p
    unfolding is_page_def using assms(2) by (metis leD)
  then show ?thesis using kinit_spec [OF refl assms] by (auto simp: kmem_ok_def)
qed

theorem kinit_frees_memory_witness:
  "\<exists>s' ps. kinit \<lparr>mem = \<lambda>_. 0, freelist = 0, kend = 0x80021000\<rparr> = Ok () s' \<and> free_list (mem s') (freelist s') ps \<and> 0x80021000 \<in> set ps"
proof -
  obtain s' ps where "kinit \<lparr>mem = \<lambda>_. 0, freelist = 0, kend = 0x80021000\<rparr> = Ok () s'" "free_list (mem s') (freelist s') ps"
    "set ps = {p. p mod 4096 = 0 \<and> 0x80021000 \<le> p \<and> p < PHYSTOP}"
    using kinit_frees_memory [of "\<lparr>mem = \<lambda>_. 0, freelist = 0, kend = 0x80021000\<rparr>"] by (auto simp: params)
  then show ?thesis by (intro exI [of _ s'] exI [of _ ps]) (simp add: params)
qed

text \<open>C13. Whatever sequence of allocations and releases runs from a free list of the pages \<open>ps\<close>, no page is handed out
  while it is held, and every page is either held or free at the end.\<close>

theorem page_allocator_partition:
  assumes "kmem_ok (kend s) s ps"
  shows "\<exists>held s' qs. slot_run kalloc page_of kfree ops [] s = Ok held s' \<and> free_list (mem s') (freelist s') qs \<and>
     distinct (held @ qs) \<and> set (held @ qs) = set ps"
proof -
  have "kmem_avail (kend s) s (set ps)" using assms by (auto simp: kmem_avail_def)
  then obtain held s' F where 1: "slot_run kalloc page_of kfree ops [] s = Ok held s'" "kmem_avail (kend s) s' F" "distinct held"
    "set held \<inter> F = {}" "set held \<union> F = set ps" using kmem.run_partition [of "kend s" s "set ps" "[]" ops] by auto
  then obtain qs where "kmem_ok (kend s) s' qs" "set qs = F" by (auto simp: kmem_avail_def)
  then show ?thesis using 1 by (intro exI [of _ held] exI [of _ s'] exI [of _ qs]) (simp add: kmem_ok_def)
qed

theorem page_allocator_partition_witness:
  "\<exists>held s' qs. slot_run kalloc page_of kfree [Take_slot, Take_slot, Release_slot 0]
     [] \<lparr>mem = \<lambda>_. 0, freelist = 0x80021000, kend = 0x80021000\<rparr> = Ok held s' \<and> set (held @ qs) = {0x80021000}"
proof -
  have "ld64 0x80021000 (\<lambda>_. 0) = 0" by (simp add: ld64_def load_bytes_def upt_rec le_word_def)
  then have "kmem_ok 0x80021000 \<lparr>mem = \<lambda>_. 0, freelist = 0x80021000, kend = 0x80021000\<rparr> [0x80021000]"
    by (simp add: kmem_ok_def is_page_def params)
  then show ?thesis
    using page_allocator_partition [where s = "\<lparr>mem = \<lambda>_. 0, freelist = 0x80021000, kend = 0x80021000\<rparr>"
      and ps = "[0x80021000]" and ops = "[Take_slot, Take_slot, Release_slot 0]"] by fastforce
qed

section \<open>Copies between kernel and user space\<close>

text \<open>C12. Bytes that \<^verbatim>\<open>copyout\<close> stores at a user address are the bytes \<^verbatim>\<open>copyin\<close> reads there, across page
  boundaries; nothing but the bytes the range is mapped to changes.\<close>

theorem copyin_after_copyout:
  assumes "user_range (mem s) pt va (length bs)"
  shows "\<exists>s'. copyout pt va bs s = Ok 0 s' \<and> copyin pt va (length bs) s' = Ok (0, bs) s' \<and>
     (\<forall>x. (\<forall>i<length bs. upa (mem s) pt (va + of_nat i) \<noteq> Some x) \<longrightarrow> mem s' x = mem s x)"
proof -
  have "user_store (mem s) pt va bs x = mem s x" if "\<forall>i<length bs. upa (mem s) pt (va + of_nat i) \<noteq> Some x" for x
    using that user_rangeD(1) [OF assms] by (intro user_store_other) fastforce
  then show ?thesis
    using copyout_spec [OF assms]
      copyin_user_store [OF assms, where s' = "s\<lparr>mem := user_store (mem s) pt va bs\<rparr>"] by simp
qed

theorem copyin_after_copyout_witness:
  "\<exists>s'. copyout 0x80010000 0xFFE [1, 2, 3, 4] \<lparr>mem = sample_mem, freelist = 0, kend = 0\<rparr> = Ok 0 s' \<and>
     copyin 0x80010000 0xFFE 4 s' = Ok (0, [1, 2, 3, 4]) s' \<and> mem s' 0x80012000 = sample_mem 0x80012000"
proof -
  let ?s = "\<lparr>mem = sample_mem, freelist = 0, kend = 0\<rparr> :: kmem_state" and ?bs = "[1, 2, 3, 4] :: bytes"
  have r: "user_range (mem ?s) 0x80010000 0xFFE (length ?bs)" using sample_range by (simp add: eval_nat_numeral)
  obtain s' where s: "copyout 0x80010000 0xFFE ?bs ?s = Ok 0 s'" "copyin 0x80010000 0xFFE (length ?bs) s' = Ok (0, ?bs) s'"
    "\<forall>x. (\<forall>i<length ?bs. upa (mem ?s) 0x80010000 (0xFFE + of_nat i) \<noteq> Some x) \<longrightarrow> mem s' x = mem ?s x"
    using copyin_after_copyout [OF r] by blast
  have "\<forall>i<4. upa sample_mem 0x80010000 (0xFFE + of_nat i) \<noteq> Some 0x80012000"
    unfolding all_less_4 by (simp add: sample_walk PGROUNDDOWN_sample)
  moreover have "length ?bs = 4" by simp
  ultimately have "mem s' 0x80012000 = sample_mem 0x80012000" "copyin 0x80010000 0xFFE 4 s' = Ok (0, ?bs) s'"
    using s(2,3) by (metis kmem_state.select_convs mstate.select_convs(1))+
  then show ?thesis using s(1) by blast
qed

end
