(* ===== verification/Grep.thy ===== *)
theory Grep
  imports Ulib
begin

text \<open>
  \<^verbatim>\<open>src/user/grep.c\<close>: the regular-expression matcher and the loop that filters lines, and their correctness: the
  matcher decides the language of the pattern, and the output is made of the matching lines however the input is
  cut into reads.
\<close>

section \<open>The matcher\<close>

text \<open>\<^verbatim>\<open>'*'\<close> is 42, \<^verbatim>\<open>'$'\<close> 36, \<^verbatim>\<open>'.'\<close> 46 and \<^verbatim>\<open>'^'\<close> 94.\<close>

function matchhere :: "bytes \<Rightarrow> bytes \<Rightarrow> bool"
  and matchstar :: "uchar \<Rightarrow> bytes \<Rightarrow> bytes \<Rightarrow> bool" where
  "matchhere re tx =
     (if at0 re = 0 then True
      else if at0 (tl re) = 42 then matchstar (at0 re) (tl (tl re)) tx
      else if at0 re = 36 \<and> at0 (tl re) = 0 then at0 tx = 0
      else if at0 tx \<noteq> 0 \<and> (at0 re = 46 \<or> at0 re = at0 tx) then matchhere (tl re) (tl tx)
      else False)"
| "matchstar c re tx =
     (if matchhere re tx then True
      else if at0 tx \<noteq> 0 \<and> (at0 tx = c \<or> c = 46) then matchstar c re (tl tx)
      else False)"
  by pat_completeness auto
termination
  by (relation "inv_image (less_than <*lex*> less_than <*lex*> less_than)
        (\<lambda>x. case x of Inl (re, tx) \<Rightarrow> (length re, length tx, 0 :: nat) | Inr (c, re, tx) \<Rightarrow> (length re, length tx, 1))")
     (auto simp: at0_def split: list.splits)

declare matchhere.simps [simp del] matchstar.simps [simp del]

text \<open>The loop of \<^verbatim>\<open>match\<close>.\<close>

function match_loop :: "bytes \<Rightarrow> bytes \<Rightarrow> bool" where
  "match_loop re tx = (if matchhere re tx then True else if at0 tx \<noteq> 0 then match_loop re (tl tx) else False)"
  by pat_completeness auto
termination
  by (relation "measure (\<lambda>(re, tx). length tx)") (auto simp: at0_def split: list.splits)

declare match_loop.simps [simp del]

definition match :: "bytes \<Rightarrow> bytes \<Rightarrow> bool" where
  "match re tx = (if at0 re = 94 then matchhere (tl re) tx else match_loop re tx)"

section \<open>The filter\<close>

text \<open>\<^verbatim>\<open>buf\<close> holds the bytes read and not yet consumed, of which \<open>p\<close> is the rest. The inner loop returns what it writes and
  where it stops.\<close>

lemma strchr_shorter: "strchr p c = Some q \<Longrightarrow> length (tl q) < length p"
  by (induction p c rule: strchr.induct) (auto split: if_splits)

function grep_lines :: "bytes \<Rightarrow> bytes \<Rightarrow> bytes \<times> bytes" where
  "grep_lines pat p =
     (case strchr p 10 of
        None \<Rightarrow> ([], p)
      | Some q \<Rightarrow>
          (let line = take (length p - length q) p;
               (out, rest) = grep_lines pat (tl q) in
           ((if match pat line then line @ [10] else []) @ out, rest)))"
  by pat_completeness auto
termination
  by (relation "measure (\<lambda>(pat, p). length p)") (auto dest!: strchr_shorter)

declare grep_lines.simps [simp del]

definition GREP_BUF :: nat where [params]: "GREP_BUF = 1024"

text \<open>The loop over the reads, with fuel: what it writes to the standard output.\<close>

primrec grep_loop :: "nat \<Rightarrow> ('i \<Rightarrow> nat \<Rightarrow> bytes \<times> 'i) \<Rightarrow> bytes \<Rightarrow> bytes \<Rightarrow> 'i \<Rightarrow> bytes option" where
  "grep_loop 0 rd pat m i = None"
| "grep_loop (Suc k) rd pat m i =
     (let (bs, i') = rd i (GREP_BUF - length m - 1) in
      if bs = [] then Some []
      else
        let (out, rest) = grep_lines pat (m @ bs) in
        map_option (\<lambda>out'. out @ out') (grep_loop k rd pat rest i'))"

definition grep :: "nat \<Rightarrow> ('i \<Rightarrow> nat \<Rightarrow> bytes \<times> 'i) \<Rightarrow> bytes \<Rightarrow> 'i \<Rightarrow> bytes option" where
  "grep fuel rd pat i = grep_loop fuel rd pat [] i"

section \<open>The language of a pattern\<close>

text \<open>A pattern is a sequence of characters, each once or any number of times, and may be anchored at the end.\<close>

datatype atom = One uchar | Many uchar

fun pattern :: "bytes \<Rightarrow> atom list \<times> bool" where
  "pattern [] = ([], False)"
| "pattern [c] = (if c = 36 then ([], True) else ([One c], False))"
| "pattern (c # d # re) =
     (if d = 42 then (let (as, e) = pattern re in (Many c # as, e))
      else (let (as, e) = pattern (d # re) in (One c # as, e)))"

definition fits :: "uchar \<Rightarrow> uchar \<Rightarrow> bool" where
  "fits c x \<longleftrightarrow> c = 46 \<or> c = x"

primrec lang :: "atom list \<Rightarrow> bytes set" where
  "lang [] = {[]}"
| "lang (a # as) =
     (case a of
        One c \<Rightarrow> {x # w | x w. fits c x \<and> w \<in> lang as}
      | Many c \<Rightarrow> {u @ w | u w. list_all (fits c) u \<and> w \<in> lang as})"

definition prefix_matches :: "bytes \<Rightarrow> bytes \<Rightarrow> bool" where
  "prefix_matches re tx \<longleftrightarrow>
     (let (as, e) = pattern re in \<exists>u v. tx = u @ v \<and> u \<in> lang as \<and> (e \<longrightarrow> v = []))"

lemma at0_simps [simp]: "at0 [] = 0" "at0 (c # s) = c"
  by (simp_all add: at0_def)

lemma prefix_matches_Nil: "prefix_matches [] tx"
  by (simp add: prefix_matches_def)

lemma prefix_matches_end: "prefix_matches [36] tx \<longleftrightarrow> tx = []"
  by (simp add: prefix_matches_def)

lemma prefix_matches_pattern:
  "pattern re = (as, e) \<Longrightarrow> prefix_matches re tx \<longleftrightarrow> (\<exists>u v. tx = u @ v \<and> u \<in> lang as \<and> (e \<longrightarrow> v = []))"
  by (simp add: prefix_matches_def)

lemma prefix_matches_One:
  assumes "\<not> (c = 36 \<and> re = [])" and "at0 re \<noteq> 42"
  shows "prefix_matches (c # re) tx \<longleftrightarrow> (\<exists>x t. tx = x # t \<and> fits c x \<and> prefix_matches re t)"
proof -
  obtain as e where p: "pattern re = (as, e)" by fastforce
  then have q: "pattern (c # re) = (One c # as, e)" using assms by (cases re) auto
  show ?thesis
  proof
    assume "prefix_matches (c # re) tx"
    then obtain u v where "tx = u @ v" "u \<in> lang (One c # as)" "e \<longrightarrow> v = []"
      unfolding prefix_matches_pattern [OF q] by blast
    moreover from this(2) obtain x w where "u = x # w" "fits c x" "w \<in> lang as" by auto
    ultimately have "tx = x # w @ v" "fits c x" "w \<in> lang as" "e \<longrightarrow> v = []" by simp_all
    moreover from this have "prefix_matches re (w @ v)" unfolding prefix_matches_pattern [OF p] by blast
    ultimately show "\<exists>x t. tx = x # t \<and> fits c x \<and> prefix_matches re t" by blast
  next
    assume "\<exists>x t. tx = x # t \<and> fits c x \<and> prefix_matches re t"
    then obtain x w v where "tx = x # w @ v" "fits c x" "w \<in> lang as" "e \<longrightarrow> v = []"
      unfolding prefix_matches_pattern [OF p] by blast
    then show "prefix_matches (c # re) tx"
      unfolding prefix_matches_pattern [OF q] by (intro exI [of _ "x # w"] exI [of _ v]) simp
  qed
qed

lemma prefix_matches_Many:
  "prefix_matches (c # 42 # re) tx \<longleftrightarrow>
     prefix_matches re tx \<or> (\<exists>x t. tx = x # t \<and> fits c x \<and> prefix_matches (c # 42 # re) t)"
proof -
  obtain as e where p: "pattern re = (as, e)" by fastforce
  have q: "pattern (c # 42 # re) = (Many c # as, e)" by (simp add: p)
  have many: "prefix_matches (c # 42 # re) tx \<longleftrightarrow>
      (\<exists>u w v. tx = u @ w @ v \<and> list_all (fits c) u \<and> w \<in> lang as \<and> (e \<longrightarrow> v = []))" for tx
  proof
    assume "prefix_matches (c # 42 # re) tx"
    then obtain x v where "tx = x @ v" "x \<in> lang (Many c # as)" "e \<longrightarrow> v = []" unfolding prefix_matches_pattern [OF q] by blast
    moreover from this(2) obtain u w where "x = u @ w" "list_all (fits c) u" "w \<in> lang as" by auto
    ultimately show "\<exists>u w v. tx = u @ w @ v \<and> list_all (fits c) u \<and> w \<in> lang as \<and> (e \<longrightarrow> v = [])"
      by (intro exI [of _ u] exI [of _ w] exI [of _ v]) simp
  next
    assume "\<exists>u w v. tx = u @ w @ v \<and> list_all (fits c) u \<and> w \<in> lang as \<and> (e \<longrightarrow> v = [])"
    then obtain u w v where "tx = (u @ w) @ v" "list_all (fits c) u" "w \<in> lang as" "e \<longrightarrow> v = []" by (metis append.assoc)
    moreover from this(2,3) have "u @ w \<in> lang (Many c # as)" by auto
    ultimately have "tx = (u @ w) @ v" "u @ w \<in> lang (Many c # as)" "e \<longrightarrow> v = []" by simp_all
    then show "prefix_matches (c # 42 # re) tx" unfolding prefix_matches_pattern [OF q] by blast
  qed
  note one = prefix_matches_pattern [OF p]
  show ?thesis
  proof
    assume "prefix_matches (c # 42 # re) tx"
    then obtain u w v where u: "tx = u @ w @ v" "list_all (fits c) u" "w \<in> lang as" "e \<longrightarrow> v = []" unfolding many by blast
    show "prefix_matches re tx \<or> (\<exists>x t. tx = x # t \<and> fits c x \<and> prefix_matches (c # 42 # re) t)"
    proof (cases u)
      case Nil
      then have "prefix_matches re tx" unfolding one using u by auto
      then show ?thesis ..
    next
      case (Cons x u')
      then have "prefix_matches (c # 42 # re) (u' @ w @ v)"
        unfolding many using u by (intro exI [of _ u'] exI [of _ w] exI [of _ v]) simp
      then show ?thesis using u Cons by auto
    qed
  next
    assume "prefix_matches re tx \<or> (\<exists>x t. tx = x # t \<and> fits c x \<and> prefix_matches (c # 42 # re) t)"
    then show "prefix_matches (c # 42 # re) tx"
    proof
      assume "prefix_matches re tx"
      then obtain w v where "tx = w @ v" "w \<in> lang as" "e \<longrightarrow> v = []" unfolding one by blast
      then show ?thesis unfolding many by (intro exI [of _ "[]"] exI [of _ w] exI [of _ v]) simp
    next
      assume "\<exists>x t. tx = x # t \<and> fits c x \<and> prefix_matches (c # 42 # re) t"
      then obtain x u w v where "tx = x # u @ w @ v" "fits c x" "list_all (fits c) u" "w \<in> lang as" "e \<longrightarrow> v = []"
        unfolding many by blast
      then show ?thesis unfolding many by (intro exI [of _ "x # u"] exI [of _ w] exI [of _ v]) simp
    qed
  qed
qed

lemma match_matches:
  shows "0 \<notin> set re \<Longrightarrow> 0 \<notin> set tx \<Longrightarrow> matchhere re tx \<longleftrightarrow> prefix_matches re tx"
    and "0 \<notin> set r \<Longrightarrow> 0 \<notin> set t \<Longrightarrow> c \<noteq> 0 \<Longrightarrow> matchstar c r t \<longleftrightarrow> prefix_matches (c # 42 # r) t"
proof (induction re tx and c r t rule: matchhere_matchstar.induct)
  case (1 re tx)
  show ?case
  proof (cases re)
    case Nil
    then show ?thesis by (simp add: matchhere.simps prefix_matches_Nil)
  next
    case (Cons c r)
    then have c: "c \<noteq> 0" "0 \<notin> set r" using 1 by auto
    show ?thesis
    proof (cases "at0 r = 42")
      case True
      then obtain r' where r: "r = 42 # r'" by (cases r) auto
      then show ?thesis using 1 c Cons by (simp add: matchhere.simps [of "c # 42 # r'"])
    next
      case n42: False
      show ?thesis
      proof (cases "c = 36 \<and> r = []")
        case True
        then show ?thesis using 1(4) Cons by (cases tx) (auto simp: matchhere.simps [of "[36]"] prefix_matches_end)
      next
        case False
        then have "\<not> (c = 36 \<and> at0 r = 0)" using c by (cases r) auto
        then show ?thesis
          using 1 Cons c n42 prefix_matches_One [OF False n42, of tx]
          by (cases tx) (auto simp: matchhere.simps [of "c # r"] fits_def)
      qed
    qed
  qed
next
  case (2 c r t)
  show ?case
  proof (cases t)
    case Nil
    then show ?thesis using 2 prefix_matches_Many [of c r t] by (simp add: matchstar.simps [of c r "[]"])
  next
    case (Cons x t')
    then show ?thesis
      using 2 prefix_matches_Many [of c r t] by (auto simp: matchstar.simps [of c r "x # t'"] fits_def)
  qed
qed

lemma match_loop_matches:
  assumes "0 \<notin> set re" and "0 \<notin> set tx"
  shows "match_loop re tx \<longleftrightarrow> (\<exists>s t. tx = s @ t \<and> prefix_matches re t)"
  using assms(2)
proof (induction tx)
  case Nil
  then show ?case using match_matches(1) [OF assms(1), of "[]"] by (simp add: match_loop.simps)
next
  case (Cons x tx)
  have "(\<exists>s t. x # tx = s @ t \<and> prefix_matches re t) \<longleftrightarrow> prefix_matches re (x # tx) \<or> (\<exists>s t. tx = s @ t \<and> prefix_matches re t)"
    by (auto simp: Cons_eq_append_conv)
  then show ?case using Cons match_matches(1) [OF assms(1), of "x # tx"] by (simp add: match_loop.simps [of re "x # tx"])
qed

section \<open>Lines\<close>

text \<open>The lines of a file that end in a newline, and what follows the last of them.\<close>

function full_lines :: "bytes \<Rightarrow> bytes list" where
  "full_lines d = (if 10 \<in> set d then takeWhile (\<lambda>x. x \<noteq> 10) d # full_lines (tl (dropWhile (\<lambda>x. x \<noteq> 10) d)) else [])"
  by pat_completeness auto
termination
proof (relation "measure length")
  fix d :: bytes
  assume "10 \<in> set d"
  then have "dropWhile (\<lambda>x. x \<noteq> 10) d \<noteq> []" by (auto simp: dropWhile_eq_Nil_conv)
  then show "(tl (dropWhile (\<lambda>x. x \<noteq> 10) d), d) \<in> measure length"
    using length_dropWhile_le [of "\<lambda>x. x \<noteq> 10" d] by (cases "dropWhile (\<lambda>x. x \<noteq> 10) d") auto
qed simp

declare full_lines.simps [simp del]

definition grep_out :: "bytes \<Rightarrow> bytes \<Rightarrow> bytes" where
  "grep_out pat d = concat (map (\<lambda>l. if match pat l then l @ [10] else []) (full_lines d))"

lemma full_lines_none: "10 \<notin> set d \<Longrightarrow> full_lines d = []"
  by (simp add: full_lines.simps)

lemma full_lines_line: "10 \<notin> set l \<Longrightarrow> full_lines (l @ 10 # d) = l # full_lines d"
proof -
  assume l: "10 \<notin> set l"
  then have "takeWhile (\<lambda>x. x \<noteq> 10) (l @ 10 # d) = l" "dropWhile (\<lambda>x. x \<noteq> 10) (l @ 10 # d) = 10 # d"
    by (induction l) auto
  then show ?thesis by (simp add: full_lines.simps [of "l @ 10 # d"])
qed

lemma line_split:
  assumes "10 \<in> set d"
  obtains l r where "d = l @ 10 # r" "10 \<notin> set l"
  using split_list_first [OF assms] by blast

lemma strchr_line: "10 \<notin> set l \<Longrightarrow> 0 \<notin> set l \<Longrightarrow> strchr (l @ 10 # r) 10 = Some (10 # r)"
  by (induction l) auto

lemma grep_lines_spec:
  assumes "0 \<notin> set p"
  shows "\<exists>rest. grep_lines pat p = (grep_out pat p, rest) \<and> 10 \<notin> set rest \<and> 0 \<notin> set rest \<and>
     (\<forall>d. full_lines (p @ d) = full_lines p @ full_lines (rest @ d))"
  using assms
proof (induction pat p rule: grep_lines.induct)
  case (1 pat p)
  show ?case
  proof (cases "10 \<in> set p")
    case False
    then have "strchr p 10 = None" using 1 by (simp add: strchr_Some)
    then show ?thesis using False 1 by (simp add: grep_lines.simps full_lines_none grep_out_def)
  next
    case True
    then obtain l r where p: "p = l @ 10 # r" "10 \<notin> set l" by (rule line_split)
    then have s: "strchr p 10 = Some (10 # r)" using 1 by (simp add: strchr_line)
    obtain rest where r: "grep_lines pat r = (grep_out pat r, rest)" "10 \<notin> set rest" "0 \<notin> set rest"
      "\<forall>d. full_lines (r @ d) = full_lines r @ full_lines (rest @ d)"
      using 1(1) [OF s refl] 1(2) p by auto
    have "full_lines (p @ d) = l # full_lines (r @ d)" for d using full_lines_line [OF p(2)] p(1) by simp
    moreover have "full_lines p = l # full_lines r" using full_lines_line [OF p(2)] p(1) by simp
    moreover have "grep_lines pat p = (grep_out pat p, rest)"
      using r(1) s p calculation(2) by (subst grep_lines.simps) (simp add: grep_out_def)
    ultimately show ?thesis using r by auto
  qed
qed

lemma grep_loop_spec:
  assumes rd: "reads rd left" and "0 \<notin> set (m @ left i)" and "10 \<notin> set m"
    and "\<forall>l \<in> set (full_lines (m @ left i)). length l + 1 < GREP_BUF" and "length (left i) < k"
  shows "grep_loop k rd pat m i = Some (grep_out pat (m @ left i))"
  using assms(2-)
proof (induction k arbitrary: m i)
  case (Suc k)
  obtain bs i' where b: "rd i (GREP_BUF - length m - 1) = (bs, i')" by fastforce
  note r = readsD [OF rd b]
  show ?case
  proof (cases "bs = []")
    case True
    have "10 \<notin> set (left i)"
    proof
      assume "10 \<in> set (left i)"
      then obtain l d where d: "left i = l @ 10 # d" "10 \<notin> set l" by (rule line_split)
      then have "GREP_BUF - length m - 1 = 0" using r(3) True by simp
      moreover have "full_lines (m @ left i) = (m @ l) # full_lines d"
        using full_lines_line [of "m @ l" d] d Suc.prems(2) by simp
      ultimately show False using Suc.prems(3) by simp
    qed
    then show ?thesis using True b Suc.prems(2) by (simp add: grep_out_def full_lines_none)
  next
    case False
    have l: "left i = bs @ left i'" by (rule r(1))
    obtain rest where g: "grep_lines pat (m @ bs) = (grep_out pat (m @ bs), rest)" "10 \<notin> set rest" "0 \<notin> set rest"
      "\<forall>d. full_lines ((m @ bs) @ d) = full_lines (m @ bs) @ full_lines (rest @ d)"
      using grep_lines_spec [of "m @ bs" pat] Suc.prems(1) l by auto
    then have f: "full_lines (m @ left i) = full_lines (m @ bs) @ full_lines (rest @ left i')" using l by simp
    have "grep_loop k rd pat rest i' = Some (grep_out pat (rest @ left i'))"
    proof (rule Suc.IH)
      show "length (left i') < k" using Suc.prems(4) l False by (cases bs) auto
    qed (use g f Suc.prems l in auto)
    then show ?thesis using False b g f by (simp add: grep_out_def)
  qed
qed simp

section \<open>Properties\<close>

text \<open>C16. The matcher decides the language of the pattern: some part of the text is in it, where the part begins at the
  beginning of the text after a \<^verbatim>\<open>^\<close> and ends at its end before a \<^verbatim>\<open>$\<close>.\<close>

theorem match_language:
  assumes "0 \<notin> set re" and "0 \<notin> set tx"
  shows "match re tx \<longleftrightarrow>
     (if at0 re = 94
      then \<exists>u v. tx = u @ v \<and> u \<in> lang (fst (pattern (tl re))) \<and> (snd (pattern (tl re)) \<longrightarrow> v = [])
      else \<exists>s u v. tx = s @ u @ v \<and> u \<in> lang (fst (pattern re)) \<and> (snd (pattern re) \<longrightarrow> v = []))"
proof -
  have "0 \<notin> set (tl re)" using assms(1) by (cases re) auto
  then have 1: "matchhere (tl re) tx \<longleftrightarrow> (\<exists>u v. tx = u @ v \<and> u \<in> lang (fst (pattern (tl re))) \<and> (snd (pattern (tl re)) \<longrightarrow> v = []))"
    using match_matches(1) [of "tl re" tx] assms(2) prefix_matches_pattern [of "tl re" "fst (pattern (tl re))" "snd (pattern (tl re))" tx] by simp
  have "match_loop re tx \<longleftrightarrow> (\<exists>s u v. tx = s @ u @ v \<and> u \<in> lang (fst (pattern re)) \<and> (snd (pattern re) \<longrightarrow> v = []))"
    unfolding match_loop_matches [OF assms]
    using prefix_matches_pattern [of re "fst (pattern re)" "snd (pattern re)"] by auto
  then show ?thesis using 1 by (simp add: match_def)
qed

theorem match_language_witness:
  "match [97, 42, 98, 36] [120, 97, 97, 98] \<longleftrightarrow>
     (\<exists>s u v. [120, 97, 97, 98] = s @ u @ v \<and> u \<in> lang [Many 97, One 98] \<and> v = [])"
  using match_language [of "[97, 42, 98, 36]" "[120, 97, 97, 98]"] by simp

text \<open>C17. The filter writes the lines that match, in order, however the reads cut the file, provided the lines fit into
  the buffer; it ends after at most as many reads as the file has bytes and one more.\<close>

theorem grep_filters_lines:
  assumes "reads rd left" and "0 \<notin> set (left i)" and "\<forall>l \<in> set (full_lines (left i)). length l + 1 < GREP_BUF"
  shows "grep (length (left i) + 1) rd pat i = Some (concat (map (\<lambda>l. if match pat l then l @ [10] else []) (full_lines (left i))))"
  unfolding grep_def using grep_loop_spec [OF assms(1), of "[]" i "length (left i) + 1"] assms(2,3) by (simp add: grep_out_def)

theorem grep_filters_lines_witness:
  "grep 8 piecewise [98] ([97, 10, 98, 99, 10, 97, 98], [0, 1, 0]) = Some [98, 99, 10]"
proof -
  let ?d = "[97, 10, 98, 99, 10, 97, 98] :: bytes"
  have f: "full_lines ?d = [[97], [98, 99]]" by (simp add: full_lines.simps)
  have m: "\<not> match [98] [97]" "match [98] [98, 99]"
    by (simp_all add: match_def match_loop.simps matchhere.simps)
  have e: "(8 :: nat) = Suc (Suc (Suc (Suc (Suc (Suc (Suc (Suc 0)))))))" by simp
  show ?thesis
    unfolding e using grep_filters_lines [OF piecewise_reads, of "(?d, [0, 1, 0])" "[98]"] f m by (simp add: params)
qed

end
