(* ===== verification/Printf.thy ===== *)
theory Printf
  imports Ulib Console
begin

text \<open>
  Formatted output: \<^verbatim>\<open>src/user/printf.c\<close> and \<^verbatim>\<open>src/kernel/printf.c\<close>. The result of a function is what it prints. The
  variable arguments are a list of registers and of pointers to strings; taking an argument of another kind than the
  format asks for, or one too many, has no result.
\<close>

section \<open>Numbers\<close>

definition udigits :: bytes where
  "udigits = [48, 49, 50, 51, 52, 53, 54, 55, 56, 57, 65, 66, 67, 68, 69, 70]"

definition kdigits :: bytes where
  "kdigits = [48, 49, 50, 51, 52, 53, 54, 55, 56, 57, 97, 98, 99, 100, 101, 102]"

text \<open>\<^verbatim>\<open>do buf[i++] = digits[x % base]; while ((x /= base) != 0);\<close> for a base of at least 2, lowest digit first.\<close>

function digits_loop :: "bytes \<Rightarrow> nat \<Rightarrow> nat \<Rightarrow> bytes" where
  "digits_loop ds base x =
     ds ! (x mod base) # (if base < 2 \<or> x div base = 0 then [] else digits_loop ds base (x div base))"
  by pat_completeness auto
termination
  by (relation "measure (\<lambda>(ds, base, x). x)") (auto intro!: div_less_dividend simp: div_greater_zero_iff)

declare digits_loop.simps [simp del]

text \<open>What the loop and the sign leave in \<^verbatim>\<open>buf\<close>; it is printed from its end.\<close>

definition uprintint_buf :: "uint32 \<Rightarrow> nat \<Rightarrow> bool \<Rightarrow> bytes" where
  "uprintint_buf xx base sign =
     (let neg = sign \<and> sint xx < 0; x = (if neg then - xx else xx) in
      digits_loop udigits base (unat x) @ (if neg then [45] else []))"

definition uprintint :: "uint32 \<Rightarrow> nat \<Rightarrow> bool \<Rightarrow> bytes" where
  "uprintint xx base sign = rev (uprintint_buf xx base sign)"

definition kprintint_buf :: "uint32 \<Rightarrow> nat \<Rightarrow> bool \<Rightarrow> bytes" where
  "kprintint_buf xx base sign =
     (let neg = sign \<and> sint xx < 0; x = (if neg then - xx else xx) in
      digits_loop kdigits base (unat x) @ (if neg then [45] else []))"

definition kprintint :: "uint32 \<Rightarrow> nat \<Rightarrow> bool \<Rightarrow> bytes" where
  "kprintint xx base sign = rev (kprintint_buf xx base sign)"

text \<open>The sixteen digits from the highest on.\<close>

primrec hex_loop :: "bytes \<Rightarrow> nat \<Rightarrow> uint64 \<Rightarrow> bytes" where
  "hex_loop ds 0 x = []"
| "hex_loop ds (Suc k) x = ds ! unat (drop_bit 60 x) # hex_loop ds k (push_bit 4 x)"

definition uprintptr :: "uint64 \<Rightarrow> bytes" where
  "uprintptr x = [48, 120] @ hex_loop udigits 16 x"

definition kprintptr :: "uint64 \<Rightarrow> bytes" where
  "kprintptr x = [48, 120] @ hex_loop kdigits 16 x"

section \<open>Formats\<close>

datatype vararg = Reg uint64 | Ptr "bytes option"

definition null_text :: bytes where
  "null_text = [40, 110, 117, 108, 108, 41]"

definition str_out :: "bytes option \<Rightarrow> bytes" where
  "str_out s = takeWhile (\<lambda>c. c \<noteq> 0) (case s of None \<Rightarrow> null_text | Some t \<Rightarrow> t)"

text \<open>\<^verbatim>\<open>va_arg\<close> at an integer and at a pointer type.\<close>

fun arg_reg :: "vararg list \<Rightarrow> (uint64 \<times> vararg list) option" where
  "arg_reg (Reg n # ap) = Some (n, ap)"
| "arg_reg _ = None"

fun arg_ptr :: "vararg list \<Rightarrow> (bytes option \<times> vararg list) option" where
  "arg_ptr (Ptr s # ap) = Some (s, ap)"
| "arg_ptr _ = None"

text \<open>\<^verbatim>\<open>vprintf\<close>: one character of the format that follows a \<^verbatim>\<open>%\<close>, and the loop with its two states.\<close>

definition udirective :: "uchar \<Rightarrow> vararg list \<Rightarrow> (bytes \<times> vararg list) option" where
  "udirective c ap =
     (if c = 100 then map_option (\<lambda>(n, ap). (uprintint (ucast n) 10 True, ap)) (arg_reg ap)
      else if c = 108 then map_option (\<lambda>(n, ap). (uprintint (ucast n) 10 False, ap)) (arg_reg ap)
      else if c = 120 then map_option (\<lambda>(n, ap). (uprintint (ucast n) 16 False, ap)) (arg_reg ap)
      else if c = 112 then map_option (\<lambda>(n, ap). (uprintptr n, ap)) (arg_reg ap)
      else if c = 115 then map_option (\<lambda>(s, ap). (str_out s, ap)) (arg_ptr ap)
      else if c = 99 then map_option (\<lambda>(n, ap). ([ucast n], ap)) (arg_reg ap)
      else if c = 37 then Some ([c], ap)
      else Some ([37, c], ap))"

fun vprintf :: "bytes \<Rightarrow> bool \<Rightarrow> vararg list \<Rightarrow> bytes option" where
  "vprintf [] st ap = Some []"
| "vprintf (c # fmt) st ap =
     (if c = 0 then Some []
      else if \<not> st then
        (if c = 37 then vprintf fmt True ap
         else map_option (\<lambda>out. c # out) (vprintf fmt False ap))
      else
        (case udirective c ap of
           None \<Rightarrow> None
         | Some (bs, ap') \<Rightarrow> map_option (\<lambda>out. bs @ out) (vprintf fmt False ap')))"

text \<open>The kernel's \<^verbatim>\<open>printf\<close> takes the character after the \<^verbatim>\<open>%\<close> at once.\<close>

definition kdirective :: "uchar \<Rightarrow> vararg list \<Rightarrow> (bytes \<times> vararg list) option" where
  "kdirective c ap =
     (if c = 100 then map_option (\<lambda>(n, ap). (kprintint (ucast n) 10 True, ap)) (arg_reg ap)
      else if c = 120 then map_option (\<lambda>(n, ap). (kprintint (ucast n) 16 True, ap)) (arg_reg ap)
      else if c = 112 then map_option (\<lambda>(n, ap). (kprintptr n, ap)) (arg_reg ap)
      else if c = 115 then map_option (\<lambda>(s, ap). (str_out s, ap)) (arg_ptr ap)
      else if c = 37 then Some ([37], ap)
      else Some ([37, c], ap))"

fun kformat :: "bytes \<Rightarrow> vararg list \<Rightarrow> bytes option" where
  "kformat [] ap = Some []"
| "kformat (c # fmt) ap =
     (if c = 0 then Some []
      else if c \<noteq> 37 then map_option (\<lambda>out. c # out) (kformat fmt ap)
      else
        (case fmt of
           [] \<Rightarrow> Some []
         | d # fmt' \<Rightarrow>
             if d = 0 then Some []
             else
               (case kdirective d ap of
                  None \<Rightarrow> None
                | Some (bs, ap') \<Rightarrow> map_option (\<lambda>out. bs @ out) (kformat fmt' ap'))))"

text \<open>Each character goes to the console; \<^verbatim>\<open>panic\<close> prints its message as a format.\<close>

definition kprint :: "bytes \<Rightarrow> ('a cons_state_scheme, unit) kmon" where
  "kprint out = kfor out (\<lambda>c. consputc (uint c))"

definition panic_text :: "bytes \<Rightarrow> bytes option" where
  "panic_text s =
     map_option (\<lambda>out. [112, 97, 110, 105, 99, 58, 32] @ out @ [10]) (kformat s [])"

section \<open>Lemmas\<close>

lemma digits_loop_length:
  assumes "2 \<le> base" and "x < base ^ k" and "0 < k"
  shows "length (digits_loop ds base x) \<le> k"
  using assms
proof (induction k arbitrary: x)
  case (Suc k)
  show ?case
  proof (cases "x div base = 0")
    case True
    then show ?thesis by (simp add: digits_loop.simps [of ds base x])
  next
    case False
    have "x div base < base ^ k" using Suc.prems by (simp add: less_mult_imp_div_less mult.commute)
    moreover have "0 < k" using False Suc.prems by (cases k) auto
    ultimately have "length (digits_loop ds base (x div base)) \<le> k" using Suc.IH Suc.prems(1) by blast
    then show ?thesis by (simp add: digits_loop.simps [of ds base x])
  qed
qed simp

lemma udigits_dec: "d < 10 \<Longrightarrow> is_digit (udigits ! d) \<and> ucast (udigits ! d) = (of_nat (48 + d) :: uint32)"
proof -
  assume "d < 10"
  then have "d \<in> {0, 1, 2, 3, 4, 5, 6, 7, 8, 9}" by auto
  then show ?thesis by (auto simp: udigits_def is_digit_def)
qed

text \<open>Reading back the decimal digits, highest first.\<close>

lemma digits_loop_dec:
  "digits_loop udigits 10 x = (if x < 10 then [udigits ! x] else udigits ! (x mod 10) # digits_loop udigits 10 (x div 10))"
  by (simp add: digits_loop.simps [of udigits 10 x] div_eq_0_iff)

lemma atoi_loop_append: "list_all is_digit s \<Longrightarrow> atoi_loop n (s @ t) = atoi_loop (atoi_loop n s) t"
  by (induction s arbitrary: n) auto

lemma atoi_digits: "list_all is_digit (rev (digits_loop udigits 10 x)) \<and> atoi_loop 0 (rev (digits_loop udigits 10 x)) = of_nat x"
proof (induction x rule: less_induct)
  case (less x)
  show ?case
  proof (cases "x < 10")
    case True
    then show ?thesis using udigits_dec [OF True] by (simp add: digits_loop_dec [of x])
  next
    case False
    then have IH: "list_all is_digit (rev (digits_loop udigits 10 (x div 10)))"
      "atoi_loop 0 (rev (digits_loop udigits 10 (x div 10))) = of_nat (x div 10)" using less by auto
    have "x mod 10 < 10" by simp
    note d = udigits_dec [OF this]
    have "(of_nat (x div 10) * 10 + of_nat (48 + x mod 10) - 48 :: uint32) = of_nat (x div 10 * 10 + x mod 10)"
      by (simp only: of_nat_add of_nat_mult of_nat_numeral add_diff_cancel_left' add.assoc [symmetric]) simp
    then show ?thesis
      using False IH d by (simp add: digits_loop_dec [of x] atoi_loop_append)
  qed
qed

section \<open>Properties\<close>

text \<open>C18. \<^verbatim>\<open>atoi\<close> reads back every number from 0 to 2^31 - 1 that \<^verbatim>\<open>printint\<close> prints in decimal.\<close>

theorem atoi_printint:
  assumes "0 \<le> n" and "n < 2 ^ 31"
  shows "atoi (uprintint (word_of_int n) 10 True) = n"
proof -
  have "sint (word_of_int n :: uint32) = n" using assms by (simp add: sint_sbintrunc' signed_take_bit_int_eq_self)
  moreover have "int (unat (word_of_int n :: uint32)) = n" using assms by (simp add: unsigned_of_int take_bit_int_eq_self)
  moreover from this have "(of_nat (unat (word_of_int n :: uint32)) :: uint32) = word_of_int n" by simp
  ultimately show ?thesis
    using assms(1) atoi_digits [of "unat (word_of_int n :: uint32)"]
    by (simp add: atoi_def uprintint_def uprintint_buf_def Let_def)
qed

theorem atoi_printint_witness: "atoi (uprintint (word_of_int 2024) 10 True) = 2024"
  using atoi_printint [of 2024] by simp

text \<open>C19. What \<^verbatim>\<open>printint\<close> puts into its buffer of 16 characters fits, in the kernel and in the user library, at the two
  bases that are used, for every number.\<close>

theorem printint_fits:
  "length (uprintint_buf xx 10 sign) \<le> 11 \<and> length (uprintint_buf xx 16 sign) \<le> 9 \<and>
   length (kprintint_buf xx 10 sign) \<le> 11 \<and> length (kprintint_buf xx 16 sign) \<le> 9"
proof -
  have u: "unat x < 2 ^ 32" for x :: uint32 using unsigned_less [of x, where ?'a = nat] by simp
  have a: "length (digits_loop ds 10 (unat x)) \<le> 10" for ds and x :: uint32
    using u [of x] by (intro digits_loop_length) simp_all
  have b: "length (digits_loop ds 16 (unat x)) \<le> 8" for ds and x :: uint32
    using u [of x] by (intro digits_loop_length) simp_all
  show ?thesis
    by (auto simp: uprintint_buf_def kprintint_buf_def Let_def a b intro: order_trans [OF a] order_trans [OF b])
qed

end
