(* ===== verification/Wc.thy ===== *)
theory Wc
  imports Ulib
begin

text \<open>
  \<^verbatim>\<open>src/user/wc.c\<close> and \<^verbatim>\<open>src/user/cat.c\<close>: what they count and copy does not depend on how the reads cut the file. A read
  that fails is \<open>None\<close>.
\<close>

section \<open>Counting\<close>

record wc_state =
  wc_l :: uint32
  wc_w :: uint32
  wc_c :: uint32
  wc_inword :: bool

definition wc_char :: "uchar \<Rightarrow> wc_state \<Rightarrow> wc_state" where
  "wc_char b s =
     (let s = s\<lparr>wc_c := wc_c s + 1\<rparr>;
          s = (if b = 10 then s\<lparr>wc_l := wc_l s + 1\<rparr> else s) in
      if strchr [32, 13, 9, 10, 11] b \<noteq> None then s\<lparr>wc_inword := False\<rparr>
      else if \<not> wc_inword s then s\<lparr>wc_w := wc_w s + 1, wc_inword := True\<rparr>
      else s)"

text \<open>The loop over the reads, with fuel: the counts, or \<open>Some None\<close> after a read error.\<close>

primrec wc_loop :: "nat \<Rightarrow> ('i \<Rightarrow> nat \<Rightarrow> (bytes \<times> 'i) option) \<Rightarrow> 'i \<Rightarrow> wc_state \<Rightarrow> wc_state option option" where
  "wc_loop 0 rd i s = None"
| "wc_loop (Suc k) rd i s =
     (case rd i 512 of
        None \<Rightarrow> Some None
      | Some (bs, i') \<Rightarrow> if bs = [] then Some (Some s) else wc_loop k rd i' (fold wc_char bs s))"

definition wc :: "nat \<Rightarrow> ('i \<Rightarrow> nat \<Rightarrow> (bytes \<times> 'i) option) \<Rightarrow> 'i \<Rightarrow> wc_state option option" where
  "wc fuel rd i = wc_loop fuel rd i \<lparr>wc_l = 0, wc_w = 0, wc_c = 0, wc_inword = False\<rparr>"

section \<open>Copying\<close>

datatype cat_result = CatDone | CatReadError | CatWriteError

text \<open>\<open>wr o bs\<close> is what \<^verbatim>\<open>write(1, buf, n)\<close> returns, with the state of the output after it.\<close>

primrec cat_loop :: "nat \<Rightarrow> ('i \<Rightarrow> nat \<Rightarrow> (bytes \<times> 'i) option) \<Rightarrow> ('o \<Rightarrow> bytes \<Rightarrow> int \<times> 'o) \<Rightarrow> 'i \<Rightarrow> 'o \<Rightarrow> (cat_result \<times> 'o) option" where
  "cat_loop 0 rd wr i out = None"
| "cat_loop (Suc k) rd wr i out =
     (case rd i 512 of
        None \<Rightarrow> Some (CatReadError, out)
      | Some (bs, i') \<Rightarrow>
          if bs = [] then Some (CatDone, out)
          else
            let (r, out') = wr out bs in
            if r \<noteq> int (length bs) then Some (CatWriteError, out') else cat_loop k rd wr i' out')"

definition cat :: "nat \<Rightarrow> ('i \<Rightarrow> nat \<Rightarrow> (bytes \<times> 'i) option) \<Rightarrow> ('o \<Rightarrow> bytes \<Rightarrow> int \<times> 'o) \<Rightarrow> 'i \<Rightarrow> 'o \<Rightarrow> (cat_result \<times> 'o) option" where
  "cat fuel rd wr i out = cat_loop fuel rd wr i out"

section \<open>What is counted\<close>

definition is_space :: "uchar \<Rightarrow> bool" where
  "is_space c \<longleftrightarrow> c \<in> {32, 13, 9, 10, 11}"

text \<open>The number of words of a text: the places where a word begins, \<open>sep\<close> telling whether one may begin at the first
  character.\<close>

primrec words_from :: "bool \<Rightarrow> bytes \<Rightarrow> nat" where
  "words_from sep [] = 0"
| "words_from sep (c # d) = (if is_space c then words_from True d else (if sep then 1 else 0) + words_from False d)"

definition newlines :: "bytes \<Rightarrow> nat" where
  "newlines d = length (filter (\<lambda>c. c = 10) d)"

lemma wc_char_simps:
  "wc_c (wc_char b s) = wc_c s + 1" "wc_l (wc_char b s) = wc_l s + (if b = 10 then 1 else 0)"
  "wc_w (wc_char b s) = wc_w s + (if \<not> is_space b \<and> \<not> wc_inword s then 1 else 0)"
  "wc_inword (wc_char b s) \<longleftrightarrow> \<not> is_space b"
  by (auto simp: wc_char_def Let_def is_space_def)

lemma fold_wc_char:
  "wc_c (fold wc_char d s) = wc_c s + of_nat (length d) \<and> wc_l (fold wc_char d s) = wc_l s + of_nat (newlines d) \<and>
   wc_w (fold wc_char d s) = wc_w s + of_nat (words_from (\<not> wc_inword s) d)"
  by (induction d arbitrary: s) (auto simp: wc_char_simps newlines_def)

lemma wc_loop_spec:
  assumes "reads rd left" and "length (left i) < k"
  shows "wc_loop k (\<lambda>i n. Some (rd i n)) i s = Some (Some (fold wc_char (left i) s))"
  using assms(2)
proof (induction k arbitrary: i s)
  case (Suc k)
  obtain bs i' where b: "rd i 512 = (bs, i')" by fastforce
  note r = readsD [OF assms(1) b]
  show ?case
  proof (cases "bs = []")
    case False
    then have "length (left i') < k" using Suc.prems r(1) by (cases bs) auto
    then show ?thesis using Suc.IH False b r(1) by simp
  qed (use b r(3) in simp)
qed simp

lemma cat_loop_spec:
  assumes "reads rd left" and "length (left i) < k" and "\<And>out bs. wr out bs = (int (length bs), out @ bs)"
  shows "cat_loop k (\<lambda>i n. Some (rd i n)) wr i out = Some (CatDone, out @ left i)"
  using assms(2)
proof (induction k arbitrary: i out)
  case (Suc k)
  obtain bs i' where b: "rd i 512 = (bs, i')" by fastforce
  note r = readsD [OF assms(1) b]
  show ?case
  proof (cases "bs = []")
    case False
    then have "length (left i') < k" using Suc.prems r(1) by (cases bs) auto
    then show ?thesis using Suc.IH False b r(1) assms(3) by simp
  qed (use b r(3) in simp)
qed simp

section \<open>Property\<close>

text \<open>C20. \<^verbatim>\<open>wc\<close> ends and counts the newlines, words and bytes of the file (modulo 2^32), and \<^verbatim>\<open>cat\<close> ends and copies it,
  however the reads cut it.\<close>

theorem wc_cat_whole_file:
  assumes "reads rd left"
  shows "(\<exists>s. wc (length (left i) + 1) (\<lambda>i n. Some (rd i n)) i = Some (Some s) \<and> wc_l s = of_nat (newlines (left i)) \<and>
       wc_w s = of_nat (words_from True (left i)) \<and> wc_c s = of_nat (length (left i))) \<and>
     cat (length (left i) + 1) (\<lambda>i n. Some (rd i n)) (\<lambda>out bs. (int (length bs), out @ bs)) i [] = Some (CatDone, left i)"
proof -
  let ?s = "\<lparr>wc_l = 0, wc_w = 0, wc_c = 0, wc_inword = False\<rparr>"
  show ?thesis
    using wc_loop_spec [OF assms, of i "length (left i) + 1" ?s] fold_wc_char [of "left i" ?s]
      cat_loop_spec [OF assms, of i "length (left i) + 1" "\<lambda>out bs. (int (length bs), out @ bs)" "[]"]
    by (simp add: wc_def cat_def)
qed

theorem wc_cat_whole_file_witness:
  "\<exists>s. wc 6 (\<lambda>i n. Some (piecewise i n)) ([97, 32, 98, 99, 10], [1, 0]) = Some (Some s) \<and> wc_l s = 1 \<and> wc_w s = 2 \<and> wc_c s = 5"
proof -
  let ?d = "[97, 32, 98, 99, 10] :: bytes"
  have c: "newlines ?d = 1" "words_from True ?d = 2" by (simp_all add: newlines_def is_space_def)
  have e: "length ?d + 1 = 6" by simp
  obtain s where "wc (length ?d + 1) (\<lambda>i n. Some (piecewise i n)) (?d, [1, 0]) = Some (Some s)" "wc_l s = of_nat (newlines ?d)"
    "wc_w s = of_nat (words_from True ?d)" "wc_c s = of_nat (length ?d)"
    using wc_cat_whole_file [OF piecewise_reads, of "(?d, [1, 0])"] by auto
  then show ?thesis unfolding e by (intro exI [of _ s]) (simp add: c is_space_def)
qed

end
