(* ===== verification/Spec2Isabelle.thy ===== *)
theory Spec2Isabelle
  imports Sh_Print Fd_Table Lru_Order Log_Crash Sched Trap Spinlock Uart_Correct Fs_Correct Dir_Correct Path Vm_Correct Pipe_Correct Grep Printf Wc
begin

text \<open>
  A verification development of a teaching kernel in the xv6 family, extended with file
  permissions, symbolic links and fault injection for a mirrored disk, and of a part of its user programs (sources under
  \<^verbatim>\<open>src/\<close>).

  \<^bold>\<open>The program\<close>. The kernel manages memory (page allocator, page tables), processes, a disk behind a buffer cache and a
  write-ahead log, a file system on the logged blocks, pipes and a console, and offers them to user programs through system calls.
  The user library and programs such as the shell are built on the system calls only.

  \<^bold>\<open>Shape of the model\<close>. A kernel function is a function from the kernel state to an outcome: it
  returns, panics or sleeps (\<open>Kmonad\<close>). The state is a chain of extended records, one per
  component, in the order in which the components are built on each other, so that a function
  of a lower component applies unchanged to the states of the higher ones. Pointers into the
  kernel's tables are indices and null pointers are \<open>None\<close>. Spin locks delimit atomic sections
  and are left out of the component theories; sleeping locks, reference counts and wakeups are
  part of the state. User programs are functions on bytes; \<^verbatim>\<open>read\<close> is a parameter whose contract \<open>reads\<close> says that the pieces it returns
  make up the file.

  \<^bold>\<open>The kernel\<close>.
  \<^item> \<open>Prelude\<close>, \<open>Kmonad\<close>, \<open>Params\<close>: C integer types, byte arrays and their little-endian layout;
    outcomes and sequencing; the constants of \<^verbatim>\<open>kernel/param.h\<close>, \<^verbatim>\<open>kernel/fs.h\<close>, \<^verbatim>\<open>kernel/stat.h\<close>
    and \<^verbatim>\<open>kernel/fcntl.h\<close>.
  \<^item> \<open>Cstring\<close>: memory and \<^verbatim>\<open>kernel/string.c\<close>. \<open>Kalloc\<close>: \<^verbatim>\<open>kernel/kalloc.c\<close>, its free list threaded through memory. \<open>Vm\<close>: the page
    tables of \<^verbatim>\<open>kernel/vm.c\<close>, their walk, and the copies between user and kernel memory. \<open>Slots\<close> is the contract of an allocator as a locale,
    which \<open>Kalloc_Spec\<close> interprets on \<^verbatim>\<open>kalloc\<close> and \<^verbatim>\<open>kfree\<close>; \<open>Vm_Spec\<close> says what the walks and copies compute; \<open>Machine_Vm\<close> is a concrete page table.
    \<open>Vm_Correct\<close> shows: \<^verbatim>\<open>memmove\<close> is right for overlapping regions, \<^verbatim>\<open>kinit\<close> frees each page once, no sequence of \<^verbatim>\<open>kalloc\<close>
    and \<^verbatim>\<open>kfree\<close> hands a page out twice or loses one, and \<^verbatim>\<open>copyin\<close> reads back what \<^verbatim>\<open>copyout\<close> stored, across pages.
  \<^item> \<open>Proc\<close>, \<open>Process\<close>: the process table, \<^verbatim>\<open>sleep\<close>, \<^verbatim>\<open>wakeup\<close>, \<^verbatim>\<open>fork\<close>, \<^verbatim>\<open>exit\<close>, \<^verbatim>\<open>wait\<close>, \<^verbatim>\<open>kill\<close> and a round of the scheduler of \<^verbatim>\<open>kernel/proc.c\<close>,
    and \<^verbatim>\<open>kernel/sleeplock.c\<close>. \<open>Exec\<close>: \<^verbatim>\<open>kernel/exec.c\<close>. \<open>Trap\<close>: the dispatch of system calls and the traps. \<open>Sched\<close> shows that after a wakeup
    the next pass of the scheduler runs every process that was woken. \<open>Spinlock\<close>: \<^verbatim>\<open>kernel/spinlock.c\<close> with several CPUs whose steps interleave, and mutual exclusion.
  \<^item> \<open>Virtio\<close>: \<^verbatim>\<open>kernel/virtio_disk.c\<close>. The device is a parameter, constrained by \<open>virtio_blk_ok\<close>;
    \<open>Machine\<close> has a concrete device that meets it.
  \<^item> \<open>Lru\<close>, \<open>Lru_Order\<close>, \<open>Bio\<close>, \<open>Bio_Cache\<close>: the buffer cache of \<^verbatim>\<open>kernel/bio.c\<close>: its pointer-linked ring and
    the list it implements, in the order of use; the code, and the view of the cache that its clients rely on.
  \<^item> \<open>Log\<close>, \<open>Log_Spec\<close>, \<open>Log_Crash\<close>: \<^verbatim>\<open>kernel/log.c\<close>, the writes each of its operations performs,
    and recovery after a crash: a crash after any prefix of the writes of a commit leaves all or none of the logged blocks updated.
    Recovery unpins buffers that were never pinned.
  \<^item> \<open>Txn\<close>: code inside a transaction, as steps on the contents of the disk that the cache and the log stand for. \<open>Block_Alloc\<close>, \<open>Inode\<close>, \<open>Fs\<close>: the three layers of
    \<^verbatim>\<open>kernel/fs.c\<close>, with the invariants of the first; \<open>Inode_Map\<close>, \<open>Fs_Data\<close>, \<open>Dir_Spec\<close>: block mapping, contents of files, and the inode cache and directories, as functions of the
    contents of the disk. \<open>Machine_Fs\<close> is a concrete file system. \<open>Fs_Correct\<close> and \<open>Dir_Correct\<close> show: \<^verbatim>\<open>balloc\<close> takes the least free block or
    panics and never returns 0, \<^verbatim>\<open>bfree\<close> undoes it and panics on a free block; \<^verbatim>\<open>bmap\<close> extends a file and keeps the rest; \<^verbatim>\<open>readi\<close> returns what
    \<^verbatim>\<open>writei\<close> wrote, and after \<^verbatim>\<open>end_op\<close> the disk itself holds it; \<^verbatim>\<open>ilock\<close> loads what \<^verbatim>\<open>iupdate\<close> stored; \<^verbatim>\<open>iget\<close> keeps the cache free of
    duplicates; \<^verbatim>\<open>dirlookup\<close> finds what \<^verbatim>\<open>dirlink\<close> entered. \<open>Path\<close> shows that \<^verbatim>\<open>skipelem\<close> takes a path apart into its elements.
  \<^item> \<open>Console\<close>: \<^verbatim>\<open>kernel/uart.c\<close> and \<^verbatim>\<open>kernel/console.c\<close>. \<open>Ring\<close> is the contract of a circular buffer as a locale, which \<open>Pipe\<close> (\<^verbatim>\<open>kernel/pipe.c\<close>) and \<open>Uart_Correct\<close> interpret.
    \<open>Uart_Correct\<close> shows that the UART sends every byte once and in order.
    \<open>Pipe_Correct\<close> shows that a pipe with wrapping counters is a bounded queue and that \<^verbatim>\<open>piperead\<close> delivers what \<^verbatim>\<open>pipewrite\<close> stored.
  \<^item> \<open>File\<close>, \<open>Sysfile\<close>: the file table \<^verbatim>\<open>kernel/file.c\<close> and the system calls on files, \<^verbatim>\<open>kernel/sysfile.c\<close>.

  \<^bold>\<open>User programs\<close>.
  \<^item> \<open>Ulib\<close>: \<^verbatim>\<open>user/ulib.c\<close>. \<open>Printf\<close>: \<^verbatim>\<open>user/printf.c\<close> and \<^verbatim>\<open>kernel/printf.c\<close>: numbers fit into the buffer of \<^verbatim>\<open>printint\<close>, and \<^verbatim>\<open>atoi\<close> reads them back.
  \<^item> \<open>Grep\<close>, \<open>Wc\<close>: \<^verbatim>\<open>user/grep.c\<close>, \<^verbatim>\<open>user/wc.c\<close>, \<^verbatim>\<open>user/cat.c\<close>: the matcher decides the language of its pattern, and what the programs
    print does not depend on how the reads cut their input.
  \<^item> \<open>Sh\<close>, \<open>Sh_Print\<close>, \<open>Sh_Run\<close>: \<^verbatim>\<open>user/sh.c\<close>. The parser returns on every line, its strings are the words scanned, and it gives a printed command back.
    A pipeline is plumbed as it should be, and the shell acts on the lines of its input in order. \<open>Fd_Table\<close> shows that the descriptors which
    the shell's model hands out are those of the kernel's \<^verbatim>\<open>fdalloc\<close>.

  \<^bold>\<open>Fuel\<close>. The four functions of the shell's parser call each other with fuel; four units for each character and four more are
  enough for every line (\<open>Sh.parsecmd_returns\<close>). The loops of \<open>Grep\<close>, \<open>Wc\<close> and of the shell over their input have fuel too, and their
  theorems give the amount that is enough. Every other recursion is structural or has a termination proof.

  \<^bold>\<open>Not modelled\<close>. Machine-mode start-up, the assembly code and the interrupt controller (\<^verbatim>\<open>kernel/start.c\<close>, \<^verbatim>\<open>kernel/*.S\<close>,
  \<^verbatim>\<open>kernel/plic.c\<close>): they are instruction-level and have no data of their own; a context switch is the outcome \<open>Sleep\<close>. The registers of the
  devices at initialisation. Diagnostic messages, such as those of \<^verbatim>\<open>chperm\<close>, \<^verbatim>\<open>bmap\<close> and the permission checks of \<^verbatim>\<open>sys_read\<close>, are dropped: nothing depends on them.
  The allocator \<^verbatim>\<open>user/umalloc.c\<close>, the builder of file system images \<^verbatim>\<open>mkfs/mkfs.c\<close>, a program of the host, and the user programs that are wrappers of system
  calls or test drivers. The mirrored writes that \<^verbatim>\<open>kernel/bio.c\<close> announces are not in the code, and so not in the model.
\<close>

end
